(* ===== verification/Mr_Prelude.thy ===== *)
theory Mr_Prelude
  imports Main "HOL-Library.Multiset" "HOL-Library.Sublist" "HOL-Library.AList" "HOL-Library.Char_ord"
    "HOL-Library.List_Lexorder"
begin

text \<open>
  Shared vocabulary of the development. Go strings are byte strings, modelled as \<open>string\<close>
  (a list of 8-bit characters). The functions of Go's packages \<open>strings\<close> and \<open>strconv\<close> the
  sources call are defined here with Go's argument order; a Go map whose iteration order is
  observable is an association list (one list per possible iteration order), any other Go map is a
  HOL map. Where Go consults Unicode tables (\<open>TrimSpace\<close>) the ASCII part of the table is
  modelled, and theorems that depend on it ask for ASCII text (\<open>ascii\<close>).
\<close>

named_theorems mr_simps \<open>unfolding rules of the component operations\<close>
named_theorems mr_inv \<open>preservation of the component invariants\<close>

section \<open>Package strings\<close>

definition HasPrefix :: "string \<Rightarrow> string \<Rightarrow> bool" where
  "HasPrefix s p \<longleftrightarrow> take (length p) s = p"

definition HasSuffix :: "string \<Rightarrow> string \<Rightarrow> bool" where
  "HasSuffix s p \<longleftrightarrow> length p \<le> length s \<and> drop (length s - length p) s = p"

definition TrimPrefix :: "string \<Rightarrow> string \<Rightarrow> string" where
  "TrimPrefix s p = (if HasPrefix s p then drop (length p) s else s)"

definition TrimSuffix :: "string \<Rightarrow> string \<Rightarrow> string" where
  "TrimSuffix s p = (if HasSuffix s p then take (length s - length p) s else s)"

text \<open>\<open>strings.Split\<close> for a separator of one byte: never the empty list.\<close>

fun SplitByte :: "char \<Rightarrow> string \<Rightarrow> string list" where
  "SplitByte c [] = [[]]"
| "SplitByte c (x # xs) =
     (if x = c then [] # SplitByte c xs
      else (case SplitByte c xs of [] \<Rightarrow> [[x]] | p # ps \<Rightarrow> (x # p) # ps))"

text \<open>\<open>strings.Cut\<close> at the first occurrence of one byte: before, after, found.\<close>

fun CutByte :: "char \<Rightarrow> string \<Rightarrow> string \<times> string \<times> bool" where
  "CutByte c [] = ([], [], False)"
| "CutByte c (x # xs) =
     (if x = c then ([], xs, True)
      else (case CutByte c xs of (a, b, ok) \<Rightarrow> (x # a, b, ok)))"

fun Join :: "string list \<Rightarrow> string \<Rightarrow> string" where
  "Join [] sep = []"
| "Join [x] sep = x"
| "Join (x # y # ys) sep = x @ sep @ Join (y # ys) sep"

definition ascii :: "string \<Rightarrow> bool" where
  "ascii s \<longleftrightarrow> (\<forall>c \<in> set s. (of_char c :: nat) < 128)"

text \<open>The ASCII white space of \<open>unicode.IsSpace\<close>: tab, LF, VT, FF, CR and blank.\<close>

definition isSpace :: "char \<Rightarrow> bool" where
  "isSpace c \<longleftrightarrow> (of_char c :: nat) \<in> {9, 10, 11, 12, 13, 32}"

definition TrimSpace :: "string \<Rightarrow> string" where
  "TrimSpace s = rev (dropWhile isSpace (rev (dropWhile isSpace s)))"

text \<open>\<open>strings.Fields\<close> (ASCII white space).\<close>

fun fields_from :: "string \<Rightarrow> string \<Rightarrow> string list" where
  "fields_from w [] = (if w = [] then [] else [w])"
| "fields_from w (c # cs) =
     (if isSpace c then (if w = [] then fields_from [] cs else w # fields_from [] cs) else fields_from (w @ [c]) cs)"

definition Fields :: "string \<Rightarrow> string list" where
  "Fields s = fields_from [] s"

definition isDigit :: "char \<Rightarrow> bool" where
  "isDigit c \<longleftrightarrow> 48 \<le> (of_char c :: nat) \<and> (of_char c :: nat) \<le> 57"

text \<open>The ASCII part of \<open>strings.ToLower\<close>.\<close>

definition lowerChar :: "char \<Rightarrow> char" where
  "lowerChar c = (let n = (of_char c :: nat) in if 65 \<le> n \<and> n \<le> 90 then char_of (n + 32) else c)"

definition ToLower :: "string \<Rightarrow> string" where
  "ToLower s = map lowerChar s"

section \<open>Package strconv\<close>

fun dec_val :: "nat \<Rightarrow> string \<Rightarrow> nat" where
  "dec_val acc [] = acc"
| "dec_val acc (c # cs) = dec_val (10 * acc + (of_char c - 48)) cs"

text \<open>
  \<open>strconv.Atoi\<close>: an optional sign and decimal digits; \<open>None\<close> stands for its error, which covers
  values outside the 64-bit range.
\<close>

definition Atoi :: "string \<Rightarrow> int option" where
  "Atoi s =
     (let (neg, ds) =
        (case s of [] \<Rightarrow> (False, [])
         | c # cs \<Rightarrow> if c = CHR ''-'' then (True, cs) else if c = CHR ''+'' then (False, cs)
                     else (False, s));
        v = (if neg then - int (dec_val 0 ds) else int (dec_val 0 ds))
      in if ds \<noteq> [] \<and> list_all isDigit ds \<and> - (2 ^ 63) \<le> v \<and> v < 2 ^ 63 then Some v else None)"

text \<open>The same value in integers, which is what evaluation uses.\<close>

fun dec_int :: "int \<Rightarrow> string \<Rightarrow> int" where
  "dec_int acc [] = acc"
| "dec_int acc (c # cs) = dec_int (10 * acc + int (of_char c - 48)) cs"

lemma dec_int_val: "dec_int (int a) s = int (dec_val a s)"
proof (induction s arbitrary: a)
  case (Cons c s)
  show ?case using Cons [of "10 * a + (of_char c - 48)"] by simp
qed simp

lemma Atoi_code [code]:
  "Atoi s =
     (let (neg, ds) =
        (case s of [] \<Rightarrow> (False, [])
         | c # cs \<Rightarrow> if c = CHR ''-'' then (True, cs) else if c = CHR ''+'' then (False, cs)
                     else (False, s));
        v = (if neg then - dec_int 0 ds else dec_int 0 ds)
      in if ds \<noteq> [] \<and> list_all isDigit ds \<and> - (2 ^ 63) \<le> v \<and> v < 2 ^ 63 then Some v else None)"
proof -
  have "dec_int 0 ds = int (dec_val 0 ds)" for ds using dec_int_val [of 0 ds] by simp
  then show ?thesis unfolding Atoi_def by (simp only:)
qed

fun Itoa_nat :: "nat \<Rightarrow> string" where
  "Itoa_nat n =
     (if n < 10 then [char_of (48 + n)] else Itoa_nat (n div 10) @ [char_of (48 + n mod 10)])"

declare Itoa_nat.simps [simp del]

definition Itoa :: "int \<Rightarrow> string" where
  "Itoa i = (if i < 0 then CHR ''-'' # Itoa_nat (nat (- i)) else Itoa_nat (nat i))"

section \<open>Lists\<close>

text \<open>The first occurrence of every element, in order (\<open>dedup\<close> of \<open>mod_fw_nft.go\<close>): \<open>seen\<close> is the
  map of the source.\<close>

fun dedup_go :: "'a list \<Rightarrow> 'a list \<Rightarrow> 'a list" where
  "dedup_go seen [] = []"
| "dedup_go seen (x # xs) = (if x \<in> set seen then dedup_go seen xs else x # dedup_go (x # seen) xs)"

definition dedup :: "'a list \<Rightarrow> 'a list" where
  "dedup xs = dedup_go [] xs"

lemma set_dedup_go: "set (dedup_go seen xs) = set xs - set seen"
  by (induction xs arbitrary: seen) auto

lemma distinct_dedup_go: "distinct (dedup_go seen xs)"
  by (induction xs arbitrary: seen) (auto simp: set_dedup_go)

lemma set_dedup [simp]: "set (dedup xs) = set xs"
  by (simp add: dedup_def set_dedup_go)

lemma distinct_dedup [simp]: "distinct (dedup xs)"
  by (simp add: dedup_def distinct_dedup_go)

lemma dedup_go_distinct: "distinct xs \<Longrightarrow> set xs \<inter> set seen = {} \<Longrightarrow> dedup_go seen xs = xs"
  by (induction xs arbitrary: seen) auto

lemma dedup_distinct: "distinct xs \<Longrightarrow> dedup xs = xs"
  by (simp add: dedup_def dedup_go_distinct)

section \<open>Lemmas on the string functions\<close>

lemma HasPrefix_append [simp]: "HasPrefix (p @ s) p"
  by (simp add: HasPrefix_def)

lemma HasPrefix_iff: "HasPrefix s p \<longleftrightarrow> (\<exists>t. s = p @ t)"
  by (metis HasPrefix_def append_eq_conv_conj append_take_drop_id)

lemma HasSuffix_iff: "HasSuffix s p \<longleftrightarrow> (\<exists>t. s = t @ p)"
proof
  assume "HasSuffix s p"
  then have "drop (length s - length p) s = p" by (simp add: HasSuffix_def)
  then have "s = take (length s - length p) s @ p" by (metis append_take_drop_id)
  then show "\<exists>t. s = t @ p" by blast
qed (auto simp: HasSuffix_def)

lemma TrimPrefix_append [simp]: "TrimPrefix (p @ s) p = s"
  by (simp add: TrimPrefix_def HasPrefix_iff)

lemma TrimSuffix_append [simp]: "TrimSuffix (s @ p) p = s"
  by (simp add: TrimSuffix_def HasSuffix_iff)

lemma SplitByte_nonempty [simp]: "SplitByte c s \<noteq> []"
  by (induction s) (auto split: list.splits)

lemma Join_SplitByte: "Join (SplitByte c s) [c] = s"
proof (induction s)
  case (Cons x xs)
  then show ?case
    by (cases "SplitByte c xs"; cases "tl (SplitByte c xs)") auto
qed simp

lemma SplitByte_no_sep: "p \<in> set (SplitByte c s) \<Longrightarrow> c \<notin> set p"
proof (induction s arbitrary: p)
  case (Cons x xs)
  then show ?case by (cases "SplitByte c xs") (auto split: if_splits)
qed simp

lemma fields_word: "list_all (\<lambda>c. \<not> isSpace c) v \<Longrightarrow> fields_from w (v @ r) = fields_from (w @ v) r"
  by (induction v arbitrary: w) auto

lemma isSpace_lf [simp]: "isSpace CHR 0x0A"
  by (simp add: isSpace_def)

lemma TrimSpace_pad:
  assumes "list_all (\<lambda>c. \<not> isSpace c) s" "list_all isSpace t"
  shows "TrimSpace (s @ t) = s"
proof -
  have stop: "dropWhile isSpace xs = xs" if "list_all (\<lambda>c. \<not> isSpace c) xs" for xs
    using that by (cases xs) auto
  have drop: "dropWhile isSpace (u @ v) = dropWhile isSpace v" if "list_all isSpace u" for u v
    using that by (induction u) auto
  have t: "list_all isSpace (rev t)" and r: "list_all (\<lambda>c. \<not> isSpace c) (rev s)" using assms by simp_all
  show ?thesis
  proof (cases s)
    case Nil
    have e: "dropWhile isSpace t = []" using assms(2) by (simp add: list_all_iff)
    show ?thesis by (simp only: Nil append_Nil TrimSpace_def e rev.simps dropWhile.simps)
  next
    case (Cons c cs)
    then have "dropWhile isSpace (s @ t) = s @ t" using assms(1) by simp
    then show ?thesis by (simp add: TrimSpace_def drop [OF t] stop [OF r])
  qed
qed

lemma TrimSpace_id: "list_all (\<lambda>c. \<not> isSpace c) s \<Longrightarrow> TrimSpace s = s"
  using TrimSpace_pad [of s "[]"] by simp

lemma Itoa_nat_digits: "list_all isDigit (Itoa_nat n) \<and> Itoa_nat n \<noteq> []"
proof (induction n rule: Itoa_nat.induct)
  case (1 n)
  have dig: "isDigit (char_of (48 + k :: nat))" if "k < 10" for k :: nat
    using that by (simp add: isDigit_def)
  show ?case
  proof (cases "n < 10")
    case True
    then show ?thesis by (simp add: Itoa_nat.simps [of n] dig)
  next
    case False
    with 1 have "list_all isDigit (Itoa_nat (n div 10))" by simp
    moreover have "isDigit (char_of (48 + n mod 10))" by (rule dig) simp
    ultimately show ?thesis using False by (simp add: Itoa_nat.simps [of n])
  qed
qed

lemma dec_val_append: "dec_val acc (xs @ ys) = dec_val (dec_val acc xs) ys"
  by (induction xs arbitrary: acc) auto

lemma dec_val_Itoa_nat: "dec_val 0 (Itoa_nat n) = n"
proof (induction n rule: Itoa_nat.induct)
  case (1 n)
  show ?case
  proof (cases "n < 10")
    case True
    then show ?thesis by (subst Itoa_nat.simps) simp
  next
    case False
    with 1 have "dec_val 0 (Itoa_nat (n div 10)) = n div 10" by simp
    moreover have "(of_char (char_of (48 + n mod 10) :: char) :: nat) = 48 + n mod 10"
      by simp
    ultimately show ?thesis using False
      by (subst Itoa_nat.simps) (simp add: dec_val_append)
  qed
qed

lemma Atoi_Itoa_nat: "n < 2 ^ 63 \<Longrightarrow> Atoi (Itoa_nat n) = Some (int n)"
proof -
  assume n: "n < 2 ^ 63"
  obtain c cs where s: "Itoa_nat n = c # cs"
    using Itoa_nat_digits [of n] by (cases "Itoa_nat n") auto
  have d: "isDigit c" using Itoa_nat_digits [of n] s by simp
  have "c \<noteq> CHR ''-''" "c \<noteq> CHR ''+''" using d by (auto simp: isDigit_def)
  moreover have "int n < 2 ^ 63" using n by (metis of_nat_less_iff of_nat_numeral of_nat_power)
  moreover have "dec_val 0 (c # cs) = n" using s dec_val_Itoa_nat [of n] by simp
  moreover have "list_all isDigit (c # cs)" using Itoa_nat_digits [of n] s by simp
  ultimately show ?thesis
    unfolding Atoi_def Let_def s by simp
qed

section \<open>Encodings\<close>

text \<open>
  The interface of everything that is written as text and read back: numbers, quoted strings, config paths, addresses.
  A client that only needs different values to have different texts uses \<open>enc_inj\<close>.
\<close>

locale codec =
  fixes enc :: "'a \<Rightarrow> 'b" and dec :: "'b \<Rightarrow> 'a option" and valid :: "'a \<Rightarrow> bool"
  assumes dec_enc: "valid x \<Longrightarrow> dec (enc x) = Some x"
begin

lemma enc_inj: "valid x \<Longrightarrow> valid y \<Longrightarrow> enc x = enc y \<Longrightarrow> x = y"
  by (metis dec_enc option.inject)

lemma enc_inj_on: "inj_on enc (Collect valid)"
  by (auto simp: inj_on_def intro: enc_inj)

lemma enc_distinct: "list_all valid xs \<Longrightarrow> distinct (map enc xs) \<longleftrightarrow> distinct xs"
  unfolding distinct_map using inj_on_subset [OF enc_inj_on, of "set xs"] by (auto simp: list_all_iff)

lemma dec_all: "list_all valid xs \<Longrightarrow> map dec (map enc xs) = map Some xs"
  by (induction xs) (auto simp: dec_enc)

end

interpretation number: codec Itoa_nat "\<lambda>s. map_option nat (Atoi s)" "\<lambda>n. n < 2 ^ 63"
  by unfold_locales (simp add: Atoi_Itoa_nat)

end
