(* ===== verification/Login_Throttle.thy ===== *)
theory Login_Throttle
  imports Mr_Prelude "HOL-Library.Word"
begin

text \<open>
  The login throttle of \<open>mr/api_login.go\<close>: the records kept in \<open>/run/mini-router/login.json\<close>, one
  per source address, and the operations every password or token check goes through. The file is
  read, changed and written back under an exclusive lock, so each operation is one atomic step on
  the list of records. The list stands for a Go map in one iteration order; every theorem holds for
  every order.

  The lemmas give the exact length of every lock (the 64-bit shift included), the bound on the
  number of records, that sources do not influence each other, and the rate at which one source
  can have passwords checked.
\<close>

section \<open>Records and constants\<close>

record loginRec =
  Fails :: int
  Until :: int
  Locks :: int
  Seen :: int

definition loginRec0 :: loginRec where
  "loginRec0 = \<lparr>Fails = 0, Until = 0, Locks = 0, Seen = 0\<rparr>"

definition loginMax :: int where "loginMax = 5"
definition loginSources :: nat where "loginSources = 1024"

text \<open>Durations are \<open>time.Duration\<close> values: nanoseconds in a signed 64-bit integer.\<close>

definition loginBase :: "64 word" where "loginBase = 30000000000"
definition loginMaxLock :: int where "loginMaxLock = 3600000000000"
definition loginForget :: int where "loginForget = 900"

type_synonym logins = "(string \<times> loginRec) list"

section \<open>loginUpdate\<close>

text \<open>
  What can go wrong with the shared file: it cannot be opened or locked, it cannot be truncated
  (the old content stays), or it is truncated and the write fails (the next reader finds no
  records).
\<close>

datatype file_io = IoOk | IoOpenFail | IoTruncFail | IoWriteFail

definition rec_of :: "logins \<Rightarrow> string \<Rightarrow> loginRec" where
  "rec_of m key = (case map_of m key of None \<Rightarrow> loginRec0 | Some r \<Rightarrow> r)"

text \<open>The records idle for a day go.\<close>

definition forget_idle :: "int \<Rightarrow> logins \<Rightarrow> logins" where
  "forget_idle now m = filter (\<lambda>(k, x). \<not> (now - Seen x > 86400 \<and> Until x < now)) m"

text \<open>Beyond 1024 records the ones seen longest ago go.\<close>

definition drop_oldest :: "logins \<Rightarrow> logins" where
  "drop_oldest m =
     (if length m > loginSources
      then (let keys = map fst (sort_key (\<lambda>e. Seen (snd e)) m);
                gone = take (length m - loginSources) keys
            in filter (\<lambda>(k, x). k \<notin> set gone) m)
      else m)"

definition store_rec :: "string \<Rightarrow> loginRec \<Rightarrow> logins \<Rightarrow> logins" where
  "store_rec key r m = (if r = loginRec0 then AList.delete key m else AList.update key r m)"

definition loginUpdate ::
  "file_io \<Rightarrow> string \<Rightarrow> (loginRec \<Rightarrow> int \<Rightarrow> loginRec \<times> 'a) \<Rightarrow> int \<Rightarrow> logins \<Rightarrow> logins \<times> 'a option" where
  "loginUpdate io key f now m =
     (if io = IoOpenFail then (m, None)
      else (let (r, out) = f (rec_of m key) now;
                m' = drop_oldest (forget_idle now (store_rec key r m))
            in case io of IoOk \<Rightarrow> (m', Some out)
               | IoWriteFail \<Rightarrow> ([], None)
               | _ \<Rightarrow> (m, None)))"

section \<open>loginBegin, loginSucceeded, loginWait\<close>

text \<open>
  The length of the lock that follows \<open>locks\<close> locks in a row: \<open>loginBase << locks\<close> in 64-bit
  arithmetic, an hour when that is more or has wrapped to a non-positive value; in seconds.
\<close>

definition lock_duration :: "int \<Rightarrow> int" where
  "lock_duration locks =
     (let d = sint (push_bit (nat locks) loginBase)
      in (if d > loginMaxLock \<or> d \<le> 0 then loginMaxLock else d))"

definition lock_secs :: "int \<Rightarrow> int" where
  "lock_secs locks = lock_duration locks div 1000000000"

record begin_result =
  b_ok :: bool
  b_wait :: int
  b_fails :: int
  b_locked :: int

definition begin_step :: "loginRec \<Rightarrow> int \<Rightarrow> loginRec \<times> begin_result" where
  "begin_step r now =
     (if now < Until r
      then (r, \<lparr>b_ok = False, b_wait = Until r - now, b_fails = 0, b_locked = 0\<rparr>)
      else
        (let fails = (if now - Seen r > loginForget then 0 else Fails r) + 1;
             locks = (if Until r \<noteq> 0 \<and> now - Until r > loginMaxLock div 1000000000 then 0
                      else Locks r)
         in if fails \<ge> loginMax
            then (\<lparr>Fails = 0, Until = now + lock_secs locks, Locks = locks + 1, Seen = now\<rparr>,
                  \<lparr>b_ok = True, b_wait = 0, b_fails = fails, b_locked = lock_duration locks\<rparr>)
            else (r\<lparr>Fails := fails, Locks := locks, Seen := now\<rparr>,
                  \<lparr>b_ok = True, b_wait = 0, b_fails = fails, b_locked = 0\<rparr>)))"

text \<open>Without shared state the attempt is let through (after a pause of 1.5 s).\<close>

definition loginBegin :: "file_io \<Rightarrow> string \<Rightarrow> int \<Rightarrow> logins \<Rightarrow> logins \<times> begin_result" where
  "loginBegin io key now m =
     (case loginUpdate io key begin_step now m of
        (m', Some res) \<Rightarrow> (m', res)
      | (m', None) \<Rightarrow> (m', \<lparr>b_ok = True, b_wait = 0, b_fails = 1, b_locked = 0\<rparr>))"

definition loginSucceeded :: "file_io \<Rightarrow> string \<Rightarrow> int \<Rightarrow> logins \<Rightarrow> logins" where
  "loginSucceeded io key now m = fst (loginUpdate io key (\<lambda>r t. (loginRec0, ())) now m)"

definition loginWait :: "string \<Rightarrow> int \<Rightarrow> logins \<Rightarrow> int" where
  "loginWait key now m =
     (case map_of m key of None \<Rightarrow> 0 | Some r \<Rightarrow> (if Until r - now > 0 then Until r - now else 0))"

section \<open>checkPasswordFrom\<close>

datatype login_answer = LoginOk | LoginThrottled int | LoginDenied string

datatype login_log = LogLocked int | LogFirstFailure

definition checkPasswordFrom ::
  "file_io \<Rightarrow> file_io \<Rightarrow> (string \<Rightarrow> string \<Rightarrow> bool) \<Rightarrow> string \<Rightarrow> string \<Rightarrow> string \<Rightarrow> string \<Rightarrow> int \<Rightarrow> logins
    \<Rightarrow> logins \<times> login_answer \<times> login_log list" where
  "checkPasswordFrom io1 io2 checkPassword key stored pw msg now m =
     (let (m1, b) = loginBegin io1 key now m
      in if \<not> b_ok b then (m1, LoginThrottled (b_wait b), [])
         else if checkPassword stored pw then (loginSucceeded io2 key now m1, LoginOk, [])
         else (m1, LoginDenied msg,
               if b_locked b > 0 then [LogLocked (b_locked b)]
               else if b_fails b = 1 then [LogFirstFailure] else []))"

section \<open>Lock lengths\<close>

lemma shift_table:
  "\<forall>n \<in> set [0..<64]. lock_duration (int n) = (if n < 7 then 30000000000 * 2 ^ n else loginMaxLock)"
  by (simp add: upt_rec lock_duration_def loginBase_def loginMaxLock_def)

lemma shift_large: "64 \<le> n \<Longrightarrow> push_bit n (w :: 64 word) = 0"
  by (rule bit_eqI) (auto simp: bit_simps)

lemma lock_duration_eq:
  assumes "0 \<le> locks"
  shows "lock_duration locks = (if locks < 7 then 30000000000 * 2 ^ nat locks else loginMaxLock)"
proof (cases "nat locks < 64")
  case True
  then show ?thesis
    using bspec [OF shift_table, of "nat locks"] assms by (simp add: nat_less_iff)
next
  case False
  then have "push_bit (nat locks) loginBase = 0" by (intro shift_large) simp
  with False show ?thesis by (simp add: lock_duration_def loginMaxLock_def)
qed

lemma pow2_ge_128: "7 \<le> n \<Longrightarrow> 128 \<le> (2 :: int) ^ n"
  using power_increasing [of 7 n "2 :: int"] by simp

lemma lock_secs_eq:
  assumes "0 \<le> locks"
  shows "lock_secs locks = min (30 * 2 ^ nat locks) 3600"
proof (cases "locks < 7")
  case True
  then have "nat locks \<in> {0, 1, 2, 3, 4, 5, 6}" using assms by auto
  then show ?thesis
    using True assms by (auto simp: lock_secs_def lock_duration_eq)
next
  case False
  then have "128 \<le> (2 :: int) ^ nat locks" by (intro pow2_ge_128) simp
  with False assms show ?thesis
    by (simp add: lock_secs_def lock_duration_eq loginMaxLock_def)
qed

lemma lock_secs_bounds: "0 \<le> locks \<Longrightarrow> 30 \<le> lock_secs locks \<and> lock_secs locks \<le> 3600"
  by (simp add: lock_secs_eq)

section \<open>The records: distinct sources, bounded number, counters in range\<close>

definition rec_ok :: "loginRec \<Rightarrow> bool" where
  "rec_ok r \<longleftrightarrow> 0 \<le> Fails r \<and> Fails r < loginMax \<and> 0 \<le> Locks r"

definition logins_ok :: "logins \<Rightarrow> bool" where
  "logins_ok m \<longleftrightarrow>
     distinct (map fst m) \<and> length m \<le> loginSources \<and> (\<forall>(k, r) \<in> set m. rec_ok r)"

lemma rec_ok_zero [simp]: "rec_ok loginRec0"
  by (simp add: rec_ok_def loginRec0_def loginMax_def)

lemma rec_ok_rec_of: "logins_ok m \<Longrightarrow> rec_ok (rec_of m key)"
  by (auto simp: logins_ok_def rec_of_def split: option.splits dest!: map_of_SomeD)

lemma begin_step_ok: "rec_ok r \<Longrightarrow> rec_ok (fst (begin_step r now))"
  by (auto simp: begin_step_def rec_ok_def loginMax_def Let_def)

lemma set_update_alist: "set (AList.update k v al) \<subseteq> insert (k, v) (set al)"
  by (induction al) auto

lemma set_store_rec: "set (store_rec key r m) \<subseteq> insert (key, r) (set m)"
  using set_update_alist [of key r m] by (auto simp: store_rec_def AList.delete_eq)

lemma distinct_store_rec: "distinct (map fst m) \<Longrightarrow> distinct (map fst (store_rec key r m))"
  by (simp add: store_rec_def AList.distinct_update AList.distinct_delete)

lemma keys_store_rec: "fst ` set (store_rec key r m) \<subseteq> insert key (fst ` set m)"
  by (auto simp: store_rec_def AList.dom_update AList.delete_eq)

lemma distinct_filter_fst: "distinct (map fst m) \<Longrightarrow> distinct (map fst (filter P m))"
  by (induction m) (auto simp: image_iff)

lemma length_drop_oldest:
  assumes "distinct (map fst m)"
  shows "length (drop_oldest m) \<le> loginSources"
proof (cases "length m > loginSources")
  case True
  define keys where "keys = map fst (sort_key (\<lambda>e. Seen (snd e)) m)"
  define gone where "gone = take (length m - loginSources) keys"
  have mkeys: "mset keys = mset (map fst m)" by (simp add: keys_def)
  have dk: "distinct keys" using assms mkeys by (metis mset_eq_imp_distinct_iff)
  have lk: "length keys = length m" by (simp add: keys_def)
  let ?kept = "filter (\<lambda>(k, x). k \<notin> set gone) m"
  have eq: "drop_oldest m = ?kept"
    using True by (simp add: drop_oldest_def Let_def keys_def gone_def)
  have "set (map fst ?kept) \<subseteq> set keys - set gone"
    using mkeys by (auto simp: keys_def)
  then have "card (set (map fst ?kept)) \<le> card (set keys - set gone)"
    by (intro card_mono) auto
  moreover have "card (set keys - set gone) = length keys - length gone"
    using dk by (subst card_Diff_subset) (auto simp: gone_def distinct_card dest: in_set_takeD)
  moreover have "length gone = length m - loginSources" by (simp add: gone_def lk)
  moreover have "card (set (map fst ?kept)) = length ?kept"
    using distinct_card [OF distinct_filter_fst [OF assms]] by (metis length_map)
  ultimately show ?thesis using eq lk True by simp
qed (simp add: drop_oldest_def)

lemma set_drop_oldest: "set (drop_oldest m) \<subseteq> set m"
  by (auto simp: drop_oldest_def Let_def)

lemma distinct_drop_oldest: "distinct (map fst m) \<Longrightarrow> distinct (map fst (drop_oldest m))"
  by (simp add: drop_oldest_def Let_def distinct_filter_fst)

lemma loginUpdate_ok:
  assumes "logins_ok m" and "\<And>r. rec_ok r \<Longrightarrow> rec_ok (fst (f r now))"
  shows "logins_ok (fst (loginUpdate io key f now m))"
proof -
  obtain r out where f: "f (rec_of m key) now = (r, out)" by (cases "f (rec_of m key) now")
  let ?s = "store_rec key r m"
  let ?m' = "drop_oldest (forget_idle now ?s)"
  have rok: "rec_ok r" using assms f rec_ok_rec_of by (metis fst_conv)
  have d: "distinct (map fst (forget_idle now ?s))"
    using assms(1) by (simp add: logins_ok_def forget_idle_def distinct_filter_fst distinct_store_rec)
  have "set ?m' \<subseteq> insert (key, r) (set m)"
    using set_drop_oldest [of "forget_idle now ?s"] set_store_rec [of key r m]
    by (auto simp: forget_idle_def)
  then have "logins_ok ?m'"
    using assms(1) rok d length_drop_oldest [OF d] distinct_drop_oldest [OF d]
    unfolding logins_ok_def by blast
  moreover have "logins_ok []" by (simp add: logins_ok_def)
  ultimately show ?thesis
    using assms(1) by (cases io) (simp_all add: loginUpdate_def f)
qed

lemma loginBegin_ok [mr_inv]: "logins_ok m \<Longrightarrow> logins_ok (fst (loginBegin io key now m))"
  using loginUpdate_ok [of m begin_step now io key, OF _ begin_step_ok]
  by (auto simp: loginBegin_def split: prod.splits option.splits)

lemma loginSucceeded_ok [mr_inv]: "logins_ok m \<Longrightarrow> logins_ok (loginSucceeded io key now m)"
  unfolding loginSucceeded_def by (rule loginUpdate_ok) auto

lemma checkPasswordFrom_ok [mr_inv]:
  "logins_ok m \<Longrightarrow> logins_ok (fst (checkPasswordFrom io1 io2 cp key stored pw msg now m))"
  using loginBegin_ok [of m io1 key now]
  by (auto simp: checkPasswordFrom_def split: prod.splits intro: loginSucceeded_ok)

section \<open>Sources are independent\<close>

lemma map_of_filter_fst_None:
  "map_of (filter P m) k = None \<longleftrightarrow> (\<forall>v. (k, v) \<in> set m \<longrightarrow> \<not> P (k, v))"
  by (force simp: map_of_eq_None_iff)

lemma map_of_filter_distinct:
  assumes "distinct (map fst m)"
  shows "map_of (filter P m) k = (case map_of m k of None \<Rightarrow> None
           | Some v \<Rightarrow> if P (k, v) then Some v else None)"
  using assms by (induction m) (auto split: option.splits simp: image_iff map_of_eq_None_iff)

lemma rec_of_store:
  "rec_of (store_rec key r m) k = (if k = key then r else rec_of m k)"
  by (simp add: store_rec_def rec_of_def AList.update_conv' AList.delete_conv')

text \<open>A record idle for a day reads as no record at all.\<close>

definition idle :: "int \<Rightarrow> loginRec \<Rightarrow> bool" where
  "idle now r \<longleftrightarrow> now - Seen r > 86400 \<and> Until r < now"

lemma rec_of_forget:
  assumes "distinct (map fst m)"
  shows "rec_of (forget_idle now m) k
       = (if idle now (rec_of m k) then loginRec0 else rec_of m k)"
  using assms
  by (auto simp: rec_of_def forget_idle_def idle_def loginRec0_def map_of_filter_distinct
      split: option.splits)

lemma rec_of_update:
  assumes "logins_ok m" "length (forget_idle now (store_rec key r m)) \<le> loginSources"
    and "f (rec_of m key) now = (r, out)"
  shows "rec_of (fst (loginUpdate IoOk key f now m)) k
       = (let x = (if k = key then r else rec_of m k) in if idle now x then loginRec0 else x)"
  using assms
  by (simp add: loginUpdate_def drop_oldest_def rec_of_forget rec_of_store distinct_store_rec
      logins_ok_def Let_def)

lemma length_store_le:
  assumes "logins_ok m" "fst ` set m \<union> {key} \<subseteq> K" "finite K" "card K \<le> loginSources"
  shows "length (forget_idle now (store_rec key r m)) \<le> loginSources"
proof -
  let ?f = "forget_idle now (store_rec key r m)"
  have d: "distinct (map fst ?f)"
    using assms(1) by (simp add: logins_ok_def forget_idle_def distinct_filter_fst distinct_store_rec)
  have "set (map fst ?f) \<subseteq> K"
    using keys_store_rec [of key r m] assms(2) by (auto simp: forget_idle_def)
  then have "card (set (map fst ?f)) \<le> card K" using assms(3) by (rule card_mono [rotated])
  then show ?thesis using assms(4) distinct_card [OF d] by simp
qed

lemma keys_update:
  assumes "fst ` set m \<union> {key} \<subseteq> K"
  shows "fst ` set (fst (loginUpdate IoOk key f now m)) \<subseteq> K"
proof -
  obtain r out where f: "f (rec_of m key) now = (r, out)" by (cases "f (rec_of m key) now")
  have "set (fst (loginUpdate IoOk key f now m)) \<subseteq> set (store_rec key r m)"
    using set_drop_oldest [of "forget_idle now (store_rec key r m)"]
    by (auto simp: loginUpdate_def f forget_idle_def)
  then show ?thesis using keys_store_rec [of key r m] assms by blast
qed

section \<open>The rate of password checks\<close>

text \<open>
  A history of the shared file: attempts (each counted by \<open>loginBegin\<close> before its password is
  checked) and successes (\<open>loginSucceeded\<close>), of any sources, in the order of the file lock.
\<close>

datatype login_event = Attempt string int | Success string int

fun ev_key :: "login_event \<Rightarrow> string" where
  "ev_key (Attempt k t) = k" | "ev_key (Success k t) = k"

fun ev_time :: "login_event \<Rightarrow> int" where
  "ev_time (Attempt k t) = t" | "ev_time (Success k t) = t"

text \<open>\<open>acc\<close>: when attempts of source \<open>k\<close> were let through to the password check, newest first.\<close>

fun login_trace :: "string \<Rightarrow> logins \<times> int list \<Rightarrow> login_event list \<Rightarrow> logins \<times> int list" where
  "login_trace k (m, acc) [] = (m, acc)"
| "login_trace k (m, acc) (Attempt key t # es) =
     (let (m', b) = loginBegin IoOk key t m
      in login_trace k (m', if key = k \<and> b_ok b then t # acc else acc) es)"
| "login_trace k (m, acc) (Success key t # es) =
     login_trace k (loginSucceeded IoOk key t m, acc) es"

definition checked_times :: "string \<Rightarrow> login_event list \<Rightarrow> int list" where
  "checked_times k es = rev (snd (login_trace k ([], []) es))"

text \<open>
  The invariant: at any later time \<open>t\<close> at which the source is not locked, the checks older than the
  current series of failures are at least 30 s old.
\<close>

definition series :: "loginRec \<Rightarrow> int \<Rightarrow> int" where
  "series r t = (if t - Seen r > loginForget then 0 else Fails r)"

definition rate_inv :: "loginRec \<Rightarrow> int list \<Rightarrow> int \<Rightarrow> bool" where
  "rate_inv r acc now \<longleftrightarrow>
     (\<forall>a \<in> set acc. a \<le> now) \<and>
     (\<forall>t \<ge> now. Until r \<le> t \<longrightarrow> (\<forall>i < length acc. series r t \<le> int i \<longrightarrow> acc ! i + 30 \<le> t))"

definition spaced :: "int list \<Rightarrow> bool" where
  "spaced acc \<longleftrightarrow> (\<forall>i. i + 5 < length acc \<longrightarrow> acc ! (i + 5) + 30 \<le> acc ! i)"

lemma rate_inv_later: "rate_inv r acc now \<Longrightarrow> now \<le> t \<Longrightarrow> rate_inv r acc t"
  by (fastforce simp: rate_inv_def)

lemma rate_inv_idle: "rate_inv r acc now \<Longrightarrow> idle now r \<Longrightarrow> rate_inv loginRec0 acc now"
  by (auto simp: rate_inv_def idle_def series_def loginRec0_def loginForget_def)

lemma rate_inv_begin:
  assumes inv: "rate_inv r acc now" and ok: "rec_ok r" and b: "begin_step r now = (r', b)"
  shows "rate_inv r' (if b_ok b then now # acc else acc) now"
    and "b_ok b \<Longrightarrow> spaced acc \<Longrightarrow> spaced (now # acc)"
proof -
  define s where "s = series r now"
  define l where "l = (if Until r \<noteq> 0 \<and> now - Until r > 3600 then 0 else Locks r)"
  have s: "0 \<le> s" "s < 5" using ok by (auto simp: s_def series_def rec_ok_def loginMax_def)
  have l: "0 \<le> l" using ok by (simp add: l_def rec_ok_def)
  have past: "a \<le> now" if "a \<in> set acc" for a using inv that by (simp add: rate_inv_def)
  have gap: "acc ! i + 30 \<le> now" if "Until r \<le> now" "i < length acc" "s \<le> int i" for i
    using inv that by (simp add: rate_inv_def s_def)
  have cases: "\<not> b_ok b \<and> r' = r \<or>
      Until r \<le> now \<and> b_ok b \<and>
        (s + 1 \<ge> 5 \<and> Fails r' = 0 \<and> Until r' = now + lock_secs l \<or>
         s + 1 < 5 \<and> Fails r' = s + 1 \<and> Seen r' = now \<and> Until r' = Until r)"
    using b by (auto simp: begin_step_def s_def l_def series_def loginMax_def loginMaxLock_def
        Let_def split: if_splits)
  have d: "30 \<le> lock_secs l" using lock_secs_bounds [OF l] by simp
  show "rate_inv r' (if b_ok b then now # acc else acc) now"
    using cases
  proof (elim disjE conjE)
    assume "\<not> b_ok b" "r' = r" then show ?thesis using inv by simp
  next
    assume h: "b_ok b" "Fails r' = 0" "Until r' = now + lock_secs l"
    have all: "x + 30 \<le> t" if "x \<in> set (now # acc)" "Until r' \<le> t" for x t
      using that past d h by fastforce
    have "(now # acc) ! i + 30 \<le> t" if "i < length (now # acc)" "Until r' \<le> t" for i t
      using all [OF nth_mem] that by blast
    then show ?thesis using h past by (auto simp: rate_inv_def)
  next
    assume h: "Until r \<le> now" "b_ok b" "Fails r' = s + 1" "Seen r' = now"
    have "(now # acc) ! i + 30 \<le> t"
      if t: "now \<le> t" "i < length (now # acc)" "series r' t \<le> int i" for i t
    proof (cases "t - now > loginForget")
      case True
      moreover have "(now # acc) ! i \<le> now" using t(2) past by (cases i) auto
      ultimately show ?thesis by (simp add: loginForget_def)
    next
      case False
      then have "s + 1 \<le> int i" using t(3) h by (simp add: series_def)
      then obtain j where "i = Suc j" "s \<le> int j" using s by (cases i) auto
      then show ?thesis using gap [of j] t h by simp
    qed
    then show ?thesis using h past by (auto simp: rate_inv_def)
  qed
  assume "b_ok b" and sp: "spaced acc"
  then have "Until r \<le> now" using cases by auto
  then have "acc ! i + 30 \<le> now" if "i < length acc" "4 \<le> i" for i
    using gap [of i] that s by simp
  then have "(now # acc) ! (i + 5) + 30 \<le> (now # acc) ! i" if "i + 5 < length (now # acc)" for i
    using sp that unfolding spaced_def by (cases i) (auto simp: add.commute)
  then show "spaced (now # acc)" unfolding spaced_def by blast
qed

lemma loginBegin_IoOk:
  "loginBegin IoOk key t m
   = (fst (loginUpdate IoOk key begin_step t m), snd (begin_step (rec_of m key) t))"
  by (simp add: loginBegin_def loginUpdate_def split: prod.splits)

lemma rate_inv_update:
  assumes ok: "logins_ok m" and inv: "rate_inv x acc now"
    and f: "f (rec_of m key) now = (r, out)" and x: "x = (if k = key then r else rec_of m k)"
    and K: "fst ` set m \<union> {key} \<subseteq> K" "finite K" "card K \<le> loginSources"
  shows "rate_inv (rec_of (fst (loginUpdate IoOk key f now m)) k) acc now"
  using rec_of_update [where f = f and k = k and out = out, OF ok length_store_le [OF ok K, of now r] f]
    inv rate_inv_idle x
  by (auto simp: Let_def)

lemma login_trace_spaced:
  assumes "logins_ok m" "rate_inv (rec_of m k) acc now" "spaced acc"
    and "sorted (now # map ev_time es)" "\<forall>t. Success k t \<notin> set es"
    and "fst ` set m \<union> ev_key ` set es \<subseteq> K" "finite K" "card K \<le> loginSources"
  shows "spaced (snd (login_trace k (m, acc) es))"
  using assms
proof (induction es arbitrary: m acc now)
  case (Cons e es)
  let ?t = "ev_time e" and ?key = "ev_key e"
  have inv: "rate_inv (rec_of m k) acc ?t"
    using Cons.prems(2,4) rate_inv_later by simp
  have sorted: "sorted (?t # map ev_time es)" using Cons.prems(4) by simp
  have K: "fst ` set m \<union> {?key} \<subseteq> K" "finite K" "card K \<le> loginSources"
    using Cons.prems(6-8) by auto
  show ?case
  proof (cases e)
    case (Attempt key t)
    obtain r b where b: "begin_step (rec_of m key) t = (r, b)"
      by (cases "begin_step (rec_of m key) t")
    let ?m = "fst (loginUpdate IoOk key begin_step t m)"
    let ?acc = "if key = k \<and> b_ok b then t # acc else acc"
    have kinv: "rate_inv (if k = key then r else rec_of m k) ?acc t" "spaced ?acc"
      using rate_inv_begin [OF inv [unfolded Attempt] rec_ok_rec_of [OF Cons.prems(1)], of r b]
        b inv Attempt Cons.prems(3) by auto
    have "rate_inv (rec_of ?m k) ?acc t"
      using rate_inv_update [where f = begin_step, OF Cons.prems(1) kinv(1) b] K Attempt by auto
    moreover have "logins_ok ?m"
      using loginBegin_ok [OF Cons.prems(1), of IoOk key t] by (simp add: loginBegin_IoOk)
    moreover have "fst ` set ?m \<union> ev_key ` set es \<subseteq> K"
      using keys_update [OF K(1)] Cons.prems(6) Attempt by auto
    ultimately have "spaced (snd (login_trace k (?m, ?acc) es))"
      using kinv(2) sorted Cons.prems(5,7,8) Attempt by (intro Cons.IH [of ?m ?acc t]) auto
    then show ?thesis using Attempt b by (simp add: loginBegin_IoOk)
  next
    case (Success key t)
    let ?f = "\<lambda>r t. (loginRec0, ())"
    let ?m = "fst (loginUpdate IoOk key ?f t m)"
    have ne: "key \<noteq> k" using Cons.prems(5) Success by auto
    have "rate_inv (rec_of ?m k) acc t"
      using rate_inv_update [of m "rec_of m k" acc t ?f key loginRec0 "()" k K] Cons.prems(1) inv
        K Success ne by auto
    moreover have "logins_ok ?m"
      using loginSucceeded_ok [OF Cons.prems(1), of IoOk key t] by (simp add: loginSucceeded_def)
    moreover have "fst ` set ?m \<union> ev_key ` set es \<subseteq> K"
      using keys_update [OF K(1)] Cons.prems(6) Success by auto
    ultimately have "spaced (snd (login_trace k (?m, acc) es))"
      using Cons.prems(3,5,7,8) sorted Success by (intro Cons.IH [of ?m acc t]) auto
    then show ?thesis using Success by (simp add: loginSucceeded_def)
  qed
qed simp

section \<open>Properties\<close>

text \<open>
  C2 (safety). Whatever sequence of attempts and successes of at most 1024 sources reaches the
  shared file, in time order: of the attempts of a source that never logged in successfully, any
  attempt let through to the password check and the fifth one let through after it are at least
  30 s apart. So a source that guesses gets at most five checks in any 30 s, however it spaces its
  requests and whatever the other sources do.
\<close>

theorem login_rate_bound:
  assumes "sorted (map ev_time es)" and "\<forall>t. Success k t \<notin> set es"
    and "card (ev_key ` set es) \<le> loginSources" and "i + 5 < length (checked_times k es)"
  shows "checked_times k es ! i + 30 \<le> checked_times k es ! (i + 5)"
proof -
  let ?acc = "snd (login_trace k ([], []) es)"
  define now where "now = (case es of [] \<Rightarrow> 0 | e # _ \<Rightarrow> ev_time e)"
  have "sorted (now # map ev_time es)"
    using assms(1) by (cases es) (auto simp: now_def)
  then have sp: "spaced ?acc"
    using assms(2,3)
    by (intro login_trace_spaced [where now = now and K = "ev_key ` set es"])
      (auto simp: logins_ok_def rate_inv_def spaced_def)
  define n where "n = length ?acc"
  have len: "i + 5 < n" using assms(4) by (simp add: checked_times_def n_def)
  have "(n - Suc (i + 5)) + 5 < length ?acc" using len by (simp add: n_def)
  then have "?acc ! ((n - Suc (i + 5)) + 5) + 30 \<le> ?acc ! (n - Suc (i + 5))"
    using sp unfolding spaced_def by blast
  moreover have "(n - Suc (i + 5)) + 5 = n - Suc i" using len by simp
  ultimately show ?thesis
    using len by (simp add: checked_times_def rev_nth n_def)
qed

theorem login_rate_bound_witness:
  "checked_times ''10.0.0.7'' (map (Attempt ''10.0.0.7'') [1, 2, 3, 4, 5, 6, 35]) ! 0 + 30
     \<le> checked_times ''10.0.0.7'' (map (Attempt ''10.0.0.7'') [1, 2, 3, 4, 5, 6, 35]) ! (0 + 5)"
proof (rule login_rate_bound)
  show "0 + 5 < length (checked_times ''10.0.0.7'' (map (Attempt ''10.0.0.7'') [1, 2, 3, 4, 5, 6, 35]))"
    by code_simp
  show "card (ev_key ` set (map (Attempt ''10.0.0.7'') [1, 2, 3, 4, 5, 6, 35])) \<le> loginSources"
    by (simp add: loginSources_def)
qed auto

lemma fifth_failure:
  assumes "logins_ok m" and "length m < loginSources"
    and "Fails (rec_of m key) = 4" and "now - Seen (rec_of m key) \<le> loginForget"
    and "Until (rec_of m key) \<le> now" and "now - Until (rec_of m key) \<le> 3600 \<or> Until (rec_of m key) = 0"
    and "loginBegin IoOk key now m = (m', b)"
    and "secs = min (30 * 2 ^ nat (Locks (rec_of m key))) 3600"
    and "now \<le> t" and "t < now + secs"
  shows "b_ok b \<and> b_fails b = 5 \<and> b_locked b = secs * 1000000000
       \<and> loginWait key t m' = now + secs - t
       \<and> snd (loginBegin IoOk key t m') =
           \<lparr>b_ok = False, b_wait = now + secs - t, b_fails = 0, b_locked = 0\<rparr>
       \<and> rec_of (fst (loginBegin IoOk key t m')) key = rec_of m' key"
proof -
  let ?r = "rec_of m key" and ?K = "fst ` set m \<union> {key}"
  have locks: "0 \<le> Locks ?r" using rec_ok_rec_of [OF assms(1)] by (simp add: rec_ok_def)
  have secs: "lock_secs (Locks ?r) = secs" "30 \<le> secs"
    using lock_secs_eq [OF locks] lock_secs_bounds [OF locks] assms(8) by simp_all
  have dur: "lock_duration (Locks ?r) = secs * 1000000000"
  proof (cases "Locks ?r < 7")
    case True
    then have "nat (Locks ?r) \<in> {0, 1, 2, 3, 4, 5, 6}" using locks by auto
    then show ?thesis using True locks assms(8) by (auto simp: lock_duration_eq)
  next
    case False
    then have "128 \<le> (2 :: int) ^ nat (Locks ?r)" by (intro pow2_ge_128) simp
    then show ?thesis using False locks assms(8) by (simp add: lock_duration_eq loginMaxLock_def)
  qed
  define r where "r = \<lparr>Fails = 0, Until = now + secs, Locks = Locks ?r + 1, Seen = now\<rparr>"
  have step: "begin_step ?r now
      = (r, \<lparr>b_ok = True, b_wait = 0, b_fails = 5, b_locked = secs * 1000000000\<rparr>)"
    using assms(3-6) secs(1) dur
    by (auto simp: begin_step_def loginMax_def loginMaxLock_def Let_def r_def)
  have m': "m' = fst (loginUpdate IoOk key begin_step now m)"
    and b: "b = \<lparr>b_ok = True, b_wait = 0, b_fails = 5, b_locked = secs * 1000000000\<rparr>"
    using assms(7) step by (simp_all add: loginBegin_IoOk)
  have ok': "logins_ok m'" using loginBegin_ok [OF assms(1), of IoOk key now] assms(7) by simp
  have card: "card ?K \<le> loginSources"
    using assms(2) card_length [of "map fst m"] by (auto simp: card_insert_if)
  have rec: "rec_of m' key = r"
    using rec_of_update [where f = begin_step and k = key, OF assms(1)
        length_store_le [OF assms(1), of key ?K now r] step] card secs(2)
    by (simp add: m' idle_def r_def)
  have "map_of m' key = Some r"
    using rec secs(2) by (auto simp: rec_of_def r_def loginRec0_def split: option.splits)
  then have wait: "loginWait key t m' = now + secs - t"
    using assms(10) by (simp add: loginWait_def r_def)
  have step': "begin_step r t = (r, \<lparr>b_ok = False, b_wait = now + secs - t, b_fails = 0, b_locked = 0\<rparr>)"
    using assms(10) by (simp add: begin_step_def r_def)
  have keys: "fst ` set m' \<subseteq> ?K" using keys_update [of m key ?K] by (simp add: m')
  have "rec_of (fst (loginUpdate IoOk key begin_step t m')) key = r"
    using rec_of_update [where f = begin_step and k = key and r = r, OF ok'
        length_store_le [OF ok', of key ?K t r]] step' rec card keys assms(9,10)
    by (simp add: idle_def r_def)
  then show ?thesis using wait b rec step' by (simp add: loginBegin_IoOk)
qed

text \<open>
  The fifth failure in a series (the earlier ones at most 15 minutes apart)
  locks the source for 30 s times two to the number of locks in a row, an hour at most: the 64-bit
  shift never shortens a lock, for any number of locks. Until the lock ends every attempt of the
  source is refused, with the time left, and changes nothing.
\<close>

theorem login_fifth_failure_locks:
  assumes "logins_ok m" and "length m < loginSources"
    and "Fails (rec_of m key) = 4" and "now - Seen (rec_of m key) \<le> loginForget"
    and "Until (rec_of m key) \<le> now" and "now - Until (rec_of m key) \<le> 3600 \<or> Until (rec_of m key) = 0"
    and "loginBegin IoOk key now m = (m', b)"
    and "secs = min (30 * 2 ^ nat (Locks (rec_of m key))) 3600"
    and "now \<le> t" and "t < now + secs"
  shows "b_ok b \<and> b_fails b = 5 \<and> b_locked b = secs * 1000000000
       \<and> loginWait key t m' = now + secs - t
       \<and> snd (loginBegin IoOk key t m') =
           \<lparr>b_ok = False, b_wait = now + secs - t, b_fails = 0, b_locked = 0\<rparr>
       \<and> rec_of (fst (loginBegin IoOk key t m')) key = rec_of m' key"
  by (rule fifth_failure [OF assms])

theorem login_fifth_failure_locks_witness:
  "loginWait ''10.0.0.7'' 20
     (fst (loginBegin IoOk ''10.0.0.7'' 10 [(''10.0.0.7'', \<lparr>Fails = 4, Until = 0, Locks = 2, Seen = 9\<rparr>)]))
   = 10 + 120 - 20"
proof -
  let ?m = "[(''10.0.0.7'', \<lparr>Fails = 4, Until = 0, Locks = 2, Seen = 9\<rparr>)]"
  obtain m' b where mb: "loginBegin IoOk ''10.0.0.7'' 10 ?m = (m', b)"
    by (cases "loginBegin IoOk ''10.0.0.7'' 10 ?m")
  show ?thesis
    using login_fifth_failure_locks [of ?m "''10.0.0.7''" 10 m' b 120 20] mb
    by (simp add: logins_ok_def rec_ok_def loginMax_def loginSources_def loginForget_def rec_of_def)
qed

text \<open>
  C36 (invariant). The shared file stays well-formed whatever the operations do and whatever I/O
  error they meet: one record per source, at most 1024 of them, fewer than five counted failures
  and no negative number of locks (so the shift of the lock length cannot panic).
\<close>

theorem login_file_invariant:
  assumes "logins_ok m"
  shows "logins_ok (fst (loginBegin io key now m))
       \<and> logins_ok (loginSucceeded io key now m)
       \<and> logins_ok (fst (checkPasswordFrom io io' cp key stored pw msg now m))"
  using assms by (simp add: mr_inv)

theorem login_file_invariant_witness:
  "logins_ok [] \<and> logins_ok (fst (loginBegin IoOk ''10.0.0.7'' 10 []))"
proof -
  have h: "logins_ok []" by (simp add: logins_ok_def)
  show ?thesis using h login_file_invariant [OF h, of IoOk "''10.0.0.7''" 10] by blast
qed

text \<open>
  A source locked by the throttle is answered 429 without a password check: neither
  the stored hash nor the password given influences the answer or the records.
\<close>

theorem login_locked_no_check:
  assumes "now < Until (rec_of m key)"
  shows "checkPasswordFrom IoOk io2 cp key stored pw msg now m
       = checkPasswordFrom IoOk io2 cp' key stored' pw' msg' now m
     \<and> fst (snd (checkPasswordFrom IoOk io2 cp key stored pw msg now m))
       = LoginThrottled (Until (rec_of m key) - now)"
  using assms by (simp add: checkPasswordFrom_def loginBegin_IoOk begin_step_def)

theorem login_locked_no_check_witness:
  "fst (snd (checkPasswordFrom IoOk IoOk (\<lambda>_ _. True) ''k'' ''h'' ''right'' ''no'' 5
     [(''k'', \<lparr>Fails = 0, Until = 30, Locks = 1, Seen = 0\<rparr>)])) = LoginThrottled 25"
  using login_locked_no_check [of 5 "[(''k'', \<lparr>Fails = 0, Until = 30, Locks = 1, Seen = 0\<rparr>)]" "''k''"
      IoOk "\<lambda>_ _. True" "''h''" "''right''" "''no''"]
  by (simp add: rec_of_def)

end
