(* ===== verification/Fw_Time.thy ===== *)
theory Fw_Time
  imports Mr_Prelude "HOL-Library.Product_Lexorder" "HOL-Library.Signed_Division"
begin

text \<open>
  Weekly time windows of the firewall: \<open>mr/mod_fw_time.go\<close> and \<open>fwParseWindow\<close> / \<open>fwCheckSchedule\<close> of
  \<open>mr/mod_fw.go\<close>. A schedule of local-time windows is turned into nftables \<open>meta day\<close> /
  \<open>meta hour\<close> matches: converted to UTC, merged, and split at the UTC midnights and at the day
  boundaries of the kernel's own timezone. Go's \<open>/\<close> and \<open>%\<close> truncate towards zero: \<open>sdiv\<close> and
  \<open>smod\<close>.

  The main lemma, \<open>time_exprs_exact\<close>, says that the matches hold at exactly the seconds of the week
  the schedule names, for every timezone offset and every kernel timezone.
\<close>

section \<open>Schedules\<close>

record FwTime =
  Days :: "string list"
  Time :: string

record fwClock =
  LocalOff :: int
  KernelMW :: int

definition fwWeek :: int where "fwWeek = 7 * 86400"

definition fwDayNum :: "(string \<times> int) list" where
  "fwDayNum = [(''sun'', 0), (''mon'', 1), (''tue'', 2), (''wed'', 3), (''thu'', 4), (''fri'', 5), (''sat'', 6)]"

definition fwDayNames :: "string list" where
  "fwDayNames = [''Sunday'', ''Monday'', ''Tuesday'', ''Wednesday'', ''Thursday'', ''Friday'', ''Saturday'']"

definition between :: "char \<Rightarrow> char \<Rightarrow> char \<Rightarrow> bool" where
  "between lo hi c \<longleftrightarrow> lo \<le> c \<and> c \<le> hi"

definition dig :: "char \<Rightarrow> int" where
  "dig c = int (of_char c) - 48"

text \<open>The pattern \<open>([01][0-9]|2[0-3]):([0-5][0-9])-([01][0-9]|2[0-4]):([0-5][0-9])\<close>.\<close>

definition fwParseWindow :: "string \<Rightarrow> (int \<times> int) option" where
  "fwParseWindow s =
     (case s of
        [h1, h2, c1, m1, m2, d, g1, g2, c2, n1, n2] \<Rightarrow>
          if ((between CHR ''0'' CHR ''1'' h1 \<and> between CHR ''0'' CHR ''9'' h2)
              \<or> (h1 = CHR ''2'' \<and> between CHR ''0'' CHR ''3'' h2))
             \<and> c1 = CHR '':'' \<and> between CHR ''0'' CHR ''5'' m1 \<and> between CHR ''0'' CHR ''9'' m2 \<and> d = CHR ''-''
             \<and> ((between CHR ''0'' CHR ''1'' g1 \<and> between CHR ''0'' CHR ''9'' g2)
                \<or> (g1 = CHR ''2'' \<and> between CHR ''0'' CHR ''4'' g2))
             \<and> c2 = CHR '':'' \<and> between CHR ''0'' CHR ''5'' n1 \<and> between CHR ''0'' CHR ''9'' n2
          then (let start = (10 * dig h1 + dig h2) * 3600 + (10 * dig m1 + dig m2) * 60;
                    stop = (10 * dig g1 + dig g2) * 3600 + (10 * dig n1 + dig n2) * 60
                in if stop > 86400 then None else Some (start, stop))
          else None
      | _ \<Rightarrow> None)"

datatype sched_error = SchedTooMany | SchedEmpty nat | SchedBadDay nat string | SchedDupDay nat string
  | SchedBadTime nat string

fun check_days :: "nat \<Rightarrow> string list \<Rightarrow> string list \<Rightarrow> sched_error list" where
  "check_days j seen [] = []"
| "check_days j seen (d # ds) =
     (if map_of fwDayNum d = None then [SchedBadDay j d] else [])
     @ (if d \<in> set seen then [SchedDupDay j d] else []) @ check_days j (d # seen) ds"

definition check_window :: "nat \<Rightarrow> FwTime \<Rightarrow> sched_error list" where
  "check_window j t =
     (if Days t = [] \<and> Time t = [] then [SchedEmpty j] else [])
     @ check_days j [] (Days t)
     @ (if Time t \<noteq> [] then
          (case fwParseWindow (Time t) of
             None \<Rightarrow> [SchedBadTime j (Time t)]
           | Some (s, e) \<Rightarrow> if s = e \<or> (e = 86400 \<and> s = 0) then [SchedBadTime j (Time t)] else [])
        else [])"

definition fwCheckSchedule :: "FwTime list \<Rightarrow> sched_error list" where
  "fwCheckSchedule sch =
     (if length sch > 16 then [SchedTooMany] else [])
     @ concat (map (\<lambda>(j, t). check_window j t) (enumerate 0 sch))"

section \<open>fwTimeMatches\<close>

text \<open>The non-negative remainder as the code writes it: \<open>(x%m + m) % m\<close>.\<close>

definition wrap :: "int \<Rightarrow> int \<Rightarrow> int" where
  "wrap x m = ((x smod m) + m) smod m"

definition week_days :: "int list" where
  "week_days = [0, 1, 2, 3, 4, 5, 6]"

definition win_days :: "FwTime \<Rightarrow> int list" where
  "win_days t =
     (let days = List.map_filter (map_of fwDayNum) (Days t)
      in if days = [] then week_days else days)"

text \<open>Start and end of a window in seconds from its day's midnight; past midnight when it crosses.\<close>

definition win_span :: "FwTime \<Rightarrow> (int \<times> int) option" where
  "win_span t =
     (if Time t = [] then Some (0, 86400)
      else map_option (\<lambda>(s, e). (s, if e \<le> s then e + 86400 else e)) (fwParseWindow (Time t)))"

definition day_ivs :: "int \<Rightarrow> int \<Rightarrow> int \<Rightarrow> int \<Rightarrow> (int \<times> int) list" where
  "day_ivs off s e d =
     (let a = wrap (d * 86400 + s - off) fwWeek; b = a + e - s
      in if b > fwWeek then [(a, fwWeek), (0, b - fwWeek)] else [(a, b)])"

definition win_ivs :: "int \<Rightarrow> FwTime \<Rightarrow> (int \<times> int) list" where
  "win_ivs off t =
     (case win_span t of None \<Rightarrow> [] | Some (s, e) \<Rightarrow> concat (map (day_ivs off s e) (win_days t)))"

text \<open>The union of the sorted intervals; \<open>ms\<close> is \<open>merged\<close>, last element first.\<close>

fun merge_ivs :: "(int \<times> int) list \<Rightarrow> (int \<times> int) list \<Rightarrow> (int \<times> int) list" where
  "merge_ivs ms [] = rev ms"
| "merge_ivs [] (x # xs) = merge_ivs [x] xs"
| "merge_ivs (m # ms) (x # xs) =
     (if fst x \<le> snd m then merge_ivs ((fst m, max (snd m) (snd x)) # ms) xs
      else merge_ivs (x # m # ms) xs)"

definition next_cut :: "int \<Rightarrow> int \<Rightarrow> int \<Rightarrow> int" where
  "next_cut kOff b p =
     (let q = (p sdiv 86400 + 1) * 86400;
          kb = p - wrap (p - kOff) 86400 + 86400;
          q' = (if kb < q then kb else q)
      in if b < q' then b else q')"

definition kday :: "int \<Rightarrow> int \<Rightarrow> int" where
  "kday mw p = wrap (p - mw * 60) fwWeek sdiv 86400"

lemma wrap_mod:
  assumes "0 < m" shows "wrap x m = x mod m"
proof -
  have "0 \<le> (x smod m) + m" using smod_int_range [of m x] assms by simp
  then have "wrap x m = (x smod m) mod m"
    using assms by (simp add: wrap_def smod_mod_positive)
  also have "\<dots> = x mod m"
    by (simp add: signed_modulo_int_eq_modulo_int [of x m] mod_diff_right_eq [of "x mod m" _ m, symmetric])
  finally show ?thesis .
qed

lemma sdiv_next: "(p :: int) < (p sdiv 86400 + 1) * 86400"
proof -
  have "p div 86400 \<le> p sdiv 86400" by (simp add: signed_divide_int_eq_divide_int)
  moreover have "p < (p div 86400 + 1) * 86400"
    using pos_mod_bound [of 86400 p] div_mult_mod_eq [of p 86400] by (simp add: algebra_simps)
  ultimately show ?thesis by simp
qed

lemma next_cut_gt: "p < b \<Longrightarrow> p < next_cut kOff b p"
  using sdiv_next [of p] pos_mod_bound [of 86400 "p - kOff"]
  by (auto simp: next_cut_def Let_def wrap_mod)

text \<open>The loop over one merged interval: the pieces \<open>[p, q)\<close> with their kernel weekday.\<close>

function fw_pieces :: "int \<Rightarrow> int \<Rightarrow> int \<Rightarrow> ((int \<times> int) \<times> int) list" where
  "fw_pieces mw b p =
     (if p < b
      then (let q = next_cut (wrap (mw * 60) 86400) b p
            in ((p smod 86400, (q - 1) smod 86400), kday mw p) # fw_pieces mw b q)
      else [])"
  by pat_completeness auto
termination
  by (relation "measure (\<lambda>(mw, b, p). nat (b - p))") (auto dest: next_cut_gt)

declare fw_pieces.simps [simp del]

text \<open>
  A match expression: the kernel weekdays (\<open>None\<close>: no \<open>meta day\<close>) and the range of UTC seconds
  of the day (\<open>None\<close>: no \<open>meta hour\<close>); \<open>groups\<close> is the relation the source keeps as a map from
  hour ranges to sets of weekdays.
\<close>

datatype time_expr = TimeExpr (e_days: "int list option") (e_hour: "(int \<times> int) option")

definition group_days :: "((int \<times> int) \<times> int) list \<Rightarrow> int \<times> int \<Rightarrow> int list" where
  "group_days groups k = filter (\<lambda>d. (k, d) \<in> set groups) week_days"

definition key_expr :: "((int \<times> int) \<times> int) list \<Rightarrow> int \<times> int \<Rightarrow> time_expr" where
  "key_expr groups k =
     TimeExpr (let ds = group_days groups k in if length ds < 7 then Some ds else None)
              (if k = (0, 86399) then None else Some k)"

definition fw_merged :: "FwTime list \<Rightarrow> fwClock \<Rightarrow> (int \<times> int) list" where
  "fw_merged sch clk = merge_ivs [] (sort_key fst (concat (map (win_ivs (LocalOff clk)) sch)))"

definition fw_groups :: "(int \<times> int) list \<Rightarrow> fwClock \<Rightarrow> ((int \<times> int) \<times> int) list" where
  "fw_groups merged clk = concat (map (\<lambda>(a, b). fw_pieces (KernelMW clk) b a) merged)"

text \<open>An empty expression is returned alone: the windows then cover the whole week.\<close>

definition fw_time_exprs :: "FwTime list \<Rightarrow> fwClock \<Rightarrow> time_expr list" where
  "fw_time_exprs sch clk =
     (if sch = [] then [TimeExpr None None]
      else (let merged = fw_merged sch clk
            in if merged = [(0, fwWeek)] then [TimeExpr None None]
               else (let groups = fw_groups merged clk;
                         es = map (key_expr groups) (sort (remdups (map fst groups)))
                     in if TimeExpr None None \<in> set es then [TimeExpr None None] else es)))"

definition nft_time :: "time_expr \<Rightarrow> string" where
  "nft_time e =
     Join ((case e_days e of None \<Rightarrow> []
            | Some ds \<Rightarrow> [''meta day { '' @ Join (map (\<lambda>d. fwDayNames ! nat d) ds) '', '' @ '' }''])
           @ (case e_hour e of None \<Rightarrow> []
              | Some (a, b) \<Rightarrow> if a = b then [''meta hour '' @ Itoa a]
                               else [''meta hour '' @ Itoa a @ ''-'' @ Itoa b])) '' ''"

definition fwTimeMatches :: "FwTime list \<Rightarrow> fwClock \<Rightarrow> string list" where
  "fwTimeMatches sch clk = map nft_time (fw_time_exprs sch clk)"

section \<open>What a schedule means\<close>

text \<open>
  \<open>u\<close>: seconds of local time since Sunday 00:00. A window covers \<open>e - s\<close> seconds from second \<open>s\<close>
  of each of its days, into the next day (and from Saturday into Sunday) when it crosses midnight.
\<close>

definition win_active :: "FwTime \<Rightarrow> int \<Rightarrow> bool" where
  "win_active w u \<longleftrightarrow>
     (case win_span w of None \<Rightarrow> False
      | Some (s, e) \<Rightarrow> \<exists>d \<in> set (win_days w). (u - (d * 86400 + s)) mod fwWeek < e - s)"

definition sched_active :: "FwTime list \<Rightarrow> int \<Rightarrow> bool" where
  "sched_active sch u \<longleftrightarrow> sch = [] \<or> (\<exists>w \<in> set sch. win_active w u)"

text \<open>What the kernel does with a match at UTC second of the day \<open>h\<close> on its weekday \<open>d\<close>.\<close>

definition time_holds :: "time_expr \<Rightarrow> int \<Rightarrow> int \<Rightarrow> bool" where
  "time_holds e h d \<longleftrightarrow>
     (case e_days e of None \<Rightarrow> True | Some ds \<Rightarrow> d \<in> set ds)
     \<and> (case e_hour e of None \<Rightarrow> True | Some (a, b) \<Rightarrow> a \<le> h \<and> h \<le> b)"

definition kernel_day :: "int \<Rightarrow> int \<Rightarrow> int" where
  "kernel_day mw t = (t - mw * 60) mod fwWeek div 86400"

definition cov :: "int \<Rightarrow> (int \<times> int) list \<Rightarrow> bool" where
  "cov t ivs \<longleftrightarrow> (\<exists>(a, b) \<in> set ivs. a \<le> t \<and> t < b)"

lemma cov_simps [simp]:
  "\<not> cov t []" "cov t (x # xs) \<longleftrightarrow> (fst x \<le> t \<and> t < snd x) \<or> cov t xs"
  "cov t (xs @ ys) \<longleftrightarrow> cov t xs \<or> cov t ys"
  by (auto simp: cov_def)

lemma fwWeek_pos [simp]: "0 < fwWeek"
  by (simp add: fwWeek_def)

lemma sdiv_nonneg: "0 \<le> (x :: int) \<Longrightarrow> x sdiv 86400 = x div 86400"
  by (cases "x = 0") (simp_all add: signed_divide_int_def)

lemma kday_eq: "kday mw p = kernel_day mw p"
  by (simp add: kday_def kernel_day_def wrap_mod sdiv_nonneg)

section \<open>From local windows to UTC intervals\<close>

lemma dig_between: "between CHR ''0'' hi c \<Longrightarrow> 0 \<le> dig c \<and> dig c \<le> dig hi"
  by (auto simp: between_def dig_def less_eq_char_def)

lemma dig_values [simp]:
  "dig CHR ''1'' = 1" "dig CHR ''2'' = 2" "dig CHR ''3'' = 3" "dig CHR ''4'' = 4"
  "dig CHR ''5'' = 5" "dig CHR ''9'' = 9"
  by (simp_all add: dig_def)

lemma fwParseWindow_range:
  assumes "fwParseWindow w = Some (s, e)"
  shows "0 \<le> s \<and> s < 86400 \<and> 0 \<le> e \<and> e \<le> 86400"
  using assms unfolding fwParseWindow_def
  by (auto split: list.splits if_splits simp: Let_def dest!: dig_between)

lemma win_span_range:
  assumes "win_span w = Some (s, e)"
  shows "0 \<le> s \<and> s < 86400 \<and> 0 < e - s \<and> e - s \<le> 86400"
  using assms fwParseWindow_range by (fastforce simp: win_span_def split: if_splits)

lemma mod_week_cases:
  assumes "0 \<le> t" "t < fwWeek" "0 \<le> a" "a < fwWeek"
  shows "(t - a) mod fwWeek = (if a \<le> t then t - a else t - a + fwWeek)"
  using assms mod_pos_pos_trivial [of "t - a" fwWeek] mod_pos_pos_trivial [of "t - a + fwWeek" fwWeek]
  by auto

lemma cov_day_ivs:
  assumes "0 \<le> t" "t < fwWeek" "0 < e - s" "e - s \<le> 86400"
  shows "cov t (day_ivs off s e d) \<longleftrightarrow> ((t + off) - (d * 86400 + s)) mod fwWeek < e - s"
proof -
  define a where "a = (d * 86400 + s - off) mod fwWeek"
  have a: "0 \<le> a" "a < fwWeek" by (simp_all add: a_def fwWeek_def)
  have "((t + off) - (d * 86400 + s)) mod fwWeek = (t - a) mod fwWeek"
    unfolding a_def by (simp add: mod_diff_right_eq algebra_simps)
  moreover have "wrap (d * 86400 + s - off) fwWeek = a" by (simp add: wrap_mod a_def)
  ultimately show ?thesis
    using assms a mod_week_cases [OF assms(1,2) a]
    by (auto simp: day_ivs_def Let_def fwWeek_def)
qed

lemma day_ivs_range:
  assumes "x \<in> set (day_ivs off s e d)" "0 < e - s" "e - s \<le> 86400"
  shows "0 \<le> fst x \<and> fst x < snd x \<and> snd x \<le> fwWeek"
  using assms pos_mod_bound [of fwWeek "d * 86400 + s - off"] pos_mod_sign [of fwWeek "d * 86400 + s - off"]
  by (auto simp: day_ivs_def Let_def wrap_mod fwWeek_def split: if_splits)

lemma cov_win_ivs:
  assumes "0 \<le> t" "t < fwWeek"
  shows "cov t (win_ivs off w) \<longleftrightarrow> win_active w (t + off)"
proof (cases "win_span w")
  case (Some se)
  obtain s e where se: "se = (s, e)" by (cases se)
  have r: "0 < e - s" "e - s \<le> 86400" using win_span_range Some se by auto
  have "cov t (concat (map (day_ivs off s e) ds))
      \<longleftrightarrow> (\<exists>d \<in> set ds. ((t + off) - (d * 86400 + s)) mod fwWeek < e - s)" for ds
    by (induction ds) (auto simp: cov_day_ivs [OF assms r])
  then show ?thesis using Some se by (simp add: win_ivs_def win_active_def)
qed (simp add: win_ivs_def win_active_def)

lemma cov_concat: "cov t (concat (map f xs)) \<longleftrightarrow> (\<exists>x \<in> set xs. cov t (f x))"
  by (induction xs) auto

lemma win_ivs_range:
  assumes "x \<in> set (win_ivs off w)"
  shows "0 \<le> fst x \<and> fst x < snd x \<and> snd x \<le> fwWeek"
proof -
  obtain s e d where h: "win_span w = Some (s, e)" "x \<in> set (day_ivs off s e d)"
    using assms unfolding win_ivs_def by (cases "win_span w") auto
  then show ?thesis using day_ivs_range [OF h(2)] win_span_range [OF h(1)] by blast
qed

section \<open>The union of the intervals\<close>

definition ivs_ok :: "(int \<times> int) list \<Rightarrow> bool" where
  "ivs_ok xs \<longleftrightarrow> (\<forall>x \<in> set xs. 0 \<le> fst x \<and> fst x < snd x \<and> snd x \<le> fwWeek)"

lemma cov_merge_ivs:
  assumes "sorted (map fst xs)" "ms \<noteq> [] \<Longrightarrow> \<forall>x \<in> set xs. fst (hd ms) \<le> fst x"
  shows "cov t (merge_ivs ms xs) \<longleftrightarrow> cov t ms \<or> cov t xs"
  using assms
proof (induction ms xs rule: merge_ivs.induct)
  case (1 ms)
  then show ?case by (simp add: cov_def)
next
  case (2 x xs)
  then show ?case by auto
next
  case (3 m ms x xs)
  then show ?case by auto
qed

lemma merge_ivs_ok: "ivs_ok ms \<Longrightarrow> ivs_ok xs \<Longrightarrow> ivs_ok (merge_ivs ms xs)"
proof (induction ms xs rule: merge_ivs.induct)
  case (1 ms)
  then show ?case by (simp add: ivs_ok_def)
next
  case (2 x xs)
  from "2.prems" have "ivs_ok [x]" "ivs_ok xs" by (auto simp: ivs_ok_def)
  then show ?case using "2.IH" by simp
next
  case (3 m ms x xs)
  from "3.prems" have "ivs_ok ((fst m, max (snd m) (snd x)) # ms)" "ivs_ok (x # m # ms)" "ivs_ok xs"
    by (auto simp: ivs_ok_def less_max_iff_disj)
  then show ?case using "3.IH" by simp
qed

lemma cov_fw_merged:
  assumes "0 \<le> t" "t < fwWeek"
  shows "cov t (fw_merged sch clk) \<longleftrightarrow> (\<exists>w \<in> set sch. win_active w (t + LocalOff clk))"
proof -
  let ?ivs = "concat (map (win_ivs (LocalOff clk)) sch)"
  have "cov t (fw_merged sch clk) \<longleftrightarrow> cov t (sort_key fst ?ivs)"
    unfolding fw_merged_def by (subst cov_merge_ivs) auto
  also have "\<dots> \<longleftrightarrow> cov t ?ivs" by (simp add: cov_def)
  finally show ?thesis using cov_win_ivs [OF assms] by (simp add: cov_concat)
qed

lemma fw_merged_ok: "ivs_ok (fw_merged sch clk)"
  unfolding fw_merged_def
  by (rule merge_ivs_ok) (auto simp: ivs_ok_def dest: win_ivs_range)

section \<open>Cutting at the day boundaries\<close>

text \<open>One piece of an interval: it lies within one UTC day and within one kernel day.\<close>

lemma next_cut_le: "next_cut kOff b p \<le> b"
  by (simp add: next_cut_def Let_def)

lemma next_cut_midnight:
  assumes "0 \<le> p" shows "next_cut kOff b p \<le> (p div 86400 + 1) * 86400"
  by (simp add: next_cut_def Let_def sdiv_nonneg [OF assms])

lemma next_cut_kernel: "next_cut (wrap (mw * 60) 86400) b p \<le> p - (p - mw * 60) mod 86400 + 86400"
  by (auto simp: next_cut_def Let_def wrap_mod mod_diff_right_eq)

lemma same_block:
  assumes "(p :: int) \<le> t" "t < p - p mod 86400 + 86400"
  shows "t div 86400 = p div 86400"
proof (rule int_div_pos_eq [of _ _ _ "t - 86400 * (p div 86400)"])
  have "86400 * (p div 86400) = p - p mod 86400" by (rule minus_mod_eq_mult_div [symmetric])
  then show "0 \<le> t - 86400 * (p div 86400)" "t - 86400 * (p div 86400) < 86400"
    using assms pos_mod_sign [of 86400 p] by linarith+
qed simp

lemma kernel_day_div: "kernel_day mw t = (t - mw * 60) div 86400 mod 7"
proof -
  have "x mod (86400 * 7) div 86400 = x div 86400 mod 7" for x :: int
    by (subst zmod_zmult2_eq) simp_all
  then show ?thesis by (simp add: kernel_day_def fwWeek_def)
qed

lemma piece_block:
  assumes "0 \<le> p" "p \<le> t" "t < next_cut (wrap (mw * 60) 86400) b p"
  shows "t div 86400 = p div 86400" and "kernel_day mw t = kernel_day mw p"
proof -
  show "t div 86400 = p div 86400"
    using assms next_cut_midnight [OF assms(1), of "wrap (mw * 60) 86400" b]
    by (intro same_block) (simp_all add: minus_mod_eq_div_mult algebra_simps)
  define c where "c = mw * 60"
  have "t < p - (p - c) mod 86400 + 86400"
    using next_cut_kernel [of mw b p] assms(3) by (simp add: c_def)
  then have "(t - c) div 86400 = (p - c) div 86400"
    using assms(2) by (intro same_block) auto
  then show "kernel_day mw t = kernel_day mw p"
    by (simp add: kernel_day_div c_def)
qed

text \<open>A second of the week is determined by its UTC second of the day and its kernel weekday.\<close>

lemma second_unique:
  assumes "0 \<le> t" "t < fwWeek" "0 \<le> t'" "t' < fwWeek"
    and "t mod 86400 = t' mod 86400" "kernel_day mw t = kernel_day mw t'"
  shows "t = t'"
proof -
  define x where "x = (t - mw * 60) mod fwWeek"
  define y where "y = (t' - mw * 60) mod fwWeek"
  have "x mod 86400 = (t - mw * 60) mod 86400" "y mod 86400 = (t' - mw * 60) mod 86400"
    by (simp_all add: x_def y_def fwWeek_def mod_mod_cancel)
  then have "x mod 86400 = y mod 86400" using assms(5) by (metis mod_diff_left_eq)
  moreover have "x div 86400 = y div 86400" using assms(6) by (simp add: kernel_day_def x_def y_def)
  ultimately have "x = y" by (metis div_mult_mod_eq)
  then have "t mod fwWeek = t' mod fwWeek"
    unfolding x_def y_def by (metis mod_add_left_eq diff_add_cancel)
  then show ?thesis using assms by simp
qed

text \<open>Piece \<open>(k, d)\<close> covers second \<open>t\<close>.\<close>

definition piece_at :: "int \<Rightarrow> int \<Rightarrow> (int \<times> int) \<times> int \<Rightarrow> bool" where
  "piece_at mw t kd \<longleftrightarrow>
     fst (fst kd) \<le> t mod 86400 \<and> t mod 86400 \<le> snd (fst kd) \<and> snd kd = kernel_day mw t"

lemma piece_at_first:
  assumes "0 \<le> p" "p < b" "b \<le> fwWeek" "0 \<le> t" "t < fwWeek"
    and q: "q = next_cut (wrap (mw * 60) 86400) b p"
  shows "piece_at mw t ((p smod 86400, (q - 1) smod 86400), kday mw p) \<longleftrightarrow> p \<le> t \<and> t < q"
proof -
  define D where "D = p div 86400 * 86400"
  have pq: "p < q" "q \<le> b" using next_cut_gt next_cut_le assms(2) q by auto
  have blk: "x div 86400 = p div 86400 \<and> kernel_day mw x = kernel_day mw p" if "p \<le> x" "x < q" for x
    using piece_block [OF assms(1) that(1)] that(2) q by simp
  have md: "x mod 86400 = x - D" if "p \<le> x" "x < q" for x
    using blk [OF that] minus_div_mult_eq_mod [of x 86400] by (simp add: D_def)
  have sm: "p smod 86400 = p - D" "(q - 1) smod 86400 = q - 1 - D"
    using assms(1) pq md [of p] md [of "q - 1"] by (simp_all add: smod_mod_positive)
  show ?thesis
  proof
    assume "p \<le> t \<and> t < q"
    then show "piece_at mw t ((p smod 86400, (q - 1) smod 86400), kday mw p)"
      using blk [of t] md [of t] sm by (simp add: piece_at_def kday_eq)
  next
    assume at: "piece_at mw t ((p smod 86400, (q - 1) smod 86400), kday mw p)"
    define t' where "t' = D + t mod 86400"
    have t': "p \<le> t'" "t' < q" using at sm by (auto simp: piece_at_def t'_def)
    have "t mod 86400 = t' mod 86400" by (simp add: t'_def D_def)
    moreover have "kernel_day mw t = kernel_day mw t'"
      using at blk [OF t'] by (simp add: piece_at_def kday_eq)
    ultimately have "t = t'"
      using assms(1,3-5) t' pq by (intro second_unique [of t t' mw]) auto
    then show "p \<le> t \<and> t < q" using t' by simp
  qed
qed

lemma pieces_exact:
  assumes "0 \<le> p" "b \<le> fwWeek" "0 \<le> t" "t < fwWeek"
  shows "(\<exists>kd \<in> set (fw_pieces mw b p). piece_at mw t kd) \<longleftrightarrow> p \<le> t \<and> t < b"
  using assms
proof (induction mw b p rule: fw_pieces.induct)
  case (1 mw b p)
  show ?case
  proof (cases "p < b")
    case True
    define q where "q = next_cut (wrap (mw * 60) 86400) b p"
    have pq: "p < q" "q \<le> b" using next_cut_gt [OF True] next_cut_le by (auto simp: q_def)
    have "(\<exists>kd \<in> set (fw_pieces mw b q). piece_at mw t kd) \<longleftrightarrow> q \<le> t \<and> t < b"
      using "1.IH" [OF True q_def] "1.prems" pq by simp
    then show ?thesis
      using True "1.prems" pq piece_at_first [OF _ True _ _ _ q_def, of t]
      by (auto simp: fw_pieces.simps [of mw b p] q_def [symmetric] Let_def)
  qed (simp add: fw_pieces.simps [of mw b p])
qed

lemma groups_exact:
  assumes "ivs_ok ivs" "0 \<le> t" "t < fwWeek"
  shows "(\<exists>kd \<in> set (fw_groups ivs clk). piece_at (KernelMW clk) t kd) \<longleftrightarrow> cov t ivs"
  using assms(1)
proof (induction ivs)
  case (Cons x xs)
  then have "(\<exists>kd \<in> set (fw_pieces (KernelMW clk) (snd x) (fst x)). piece_at (KernelMW clk) t kd)
      \<longleftrightarrow> fst x \<le> t \<and> t < snd x"
    using assms by (intro pieces_exact) (auto simp: ivs_ok_def)
  moreover have "fw_groups (x # xs) clk = fw_pieces (KernelMW clk) (snd x) (fst x) @ fw_groups xs clk"
    by (cases x) (simp add: fw_groups_def)
  ultimately show ?case using Cons by (simp add: bex_Un ivs_ok_def)
qed (simp add: fw_groups_def)

section \<open>The match expressions\<close>

lemma kernel_day_range: "kernel_day mw t \<in> set week_days"
proof -
  have "0 \<le> kernel_day mw t" "kernel_day mw t < 7" by (simp_all add: kernel_day_div)
  then show ?thesis by (auto simp: week_days_def)
qed

lemma group_days_mem: "d \<in> set week_days \<Longrightarrow> d \<in> set (group_days g k) \<longleftrightarrow> (k, d) \<in> set g"
  by (simp add: group_days_def)

lemma group_days_all:
  assumes "\<not> length (group_days g k) < 7" "d \<in> set week_days"
  shows "d \<in> set (group_days g k)"
proof -
  have "length week_days = 7" by (simp add: week_days_def)
  then have "\<not> length (filter (\<lambda>d. (k, d) \<in> set g) week_days) < length week_days"
    using assms(1) by (simp add: group_days_def)
  then have "\<forall>d \<in> set week_days. (k, d) \<in> set g" by (metis length_filter_less)
  then show ?thesis using assms(2) by (simp add: group_days_def)
qed

lemma key_expr_holds:
  assumes "0 \<le> t"
  shows "time_holds (key_expr g k) (t mod 86400) (kernel_day mw t)
       \<longleftrightarrow> (\<exists>kd \<in> set g. fst kd = k \<and> piece_at mw t kd)"
proof -
  let ?d = "kernel_day mw t"
  have day: "(case e_days (key_expr g k) of None \<Rightarrow> True | Some ds \<Rightarrow> ?d \<in> set ds) \<longleftrightarrow> (k, ?d) \<in> set g"
    using group_days_mem [OF kernel_day_range, of mw t g k]
      group_days_all [OF _ kernel_day_range, of g k mw t]
    by (cases "length (group_days g k) < 7") (simp_all add: key_expr_def)
  have "0 \<le> t mod 86400 \<and> t mod 86400 \<le> 86399" using pos_mod_bound [of 86400 t] by simp
  then have hour: "(case e_hour (key_expr g k) of None \<Rightarrow> True | Some (a, b) \<Rightarrow> a \<le> t mod 86400 \<and> t mod 86400 \<le> b)
      \<longleftrightarrow> fst k \<le> t mod 86400 \<and> t mod 86400 \<le> snd k"
    by (auto simp: key_expr_def)
  show ?thesis
    unfolding time_holds_def day hour by (force simp: piece_at_def)
qed

lemma time_exprs_exact:
  assumes "0 \<le> t" "t < fwWeek"
  shows "(\<exists>e \<in> set (fw_time_exprs sch clk). time_holds e (t mod 86400) (kernel_day (KernelMW clk) t))
       \<longleftrightarrow> sched_active sch (t + LocalOff clk)"
proof -
  let ?m = "fw_merged sch clk" and ?h = "t mod 86400" and ?d = "kernel_day (KernelMW clk) t"
  let ?g = "fw_groups ?m clk"
  let ?es = "map (key_expr ?g) (sort (remdups (map fst ?g)))"
  have cov: "cov t ?m \<longleftrightarrow> (\<exists>w \<in> set sch. win_active w (t + LocalOff clk))"
    by (rule cov_fw_merged [OF assms])
  have "(\<exists>e \<in> set ?es. time_holds e ?h ?d) \<longleftrightarrow> (\<exists>kd \<in> set ?g. piece_at (KernelMW clk) t kd)"
    using key_expr_holds [OF assms(1), of ?g _ "KernelMW clk"] by auto
  then have es: "(\<exists>e \<in> set ?es. time_holds e ?h ?d) \<longleftrightarrow> cov t ?m"
    using groups_exact [OF fw_merged_ok assms] by simp
  have all: "time_holds (TimeExpr None None) ?h ?d" by (simp add: time_holds_def)
  have full: "?m = [(0, fwWeek)] \<Longrightarrow> cov t ?m" using assms by simp
  show ?thesis
    using es all full cov by (auto simp: fw_time_exprs_def Let_def sched_active_def simp del: set_map)
qed

section \<open>Validated schedules\<close>

lemma check_days_known: "check_days j seen ds = [] \<Longrightarrow> d \<in> set ds \<Longrightarrow> map_of fwDayNum d \<noteq> None"
  by (induction ds arbitrary: seen) (auto split: if_splits)

lemma map_filter_all: "(\<forall>x \<in> set xs. f x \<noteq> None) \<Longrightarrow> length (List.map_filter f xs) = length xs"
  by (induction xs) (auto simp: List.map_filter_simps)

lemma check_window_span:
  assumes "check_window j w = []"
  shows "\<exists>s e. win_span w = Some (s, e)" and "Days w \<noteq> [] \<Longrightarrow> length (win_days w) = length (Days w)"
proof -
  show "\<exists>s e. win_span w = Some (s, e)"
    using assms by (auto simp: check_window_def win_span_def split: if_splits option.splits)
  assume ne: "Days w \<noteq> []"
  have "\<forall>d \<in> set (Days w). map_of fwDayNum d \<noteq> None"
    using assms check_days_known by (auto simp: check_window_def)
  then have "length (List.map_filter (map_of fwDayNum) (Days w)) = length (Days w)"
    by (rule map_filter_all)
  then show "length (win_days w) = length (Days w)" using ne by (auto simp: win_days_def Let_def)
qed

lemma fwCheckSchedule_window:
  assumes "fwCheckSchedule sch = []" "w \<in> set sch"
  shows "\<exists>j. check_window j w = []"
proof -
  obtain j where "j < length sch" "w = sch ! j" using assms(2) by (metis in_set_conv_nth)
  then have "(j, w) \<in> set (enumerate 0 sch)" by (force simp: in_set_enumerate_eq)
  then show ?thesis using assms(1) by (auto simp: fwCheckSchedule_def)
qed

lemma win_active_exists:
  assumes "win_span w = Some (s, e)" shows "\<exists>t. 0 \<le> t \<and> t < fwWeek \<and> win_active w (t + off)"
proof -
  obtain d where d: "d \<in> set (win_days w)"
    by (cases "win_days w") (auto simp: win_days_def Let_def week_days_def split: if_splits)
  define t where "t = (d * 86400 + s - off) mod fwWeek"
  have "(t + off - (d * 86400 + s)) mod fwWeek
      = ((d * 86400 + s - off) mod fwWeek + (off - (d * 86400 + s))) mod fwWeek"
    by (simp only: t_def add_diff_eq)
  also have "\<dots> = 0" by (subst mod_add_left_eq) simp
  finally have "(t + off - (d * 86400 + s)) mod fwWeek = 0" .
  then have "(t + off - (d * 86400 + s)) mod fwWeek < e - s" using win_span_range [OF assms] by linarith
  then have "win_active w (t + off)" using d assms by (auto simp: win_active_def)
  then show ?thesis by (intro exI [of _ t]) (simp add: t_def)
qed

section \<open>Properties\<close>

text \<open>
  C28 (equivalence). The nftables expressions a schedule is rendered to hold, at UTC second \<open>t\<close>
  of the week, exactly when one of its windows covers the local time then: for every offset of
  local time (east or west of UTC, a window crossing midnight or the end of the week included) and
  every kernel timezone, which shifts what \<open>meta day\<close> calls a day.
\<close>

theorem fw_time_matches_exact:
  assumes "0 \<le> t" and "t < fwWeek"
  shows "fwTimeMatches sch clk = map nft_time (fw_time_exprs sch clk)
       \<and> ((\<exists>e \<in> set (fw_time_exprs sch clk).
              time_holds e (t mod 86400) (kernel_day (KernelMW clk) t))
          \<longleftrightarrow> sched_active sch (t + LocalOff clk))"
  using time_exprs_exact [OF assms] by (simp add: fwTimeMatches_def)

theorem fw_time_matches_exact_witness:
  "sched_active [\<lparr>Days = [''mon''], Time = ''22:00-06:00''\<rparr>] (144000 + 25200)
   \<and> (\<exists>e \<in> set (fw_time_exprs [\<lparr>Days = [''mon''], Time = ''22:00-06:00''\<rparr>]
          \<lparr>LocalOff = 25200, KernelMW = 0\<rparr>). time_holds e (144000 mod 86400) (kernel_day 0 144000))"
proof -
  have a: "sched_active [\<lparr>Days = [''mon''], Time = ''22:00-06:00''\<rparr>] (144000 + 25200)"
    by code_simp
  show ?thesis
    using a fw_time_matches_exact [of 144000 "[\<lparr>Days = [''mon''], Time = ''22:00-06:00''\<rparr>]"
        "\<lparr>LocalOff = 25200, KernelMW = 0\<rparr>"] by (simp add: fwWeek_def)
qed

text \<open>
  No window of a schedule that passes validation is dropped by the rendering: each has
  a time span, each of its days is known, and at least one expression comes out, so a rule with a
  valid schedule is always emitted.
\<close>

theorem fw_schedule_never_dropped:
  assumes "fwCheckSchedule sch = []"
  shows "fwTimeMatches sch clk \<noteq> []
       \<and> (\<forall>w \<in> set sch. (\<exists>s e. win_span w = Some (s, e))
            \<and> (Days w \<noteq> [] \<longrightarrow> length (win_days w) = length (Days w)))"
proof -
  have w: "(\<exists>s e. win_span w = Some (s, e)) \<and> (Days w \<noteq> [] \<longrightarrow> length (win_days w) = length (Days w))"
    if "w \<in> set sch" for w
    using fwCheckSchedule_window [OF assms that] check_window_span by blast
  have "fw_time_exprs sch clk \<noteq> []"
  proof (cases sch)
    case (Cons x xs)
    then obtain s e where "win_span x = Some (s, e)" using w by force
    then obtain t where t: "0 \<le> t" "t < fwWeek" "win_active x (t + LocalOff clk)"
      using win_active_exists by blast
    then have "sched_active sch (t + LocalOff clk)" using Cons by (auto simp: sched_active_def)
    then have "\<exists>e \<in> set (fw_time_exprs sch clk). time_holds e (t mod 86400) (kernel_day (KernelMW clk) t)"
      using time_exprs_exact [OF t(1,2)] by simp
    then show ?thesis by auto
  qed (simp add: fw_time_exprs_def)
  then show ?thesis using w by (simp add: fwTimeMatches_def)
qed

theorem fw_schedule_never_dropped_witness:
  "fwCheckSchedule [\<lparr>Days = [''sat'', ''sun''], Time = ''23:30-01:00''\<rparr>] = []
   \<and> fwTimeMatches [\<lparr>Days = [''sat'', ''sun''], Time = ''23:30-01:00''\<rparr>]
       \<lparr>LocalOff = 3600, KernelMW = -60\<rparr> \<noteq> []"
proof -
  have a: "fwCheckSchedule [\<lparr>Days = [''sat'', ''sun''], Time = ''23:30-01:00''\<rparr>] = []" by code_simp
  show ?thesis using a fw_schedule_never_dropped [OF a] by blast
qed

section \<open>The loop over an interval\<close>

text \<open>The cuts after \<open>p\<close> and before \<open>b\<close>: midnights in UTC and midnights of the kernel's day.\<close>

definition cuts :: "int \<Rightarrow> int \<Rightarrow> int \<Rightarrow> int" where
  "cuts k b p = ((b - 1) div 86400 - p div 86400) + ((b - 1 - k) div 86400 - (p - k) div 86400)"

lemma cuts_drop:
  assumes "0 \<le> p" "p < b" "q = next_cut k b p" "q < b"
  shows "cuts k b q < cuts k b p"
proof -
  have pq: "p < q" using next_cut_gt [OF assms(2)] assms(3) by simp
  have "q = (p div 86400 + 1) * 86400 \<or> q = p - (p - k) mod 86400 + 86400"
    using assms(3,4) unfolding next_cut_def Let_def sdiv_nonneg [OF assms(1)] by (auto simp: wrap_mod split: if_splits)
  then have "p div 86400 < q div 86400 \<or> (p - k) div 86400 < (q - k) div 86400"
  proof
    assume "q = p - (p - k) mod 86400 + 86400"
    then have "q - k = ((p - k) div 86400 + 1) * 86400" using minus_mod_eq_mult_div [of "p - k" 86400] by simp
    then show ?thesis by simp
  qed simp
  moreover have "p div 86400 \<le> q div 86400" "(p - k) div 86400 \<le> (q - k) div 86400" using pq by (auto intro: zdiv_mono1)
  ultimately show ?thesis unfolding cuts_def by linarith
qed

lemma cuts_nonneg: "p < b \<Longrightarrow> 0 \<le> cuts k b p"
  using zdiv_mono1 [of p "b - 1" 86400] zdiv_mono1 [of "p - k" "b - 1 - k" 86400] by (simp add: cuts_def)

lemma pieces_cuts: "0 \<le> p \<Longrightarrow> p < b \<Longrightarrow> int (length (fw_pieces mw b p)) \<le> cuts (wrap (mw * 60) 86400) b p + 1"
proof (induction mw b p rule: fw_pieces.induct)
  case (1 mw b p)
  let ?k = "wrap (mw * 60) 86400"
  define q where "q = next_cut ?k b p"
  have pq: "p < q" using next_cut_gt [OF 1(3)] by (simp add: q_def)
  have len: "length (fw_pieces mw b p) = Suc (length (fw_pieces mw b q))"
    using 1(3) by (simp add: fw_pieces.simps [of mw b p] q_def Let_def)
  show ?case
  proof (cases "q < b")
    case True
    have "int (length (fw_pieces mw b q)) \<le> cuts ?k b q + 1" using 1(1) [OF 1(3) q_def] True pq 1(2) by simp
    then show ?thesis using cuts_drop [OF 1(2,3) q_def True] len by linarith
  next
    case False
    then have "fw_pieces mw b q = []" by (simp add: fw_pieces.simps [of mw b q])
    then show ?thesis using cuts_nonneg [OF 1(3), of ?k] len by simp
  qed
qed

text \<open>
  C29. The loop that cuts an interval of the week at midnights ends, after at most fourteen rounds: each round reaches the
  end of the interval, a midnight in UTC, of which a week has six inside it, or a midnight of the kernel's day, of which it
  has at most seven, whatever timezone the kernel is set to. So a schedule never renders more than fourteen pieces for an
  interval.
\<close>

theorem fw_pieces_end:
  assumes "0 \<le> p" "b \<le> fwWeek"
  shows "length (fw_pieces mw b p) \<le> 14"
proof (cases "p < b")
  case True
  let ?k = "wrap (mw * 60) 86400"
  have k: "0 \<le> ?k" "?k < 86400" by (simp_all add: wrap_mod)
  have "(b - 1) div 86400 \<le> 6" "(b - 1 - ?k) div 86400 \<le> 6"
    using assms(2) k zdiv_mono1 [of "b - 1" "604799" 86400] zdiv_mono1 [of "b - 1 - ?k" "604799" 86400] by (simp_all add: fwWeek_def)
  moreover have "0 \<le> p div 86400" "-1 \<le> (p - ?k) div 86400"
    using assms(1) k zdiv_mono1 [of "-86400" "p - ?k" 86400] by (simp_all add: pos_imp_zdiv_nonneg_iff)
  ultimately have "cuts ?k b p \<le> 13" unfolding cuts_def by linarith
  then show ?thesis using pieces_cuts [OF assms(1) True, of mw] by linarith
qed (simp add: fw_pieces.simps [of mw b p])

text \<open>A whole week on a kernel one hour west: every day is cut in two.\<close>

theorem fw_pieces_end_witness: "length (fw_pieces 60 fwWeek 0) = 14 \<and> length (fw_pieces 60 fwWeek 0) \<le> 14"
proof
  show "length (fw_pieces 60 fwWeek 0) = 14" by code_simp
  show "length (fw_pieces 60 fwWeek 0) \<le> 14" by (rule fw_pieces_end) simp_all
qed

end
