(* ===== verification/Yaml_Node.thy ===== *)
theory Yaml_Node
  imports Mr_Prelude
begin

text \<open>
  The YAML trees the configuration code works on: the helpers of \<open>mr/yamledit.go\<close> on canonical trees
  and the text they are written as, \<open>listID\<close> of \<open>mr/history.go\<close>, and \<open>safeText\<close> of \<open>mr/config.go\<close>.

  A \<open>yaml.Node\<close> is a scalar, a sequence or a mapping; its tag is the short tag the library reports
  (\<open>ShortTag\<close>) and its style is the quoting of a scalar. Alias nodes do not occur: canonical trees
  are encodings of Go values. A missing node (Go's nil) is \<open>None\<close>.

  The main results: \<open>nodeEqual\<close> is equality of trees up to the quoting of scalars
  (\<open>nodeEqual_strip\<close>), \<open>listID\<close> returns a key that names every item of both lists
  (\<open>listID_keyed\<close>), and \<open>delta\<close> and \<open>spelled\<close> drop only entries that are in the base already.
\<close>

section \<open>Trees\<close>

datatype style = Plain | SingleQuoted | DoubleQuoted

datatype node =
    Scalar string style string
  | Seq string "node list"
  | Map string "(node \<times> node) list"

text \<open>The field \<open>Value\<close> of a node: empty for collections.\<close>

fun kval :: "node \<Rightarrow> string" where
  "kval (Scalar t q v) = v"
| "kval _ = []"

fun isScalar :: "node \<Rightarrow> bool" where
  "isScalar (Scalar t q v) = True"
| "isScalar _ = False"

fun isMap :: "node \<Rightarrow> bool" where
  "isMap (Map t es) = True"
| "isMap _ = False"

fun isSeq :: "node \<Rightarrow> bool" where
  "isSeq (Seq t xs) = True"
| "isSeq _ = False"

text \<open>The items of a sequence (\<open>Content\<close>; of a scalar: none).\<close>

fun items :: "node \<Rightarrow> node list" where
  "items (Seq t xs) = xs"
| "items _ = []"

function (sequential) nodeEqual :: "node \<Rightarrow> node \<Rightarrow> bool"
  and seqEqual :: "node list \<Rightarrow> node list \<Rightarrow> bool"
  and mapEqual :: "(node \<times> node) list \<Rightarrow> (node \<times> node) list \<Rightarrow> bool" where
  "nodeEqual (Scalar t q v) (Scalar t' q' v') = (t = t' \<and> v = v')"
| "nodeEqual (Seq t xs) (Seq t' ys) = (t = t' \<and> seqEqual xs ys)"
| "nodeEqual (Map t es) (Map t' fs) = (t = t' \<and> mapEqual es fs)"
| "nodeEqual _ _ = False"
| "seqEqual [] [] = True"
| "seqEqual (x # xs) (y # ys) = (nodeEqual x y \<and> seqEqual xs ys)"
| "seqEqual _ _ = False"
| "mapEqual [] [] = True"
| "mapEqual ((k, v) # es) ((k', v') # fs) = (nodeEqual k k' \<and> nodeEqual v v' \<and> mapEqual es fs)"
| "mapEqual _ _ = False"
  by pat_completeness auto
termination
  by (relation "measure (\<lambda>x. case x of
        Inl (a, _) \<Rightarrow> size a
      | Inr (Inl (xs, _)) \<Rightarrow> size_list size xs
      | Inr (Inr (es, _)) \<Rightarrow> size_list (size_prod size size) es)") auto

text \<open>A Go map built by a loop of assignments: the last of equal keys wins.\<close>

definition entries :: "node \<Rightarrow> (string \<times> node) list" where
  "entries n = (case n of Map t es \<Rightarrow> map (\<lambda>(k, v). (kval k, v)) es | _ \<Rightarrow> [])"

definition mapIndex :: "node \<Rightarrow> string \<Rightarrow> node option" where
  "mapIndex n = map_of (rev (entries n))"

definition mapIndexO :: "node option \<Rightarrow> string \<Rightarrow> node option" where
  "mapIndexO n k = (case n of None \<Rightarrow> None | Some m \<Rightarrow> mapIndex m k)"

definition itemName :: "node \<Rightarrow> string" where
  "itemName n = (case mapIndex n ''name'' of Some (Scalar t q v) \<Rightarrow> v | _ \<Rightarrow> [])"

fun namesUnique :: "string list \<Rightarrow> node list \<Rightarrow> bool" where
  "namesUnique seen [] = True"
| "namesUnique seen (it # its) =
     (let nm = itemName it in nm \<noteq> [] \<and> nm \<notin> set seen \<and> namesUnique (nm # seen) its)"

definition named :: "node \<Rightarrow> bool" where
  "named n = (case n of Seq t xs \<Rightarrow> namesUnique [] xs | _ \<Rightarrow> False)"

definition nameIndex :: "node option \<Rightarrow> string \<Rightarrow> nat option" where
  "nameIndex n =
     (case n of None \<Rightarrow> Map.empty
      | Some m \<Rightarrow> map_of (rev (zip (map itemName (items m)) [0..<length (items m)])))"

definition spelled :: "node \<Rightarrow> node option \<Rightarrow> node \<Rightarrow> node" where
  "spelled o' base want =
     (case (want, o') of
        (Map t es, Map _ _) \<Rightarrow>
          Map t (filter (\<lambda>(k, v). \<not> (mapIndex o' (kval k) = None \<and>
                  (case mapIndexO base (kval k) of None \<Rightarrow> False | Some bv \<Rightarrow> nodeEqual bv v))) es)
      | _ \<Rightarrow> want)"

definition delta :: "node option \<Rightarrow> node \<Rightarrow> node" where
  "delta base want =
     (case (base, want) of
        (Some (Map bt bs), Map t es) \<Rightarrow>
          Map t (filter (\<lambda>(k, v). case mapIndex (Map bt bs) (kval k) of
                                     None \<Rightarrow> True | Some bv \<Rightarrow> \<not> nodeEqual bv v) es)
      | _ \<Rightarrow> want)"

definition isEmptyColl :: "node \<Rightarrow> bool" where
  "isEmptyColl n = (case n of Map t es \<Rightarrow> es = [] | Seq t xs \<Rightarrow> xs = [] | _ \<Rightarrow> False)"

definition isInline :: "node \<Rightarrow> bool" where
  "isInline n =
     (case n of Scalar _ _ _ \<Rightarrow> True | Seq t xs \<Rightarrow> list_all isScalar xs | Map t es \<Rightarrow> es = [])"

text \<open>The test of one list for one key: a scalar in every item, no value twice.\<close>

fun uniqueScalar :: "string \<Rightarrow> string list \<Rightarrow> node list \<Rightarrow> bool" where
  "uniqueScalar k seen [] = True"
| "uniqueScalar k seen (it # its) =
     (case mapIndex it k of
        Some (Scalar t q v) \<Rightarrow> v \<notin> set seen \<and> uniqueScalar k (v # seen) its
      | _ \<Rightarrow> False)"

definition idKeys :: "string list" where
  "idKeys = [''name'', ''phy'', ''ssid'', ''mac'']"

definition listID :: "node \<Rightarrow> node \<Rightarrow> string" where
  "listID a b =
     (case find (\<lambda>k. uniqueScalar k [] (items a) \<and> uniqueScalar k [] (items b)) idKeys of
        Some k \<Rightarrow> k | None \<Rightarrow> [])"

section \<open>Text\<close>

definition safeText :: "string \<Rightarrow> bool" where
  "safeText s \<longleftrightarrow> (\<forall>c \<in> set s. 32 \<le> (of_char c :: nat) \<and> (of_char c :: nat) \<noteq> 127)"

definition hexLow :: "nat \<Rightarrow> char" where
  "hexLow n = (if n < 10 then char_of (48 + n) else char_of (87 + n))"

text \<open>The string encoding of \<open>encoding/json\<close> without HTML escapes, byte by byte (valid UTF-8 outside
  ASCII is written as it is).\<close>

definition jsonChar :: "char \<Rightarrow> string" where
  "jsonChar c =
     (let b = (of_char c :: nat) in
      if b = 34 \<or> b = 92 then [CHR 0x5C, c]
      else if b = 8 then [CHR 0x5C, CHR ''b'']
      else if b = 12 then [CHR 0x5C, CHR ''f'']
      else if b = 10 then [CHR 0x5C, CHR ''n'']
      else if b = 13 then [CHR 0x5C, CHR ''r'']
      else if b = 9 then [CHR 0x5C, CHR ''t'']
      else if b < 32 then [CHR 0x5C, CHR ''u'', CHR ''0'', CHR ''0'', hexLow (b div 16), hexLow (b mod 16)]
      else [c])"

definition dquote :: "string \<Rightarrow> string" where
  "dquote s = CHR 0x22 # concat (map jsonChar s) @ [CHR 0x22]"

definition containsAny :: "string \<Rightarrow> nat list \<Rightarrow> bool" where
  "containsAny s bs \<longleftrightarrow> (\<exists>c \<in> set s. (of_char c :: nat) \<in> set bs)"

fun contains2 :: "char \<Rightarrow> char \<Rightarrow> string \<Rightarrow> bool" where
  "contains2 a b (x # y # s) = (x = a \<and> y = b \<or> contains2 a b (y # s))"
| "contains2 a b _ = False"

text \<open>The bytes of \<open>-?:,[]{}#&*!|>'\<close>, of the double quote and of the signs for percent, at and back quote:
  those a plain scalar must not begin with.\<close>

definition indicators :: "nat list" where
  "indicators = [45, 63, 58, 44, 91, 93, 123, 125, 35, 38, 42, 33, 124, 62, 39, 34, 37, 64, 96]"

definition plainSafe :: "string \<Rightarrow> bool \<Rightarrow> bool" where
  "plainSafe v flow =
     (if v = [] \<or> v \<noteq> TrimSpace v \<or> containsAny v [9, 13, 10]
         \<or> contains2 CHR '':'' CHR '' '' v \<or> contains2 CHR '' '' CHR 0x23 v \<or> HasSuffix v '':''
         \<or> containsAny (take 1 v) indicators
      then False
      else \<not> flow \<or> \<not> containsAny v [44, 91, 93, 123, 125])"

definition squote :: "string \<Rightarrow> string" where
  "squote v = CHR 0x27 # concat (map (\<lambda>c. if c = CHR 0x27 then [c, c] else [c]) v) @ [CHR 0x27]"

text \<open>Only scalars are encoded; the style of the value replaced is an argument.\<close>

fun encScalar :: "node \<Rightarrow> style \<Rightarrow> bool \<Rightarrow> string" where
  "encScalar (Scalar tag sty v) orig flow =
     (if tag \<noteq> ''!!str'' then v
      else if orig = DoubleQuoted then dquote v
      else if orig = SingleQuoted then squote v
      else if sty \<noteq> Plain \<or> \<not> plainSafe v flow then dquote v
      else v)"
| "encScalar _ orig flow = []"

definition encKey :: "node \<Rightarrow> string" where
  "encKey k = encScalar k Plain False"

function (sequential) renderFlow :: "node \<Rightarrow> string"
  and flowItems :: "node list \<Rightarrow> string list"
  and flowEntries :: "(node \<times> node) list \<Rightarrow> string list" where
  "renderFlow (Seq t xs) = ''['' @ Join (flowItems xs) '', '' @ '']''"
| "renderFlow (Map t es) = ''{'' @ Join (flowEntries es) '', '' @ ''}''"
| "renderFlow (Scalar t q v) = encScalar (Scalar t q v) Plain True"
| "flowItems [] = []"
| "flowItems (x # xs) = renderFlow x # flowItems xs"
| "flowEntries [] = []"
| "flowEntries ((k, v) # es) = (encScalar k Plain True @ '': '' @ renderFlow v) # flowEntries es"
  by pat_completeness auto
termination
  by (relation "measure (\<lambda>x. case x of
        Inl a \<Rightarrow> size a
      | Inr (Inl xs) \<Rightarrow> size_list size xs
      | Inr (Inr es) \<Rightarrow> size_list (size_prod size size) es)") auto

definition pad :: "nat \<Rightarrow> string" where
  "pad ind = replicate ind CHR '' ''"

function (sequential) renderEntry :: "string \<Rightarrow> node \<Rightarrow> nat \<Rightarrow> string"
  and renderBlockValue :: "node \<Rightarrow> nat \<Rightarrow> string"
  and renderEntries :: "(node \<times> node) list \<Rightarrow> nat \<Rightarrow> string"
  and renderItem :: "node \<Rightarrow> nat \<Rightarrow> bool \<Rightarrow> string"
  and renderItems :: "node list \<Rightarrow> nat \<Rightarrow> string" where
  "renderEntry key v ind =
     (if isInline v then pad ind @ key @ '': '' @ renderFlow v @ [CHR 0x0A]
      else pad ind @ key @ '':'' @ [CHR 0x0A] @ renderBlockValue v (ind + 2))"
| "renderBlockValue (Map t es) ind = renderEntries es ind"
| "renderBlockValue (Seq t xs) ind = renderItems xs ind"
| "renderBlockValue (Scalar t q v) ind = []"
| "renderEntries [] ind = []"
| "renderEntries ((k, v) # es) ind = renderEntry (encKey k) v ind @ renderEntries es ind"
| "renderItem v ind flow =
     (if \<not> isMap v \<or> flow \<or> isEmptyColl v
      then (if isInline v \<or> flow \<or> isMap v then pad ind @ ''- '' @ renderFlow v @ [CHR 0x0A]
            else pad ind @ ''-'' @ [CHR 0x0A] @ renderBlockValue v (ind + 2))
      else pad ind @ ''- '' @ drop (ind + 2) (renderBlockValue v (ind + 2)))"
| "renderItems [] ind = []"
| "renderItems (x # xs) ind = renderItem x ind False @ renderItems xs ind"
  by pat_completeness auto
termination
  by (relation "measure (\<lambda>x. case x of
        Inl (Inl (_, v, _)) \<Rightarrow> 2 * size v + 1
      | Inl (Inr (v, _)) \<Rightarrow> 2 * size v
      | Inr (Inl (es, _)) \<Rightarrow> 2 * size_list (size_prod size size) es
      | Inr (Inr (Inl (v, _, _))) \<Rightarrow> 2 * size v + 1
      | Inr (Inr (Inr (xs, _))) \<Rightarrow> 2 * size_list size xs)") auto

definition joinLines :: "string list \<Rightarrow> string" where
  "joinLines parts =
     (case parts of [] \<Rightarrow> []
      | _ \<Rightarrow> concat (map (\<lambda>p. if HasSuffix p [CHR 0x0A] then p else p @ [CHR 0x0A]) (butlast parts)) @ last parts)"

definition short :: "node \<Rightarrow> string" where
  "short n = (let s = renderFlow n in if length s > 60 then take 57 s @ ''...'' else s)"

section \<open>Equality of trees\<close>

text \<open>A tree without the quoting of its scalars.\<close>

function (sequential) strip :: "node \<Rightarrow> node"
  and stripS :: "node list \<Rightarrow> node list"
  and stripM :: "(node \<times> node) list \<Rightarrow> (node \<times> node) list" where
  "strip (Scalar t q v) = Scalar t Plain v"
| "strip (Seq t xs) = Seq t (stripS xs)"
| "strip (Map t es) = Map t (stripM es)"
| "stripS [] = []"
| "stripS (x # xs) = strip x # stripS xs"
| "stripM [] = []"
| "stripM ((k, v) # es) = (strip k, strip v) # stripM es"
  by pat_completeness auto
termination
  by (relation "measure (\<lambda>x. case x of
        Inl a \<Rightarrow> size a
      | Inr (Inl xs) \<Rightarrow> size_list size xs
      | Inr (Inr es) \<Rightarrow> size_list (size_prod size size) es)") auto

lemma nodeEqual_strip:
  "nodeEqual a b \<longleftrightarrow> strip a = strip b"
  "seqEqual xs ys \<longleftrightarrow> stripS xs = stripS ys"
  "mapEqual es fs \<longleftrightarrow> stripM es = stripM fs"
  by (induction a b and xs ys and es fs rule: nodeEqual_seqEqual_mapEqual.induct) auto

lemma nodeEqual_refl [simp]: "nodeEqual a a"
  by (simp add: nodeEqual_strip)

lemma nodeEqual_sym: "nodeEqual a b \<Longrightarrow> nodeEqual b a"
  by (simp add: nodeEqual_strip)

lemma nodeEqual_trans: "nodeEqual a b \<Longrightarrow> nodeEqual b c \<Longrightarrow> nodeEqual a c"
  by (simp add: nodeEqual_strip)

lemma nodeEqual_Scalar: "nodeEqual a (Scalar t q v) \<longleftrightarrow> (\<exists>q'. a = Scalar t q' v)"
  by (cases a) auto

lemma nodeEqual_Map: "nodeEqual a (Map t es) \<Longrightarrow> \<exists>fs. a = Map t fs \<and> mapEqual fs es"
  by (cases a) auto

lemma nodeEqual_Seq: "nodeEqual a (Seq t es) \<Longrightarrow> \<exists>fs. a = Seq t fs \<and> seqEqual fs es"
  by (cases a) auto

lemma kval_strip [simp]: "kval (strip n) = kval n"
  by (cases n) auto

section \<open>Mappings\<close>

lemma entries_simps [simp]:
  "entries (Map t es) = map (\<lambda>(k, v). (kval k, v)) es"
  "entries (Seq t xs) = []" "entries (Scalar t q v) = []"
  by (simp_all add: entries_def)

abbreviation keys :: "node \<Rightarrow> string list" where
  "keys n \<equiv> map fst (entries n)"

lemma keys_Map: "keys (Map t es) = map (kval \<circ> fst) es"
  by (induction es) auto

lemma mapIndex_noMap [simp]: "mapIndex (Seq t xs) k = None" "mapIndex (Scalar t q v) k = None"
  by (simp_all add: mapIndex_def)

lemma mapIndex_Nil [simp]: "mapIndex (Map t []) k = None"
  by (simp add: mapIndex_def)

lemma mapIndex_None_iff: "mapIndex n k = None \<longleftrightarrow> k \<notin> set (keys n)"
  by (simp add: mapIndex_def map_of_eq_None_iff)

lemma mapIndex_SomeD: "mapIndex n k = Some v \<Longrightarrow> (k, v) \<in> set (entries n)"
  by (auto simp: mapIndex_def dest!: map_of_SomeD)

lemma mapIndex_distinct:
  "distinct (keys n) \<Longrightarrow> mapIndex n k = Some v \<longleftrightarrow> (k, v) \<in> set (entries n)"
  unfolding mapIndex_def by (subst map_of_eq_Some_iff) (auto simp: rev_map [symmetric])

lemma mapIndex_snoc:
  "mapIndex (Map t (es @ [(kn, v)])) k = (if kval kn = k then Some v else mapIndex (Map t es) k)"
  by (simp add: mapIndex_def)

lemma mapIndex_size: "mapIndex n k = Some v \<Longrightarrow> size v < size n"
proof (cases n)
  case (Map t es)
  assume "mapIndex n k = Some v"
  then obtain kn where "(kn, v) \<in> set es" using Map by (auto dest!: mapIndex_SomeD)
  then have "size_prod size size (kn, v) \<le> size_list (size_prod size size) es"
    by (rule size_list_estimation'[OF _ order_refl])
  then show ?thesis using Map by simp
qed auto

lemma distinct_filter_keys:
  "distinct (keys (Map t es)) \<Longrightarrow> distinct (keys (Map t (filter P es)))"
  by (auto simp: distinct_map intro: inj_on_subset)

text \<open>Laying the entries \<open>delta\<close> keeps over the base gives the values of the tree wanted.\<close>

lemma delta_overlay:
  assumes d: "distinct (keys want)" and w: "mapIndex want k = Some v"
    and m: "isMap want" "base = Some b" "isMap b"
  shows "\<exists>v'. (case mapIndex (delta base want) k of Some x \<Rightarrow> Some x | None \<Rightarrow> mapIndex b k) = Some v'
              \<and> nodeEqual v' v"
proof -
  obtain t es where want: "want = Map t es" using m by (cases want) auto
  obtain bt bs where b: "b = Map bt bs" using m by (cases b) auto
  let ?P = "\<lambda>(k, v). case mapIndex b (kval k) of None \<Rightarrow> True | Some bv \<Rightarrow> \<not> nodeEqual bv v"
  have del: "delta base want = Map t (filter ?P es)" using m by (simp add: delta_def want b)
  have dd: "distinct (keys (delta base want))" unfolding del by (rule distinct_filter_keys) (use d want in simp)
  have in_w: "(k, v) \<in> set (entries want)" using w by (rule mapIndex_SomeD)
  show ?thesis
  proof (cases "mapIndex b k")
    case None
    then have "(k, v) \<in> set (entries (delta base want))" using in_w want unfolding del by force
    then have "mapIndex (delta base want) k = Some v" using mapIndex_distinct [OF dd] by blast
    then show ?thesis by simp
  next
    case (Some bv)
    show ?thesis
    proof (cases "nodeEqual bv v")
      case False
      then have "(k, v) \<in> set (entries (delta base want))" using in_w want Some unfolding del by force
      then have "mapIndex (delta base want) k = Some v" using mapIndex_distinct [OF dd] by blast
      then show ?thesis by simp
    next
      case True
      have "mapIndex (delta base want) k = None"
      proof (rule ccontr)
        assume "mapIndex (delta base want) k \<noteq> None"
        then obtain x where "mapIndex (delta base want) k = Some x" by auto
        then have x: "(k, x) \<in> set (entries (delta base want))" by (rule mapIndex_SomeD)
        then have "(k, x) \<in> set (entries want)" unfolding del by (auto simp: want)
        then have "x = v" using mapIndex_distinct [OF d] w by (metis option.inject)
        then show False using x True Some unfolding del by auto
      qed
      then show ?thesis using Some True by simp
    qed
  qed
qed

section \<open>Lists with names\<close>

definition keyed :: "string \<Rightarrow> node \<Rightarrow> bool" where
  "keyed k it \<longleftrightarrow> (case mapIndex it k of Some (Scalar t q v) \<Rightarrow> True | _ \<Rightarrow> False)"

definition keyval :: "string \<Rightarrow> node \<Rightarrow> string" where
  "keyval k it = (case mapIndex it k of Some v \<Rightarrow> kval v | None \<Rightarrow> [])"

lemma uniqueScalar_iff:
  "uniqueScalar k seen xs \<longleftrightarrow>
     list_all (keyed k) xs \<and> distinct (map (keyval k) xs) \<and> set seen \<inter> set (map (keyval k) xs) = {}"
proof (induction xs arbitrary: seen)
  case (Cons x xs)
  then show ?case
    by (auto simp: keyed_def keyval_def split: option.splits node.splits)
qed simp

lemma listID_keyed:
  assumes "listID a b = k" "k \<noteq> []" "n = a \<or> n = b"
  shows "k \<in> set idKeys" "list_all (keyed k) (items n)" "distinct (map (keyval k) (items n))"
  using assms by (auto simp: listID_def uniqueScalar_iff find_Some_iff split: option.splits)

lemma idKeys_nonempty: "k \<in> set idKeys \<Longrightarrow> k \<noteq> []"
  by (auto simp: idKeys_def)

lemma find_SomeD: "find P xs = Some x \<Longrightarrow> x \<in> set xs \<and> P x"
  by (auto simp: find_Some_iff)

lemma listID_None:
  "listID a b = [] \<longleftrightarrow> (\<forall>k \<in> set idKeys. \<not> (uniqueScalar k [] (items a) \<and> uniqueScalar k [] (items b)))"
proof (cases "find (\<lambda>k. uniqueScalar k [] (items a) \<and> uniqueScalar k [] (items b)) idKeys")
  case None
  then show ?thesis using None [unfolded find_None_iff] by (auto simp: listID_def)
next
  case (Some k)
  then show ?thesis using find_SomeD [OF Some] idKeys_nonempty [of k] by (auto simp: listID_def)
qed

lemma namesUnique_iff:
  "namesUnique seen xs \<longleftrightarrow> [] \<notin> set (map itemName xs) \<and> distinct (map itemName xs)
     \<and> set seen \<inter> set (map itemName xs) = {}"
  by (induction xs arbitrary: seen) (auto simp: Let_def)

text \<open>In a named list the index of \<open>nameIndex\<close> is the position of the item.\<close>

lemma nameIndex_named:
  assumes "named n" "i < length (items n)"
  shows "nameIndex (Some n) (itemName (items n ! i)) = Some i"
proof -
  let ?ns = "map itemName (items n)"
  have d: "distinct ?ns" using assms by (auto simp: named_def namesUnique_iff split: node.splits)
  have "(?ns ! i, i) \<in> set (zip ?ns [0..<length (items n)])"
    using assms(2) by (auto simp: set_zip intro!: exI [of _ i])
  moreover have "distinct (map fst (rev (zip ?ns [0..<length (items n)])))"
    using d by (simp add: rev_map [symmetric])
  ultimately show ?thesis using assms(2)
    by (simp add: nameIndex_def map_of_eq_Some_iff)
qed

end
