(* ===== verification/Go_Strconv.thy ===== *)
theory Go_Strconv
  imports Mr_Prelude
begin

text \<open>
  Quoting of Go's package \<open>strconv\<close>: \<open>Quote\<close>, \<open>QuotedPrefix\<close> and \<open>Unquote\<close> for double-quoted strings,
  which the config paths use. Bytes from 0x80 up are parts of printable characters in valid UTF-8
  and stand for themselves. The lemma \<open>unquote_quote\<close> is the round trip.
\<close>

definition byte :: "char \<Rightarrow> nat" where
  "byte c = of_char c"

definition hex_digit :: "nat \<Rightarrow> char" where
  "hex_digit n = (if n < 10 then char_of (48 + n) else char_of (87 + n))"

definition hex_val :: "char \<Rightarrow> nat option" where
  "hex_val c =
     (if 48 \<le> byte c \<and> byte c \<le> 57 then Some (byte c - 48)
      else if 97 \<le> byte c \<and> byte c \<le> 102 then Some (byte c - 87)
      else if 65 \<le> byte c \<and> byte c \<le> 70 then Some (byte c - 55)
      else None)"

text \<open>The escapes with a letter of their own: the byte and the letter.\<close>

definition letter_escapes :: "(nat \<times> char) list" where
  "letter_escapes =
     [(7, CHR ''a''), (8, CHR ''b''), (12, CHR ''f''), (10, CHR ''n''), (13, CHR ''r''), (9, CHR ''t''), (11, CHR ''v'')]"

definition quote_char :: "char \<Rightarrow> string" where
  "quote_char c =
     (if c = CHR 0x22 \<or> c = CHR 0x5C then [CHR 0x5C, c]
      else if 32 \<le> byte c \<and> byte c \<noteq> 127 then [c]
      else (case map_of letter_escapes (byte c) of
              Some l \<Rightarrow> [CHR 0x5C, l]
            | None \<Rightarrow> [CHR 0x5C, CHR ''x'', hex_digit (byte c div 16), hex_digit (byte c mod 16)]))"

definition Quote :: "string \<Rightarrow> string" where
  "Quote s = CHR 0x22 # concat (map quote_char s) @ [CHR 0x22]"

definition utf8 :: "nat \<Rightarrow> string" where
  "utf8 r =
     (if r < 128 then [char_of r]
      else if r < 2048 then [char_of (192 + r div 64), char_of (128 + r mod 64)]
      else if r < 65536
      then [char_of (224 + r div 4096), char_of (128 + r div 64 mod 64), char_of (128 + r mod 64)]
      else [char_of (240 + r div 262144), char_of (128 + r div 4096 mod 64),
            char_of (128 + r div 64 mod 64), char_of (128 + r mod 64)])"

fun hex_num :: "nat \<Rightarrow> nat \<Rightarrow> string \<Rightarrow> (nat \<times> string) option" where
  "hex_num 0 acc s = Some (acc, s)"
| "hex_num (Suc n) acc [] = None"
| "hex_num (Suc n) acc (c # s) =
     (case hex_val c of None \<Rightarrow> None | Some v \<Rightarrow> hex_num n (16 * acc + v) s)"

definition octal :: "char \<Rightarrow> bool" where
  "octal c \<longleftrightarrow> 48 \<le> byte c \<and> byte c \<le> 55"

text \<open>\<open>UnquoteChar\<close> after a backslash, inside double quotes: the bytes and the rest.\<close>

definition unescape :: "string \<Rightarrow> (string \<times> string) option" where
  "unescape s =
     (case s of [] \<Rightarrow> None
      | e # es \<Rightarrow>
          (case map_of (map (\<lambda>(b, l). (l, b)) letter_escapes) e of
             Some b \<Rightarrow> Some ([char_of b], es)
           | None \<Rightarrow>
               if e = CHR ''x'' then map_option (\<lambda>(v, r). ([char_of v], r)) (hex_num 2 0 es)
               else if e = CHR ''u'' \<or> e = CHR ''U''
               then (case hex_num (if e = CHR ''u'' then 4 else 8) 0 es of
                       None \<Rightarrow> None
                     | Some (v, r) \<Rightarrow>
                         if v > 1114111 \<or> (55296 \<le> v \<and> v \<le> 57343) then None else Some (utf8 v, r))
               else if octal e
               then (case es of
                       a # b # r \<Rightarrow>
                         if octal a \<and> octal b
                            \<and> 64 * (byte e - 48) + 8 * (byte a - 48) + (byte b - 48) \<le> 255
                         then Some ([char_of (64 * (byte e - 48) + 8 * (byte a - 48) + (byte b - 48))], r)
                         else None
                     | _ \<Rightarrow> None)
               else if e = CHR 0x5C \<or> e = CHR 0x22 then Some ([e], es)
               else None))"

lemma hex_num_length: "hex_num n acc s = Some (v, r) \<Longrightarrow> length r \<le> length s"
  by (induction n acc s rule: hex_num.induct) (auto split: option.splits)

lemma octal_rest:
  "(case es of a # b # r \<Rightarrow> if P a b then Some (g a b, r) else None | _ \<Rightarrow> None) = Some (v, r') \<Longrightarrow> length r' < length es"
  by (auto split: list.splits if_splits)

lemma unescape_length: "unescape s = Some (b, r) \<Longrightarrow> length r < length s"
proof (cases s)
  case (Cons e es)
  assume "unescape s = Some (b, r)"
  then have "length r \<le> length es"
    unfolding Cons unescape_def list.case
    by (auto simp only: option.case split: option.splits if_splits dest!: hex_num_length octal_rest)
  then show ?thesis by (simp add: Cons)
qed (simp add: unescape_def)

text \<open>
  The text up to the closing quote, unescaped, and what follows it; \<open>None\<close>: no closing quote, a
  line break, or a bad escape (\<open>ErrSyntax\<close>).
\<close>

function unquote_body :: "string \<Rightarrow> (string \<times> string) option" where
  "unquote_body s =
     (case s of [] \<Rightarrow> None
      | c # cs \<Rightarrow>
          if c = CHR 0x22 then Some ([], cs)
          else if byte c = 10 then None
          else if c = CHR 0x5C
          then (case unescape cs of None \<Rightarrow> None
                | Some (b, r) \<Rightarrow> map_option (\<lambda>(t, r'). (b @ t, r')) (unquote_body r))
          else map_option (\<lambda>(t, r'). (c # t, r')) (unquote_body cs))"
  by pat_completeness auto
termination
  by (relation "measure length") (auto dest: unescape_length)

declare unquote_body.simps [simp del]

text \<open>\<open>QuotedPrefix\<close> followed by \<open>Unquote\<close>, on a text that begins with a double quote.\<close>

definition UnquotePrefix :: "string \<Rightarrow> (string \<times> string) option" where
  "UnquotePrefix s = (case s of c # cs \<Rightarrow> if c = CHR 0x22 then unquote_body cs else None | [] \<Rightarrow> None)"

section \<open>Round trip\<close>

lemma byte_lt [simp]: "byte c < 256"
  by (simp add: byte_def of_char_of)

lemma char_of_byte [simp]: "char_of (byte c) = c"
  by (simp add: byte_def)

lemma hex_val_digit: "n < 16 \<Longrightarrow> hex_val (hex_digit n) = Some n"
  by (auto simp: hex_val_def hex_digit_def byte_def)

lemma unescape_hex:
  "unescape (CHR ''x'' # hex_digit (byte c div 16) # hex_digit (byte c mod 16) # r) = Some ([c], r)"
proof -
  have "byte c div 16 < 16" by (simp add: less_mult_imp_div_less)
  then show ?thesis
    by (simp add: unescape_def letter_escapes_def numeral_2_eq_2 hex_val_digit)
qed

lemma byte_eqD: "byte c = n \<Longrightarrow> char_of n = c"
  by (metis char_of_byte)

lemma unescape_letter:
  assumes "map_of letter_escapes (byte c) = Some l"
  shows "unescape (l # r) = Some ([c], r)"
proof -
  obtain b where b: "byte c = b" by simp
  have m: "map_of (map (\<lambda>(b, l). (l, b)) letter_escapes) l = Some b"
    using assms unfolding b letter_escapes_def by (auto split: if_splits)
  have "char_of b = c" by (rule byte_eqD [OF b])
  with m show ?thesis by (simp add: unescape_def)
qed

lemma byte_backslash [simp]: "byte CHR 0x5C = 92"
  by (simp add: byte_def)

lemma unquote_quote_char:
  "unquote_body (quote_char c @ s) = map_option (\<lambda>(t, r). (c # t, r)) (unquote_body s)"
proof (cases "c = CHR 0x22 \<or> c = CHR 0x5C")
  case True
  then have "unescape (c # s) = Some ([c], s)"
    by (auto simp: unescape_def letter_escapes_def octal_def byte_def)
  with True show ?thesis by (auto simp: quote_char_def unquote_body.simps [of "CHR 0x5C # _"])
next
  case False
  show ?thesis
  proof (cases "32 \<le> byte c \<and> byte c \<noteq> 127")
    case True
    with False show ?thesis by (simp add: quote_char_def unquote_body.simps [of "c # _"])
  next
    case ctl: False
    show ?thesis
    proof (cases "map_of letter_escapes (byte c)")
      case None
      with False ctl show ?thesis
        by (auto simp: quote_char_def unquote_body.simps [of "CHR 0x5C # _"] unescape_hex)
    next
      case (Some l)
      with False ctl show ?thesis
        by (auto simp: quote_char_def unquote_body.simps [of "CHR 0x5C # _"] unescape_letter)
    qed
  qed
qed

lemma unquote_quote:
  "unquote_body (concat (map quote_char s) @ CHR 0x22 # r) = Some (s, r)"
  by (induction s) (simp_all add: unquote_quote_char unquote_body.simps [of "CHR 0x22 # _"])

lemma UnquotePrefix_Quote: "UnquotePrefix (Quote s @ r) = Some (s, r)"
  by (simp add: UnquotePrefix_def Quote_def unquote_quote)

interpretation quoted: codec Quote "\<lambda>s. map_option fst (UnquotePrefix s)" "\<lambda>s. True"
  using UnquotePrefix_Quote [of _ "[]"] by unfold_locales simp

end
