(* ===== verification/Cfg_Path.thy ===== *)
theory Cfg_Path
  imports Yaml_Node Go_Strconv
begin

text \<open>
  Config paths and edits: \<open>mr/cfgpath.go\<close>, the syntax of \<open>mr get / set / add / del / export\<close> and of the
  API's patches. A path is parsed into steps; an edit walks the tree along the steps and changes what it
  finds there. The Go code follows pointers and changes the tree in place; here \<open>updAt\<close> walks the same
  way and rebuilds the nodes on the path. When an edit fails the caller drops the tree, so an error
  carries no tree.

  Shown: \<open>parsePath\<close> reads back what \<open>fmtPath\<close> writes (\<open>path_roundtrip\<close>); a \<open>set\<close> changes the addressed
  place and nothing else (\<open>set_only_target\<close>); \<open>add\<close> keeps the names of a list unique
  (\<open>add_keeps_names\<close>); every line of \<open>flatLines\<close> carries a path that leads to the value it shows
  (\<open>flat_lines_addressable\<close>).
\<close>

section \<open>Paths\<close>

record pathStep =
  key :: string
  sel :: bool
  selK :: string
  val :: string

definition keyStep :: "string \<Rightarrow> pathStep" where
  "keyStep k = \<lparr>key = k, sel = False, selK = [], val = []\<rparr>"

definition selStep :: "string \<Rightarrow> string \<Rightarrow> pathStep" where
  "selStep k v = \<lparr>key = [], sel = True, selK = k, val = v\<rparr>"

datatype pathError = BadQuoted nat | MissingBracket | EmptySel nat | MissingBracketAt nat
  | ExpectedDot nat | EmptyKey nat | EmptyPath

definition identChar :: "char \<Rightarrow> bool" where
  "identChar c \<longleftrightarrow> c = CHR ''_'' \<or> c = CHR ''-'' \<or> (97 \<le> byte c \<and> byte c \<le> 122)
     \<or> (65 \<le> byte c \<and> byte c \<le> 90) \<or> (48 \<le> byte c \<and> byte c \<le> 57)"

text \<open>A key ends at one of \<open>.[]= \<close>, a double quote or a tab.\<close>

definition keyDelim :: "char \<Rightarrow> bool" where
  "keyDelim c \<longleftrightarrow> byte c \<in> {46, 91, 93, 34, 61, 32, 9}"

definition startsWith :: "string \<Rightarrow> char \<Rightarrow> bool" where
  "startsWith s c \<longleftrightarrow> s \<noteq> [] \<and> hd s = c"

text \<open>
  The parser's index \<open>i\<close> is kept for the messages; the text still to read is the argument \<open>s\<close>. The text
  of a selector after the bracket, then of a key: the step, the new index and the rest.
\<close>

definition close_sel :: "pathStep \<Rightarrow> nat \<Rightarrow> string \<Rightarrow> pathError + pathStep \<times> nat \<times> string" where
  "close_sel st i s =
     (if startsWith s CHR '']'' then Inr (st, i + 1, tl s) else Inl (MissingBracketAt (i + 1)))"

definition parse_sel :: "nat \<Rightarrow> string \<Rightarrow> pathError + pathStep \<times> nat \<times> string" where
  "parse_sel i s =
     (let w = takeWhile identChar s; r = dropWhile identChar s;
          (k, i1, s1) = (if w \<noteq> [] \<and> startsWith r CHR ''='' then (w, i + length w + 1, tl r) else ([], i, s))
      in if startsWith s1 CHR 0x22
         then (case UnquotePrefix s1 of
                 None \<Rightarrow> Inl (BadQuoted (i1 + 1))
               | Some (v, r2) \<Rightarrow> close_sel (selStep k v) (i1 + (length s1 - length r2)) r2)
         else if CHR '']'' \<notin> set s1 then Inl MissingBracket
         else (let v = takeWhile (\<lambda>c. c \<noteq> CHR '']'') s1
               in if v = [] then Inl (EmptySel i1)
                  else close_sel (selStep k v) (i1 + length v) (drop (length v) s1)))"

definition parse_key :: "nat \<Rightarrow> string \<Rightarrow> pathError + pathStep \<times> nat \<times> string" where
  "parse_key i s =
     (if startsWith s CHR 0x22
      then (case UnquotePrefix s of
              None \<Rightarrow> Inl (BadQuoted (i + 1))
            | Some (k, r) \<Rightarrow> Inr (keyStep k, i + (length s - length r), r))
      else (let w = takeWhile (\<lambda>c. \<not> keyDelim c) s
            in if w = [] then Inl (EmptyKey (i + 1))
               else Inr (keyStep w, i + length w, drop (length w) s)))"

lemma unquote_body_length: "unquote_body s = Some (t, r) \<Longrightarrow> length r < length s"
proof (induction s arbitrary: t rule: unquote_body.induct)
  case (1 s)
  show ?case
  proof (cases s)
    case Nil
    then show ?thesis using "1.prems" by (simp add: unquote_body.simps)
  next
    case (Cons c cs)
    show ?thesis
    proof (cases "c = CHR 0x5C")
      case True
      then obtain b r' t' where "unescape cs = Some (b, r')" "unquote_body r' = Some (t', r)"
        using "1.prems" Cons by (auto simp: unquote_body.simps [of "CHR 0x5C # cs"] split: option.splits)
      then show ?thesis
        using "1.IH"(1) [OF Cons _ _ True] unescape_length [of cs b r'] True Cons
        by (fastforce simp: byte_def)
    next
      case False
      show ?thesis
      proof (cases "c = CHR 0x22")
        case True
        then show ?thesis using "1.prems" Cons by (simp add: unquote_body.simps [of "CHR 0x22 # cs"])
      next
        case q: False
        then obtain t' where "unquote_body cs = Some (t', r)" "byte c \<noteq> 10"
          using "1.prems" Cons False by (auto simp: unquote_body.simps [of "c # cs"] split: if_splits)
        then show ?thesis using "1.IH"(2) [OF Cons q _ False] Cons by fastforce
      qed
    qed
  qed
qed

lemma UnquotePrefix_length: "UnquotePrefix s = Some (t, r) \<Longrightarrow> length r < length s"
  by (auto simp: UnquotePrefix_def dest!: unquote_body_length split: list.splits if_splits)

lemma close_sel_length: "close_sel st i s = Inr (st', i', r) \<Longrightarrow> length r \<le> length s"
  by (auto simp: close_sel_def split: if_splits)

lemma parse_sel_length: "parse_sel i s = Inr (st, i', r) \<Longrightarrow> length r \<le> length s"
proof -
  assume *: "parse_sel i s = Inr (st, i', r)"
  obtain k i1 s1 where k: "(if takeWhile identChar s \<noteq> [] \<and> startsWith (dropWhile identChar s) CHR ''=''
      then (takeWhile identChar s, i + length (takeWhile identChar s) + 1, tl (dropWhile identChar s))
      else ([], i, s)) = (k, i1, s1)"
    by (metis prod_cases3)
  have "length s1 \<le> length s"
    using k length_dropWhile_le [of identChar s] by (auto split: if_splits)
  moreover have "length r \<le> length s1"
    using * unfolding parse_sel_def Let_def k
    by (auto split: if_splits option.splits dest!: close_sel_length UnquotePrefix_length)
  ultimately show ?thesis by simp
qed

lemma parse_key_length: "parse_key i s = Inr (st, i', r) \<Longrightarrow> length r < length s"
  by (auto simp: parse_key_def Let_def split: if_splits option.splits
      dest!: UnquotePrefix_length) (metis diff_less length_greater_0_conv takeWhile.simps(1))

function parse_steps :: "nat \<Rightarrow> bool \<Rightarrow> string \<Rightarrow> pathError + pathStep list" where
  "parse_steps i started s =
     (case s of [] \<Rightarrow> Inr []
      | c # cs \<Rightarrow>
          if started \<and> c = CHR ''[''
          then (case parse_sel (i + 1) cs of Inl e \<Rightarrow> Inl e
                | Inr (st, i', r) \<Rightarrow> map_sum id ((#) st) (parse_steps i' True r))
          else if started \<and> c \<noteq> CHR ''.'' then Inl (ExpectedDot (i + 1))
          else (case parse_key (if started then i + 1 else i) (if started then cs else s) of Inl e \<Rightarrow> Inl e
                | Inr (st, i', r) \<Rightarrow> map_sum id ((#) st) (parse_steps i' True r)))"
  by pat_completeness auto
termination
  by (relation "measure (\<lambda>(i, b, s). length s)")
    (auto dest!: parse_sel_length parse_key_length split: if_splits)

declare parse_steps.simps [simp del]

definition parsePath :: "string \<Rightarrow> pathError + pathStep list" where
  "parsePath p = (case parse_steps 0 False p of Inl e \<Rightarrow> Inl e | Inr [] \<Rightarrow> Inl EmptyPath | Inr sts \<Rightarrow> Inr sts)"

definition plainKeyChar :: "char \<Rightarrow> bool" where
  "plainKeyChar c \<longleftrightarrow> identChar c \<or> c = CHR '':'' \<or> c = CHR ''/'' \<or> c = CHR ''+''"

definition fmtKey :: "string \<Rightarrow> string" where
  "fmtKey k = (if \<not> list_all plainKeyChar k then Quote k else if k = [] then [CHR 0x22, CHR 0x22] else k)"

definition fmtSel :: "string \<Rightarrow> string" where
  "fmtSel v =
     (if v = [] \<or> v \<noteq> TrimSpace v \<or> containsAny v [91, 93, 34, 61] \<or> \<not> safeText v then Quote v else v)"

definition fmtStep :: "bool \<Rightarrow> pathStep \<Rightarrow> string" where
  "fmtStep first st =
     (if sel st then ''['' @ (if selK st \<noteq> [] then selK st @ ''='' else []) @ fmtSel (val st) @ '']''
      else (if first then [] else ''.'') @ fmtKey (key st))"

definition fmtPath :: "pathStep list \<Rightarrow> string" where
  "fmtPath steps = concat (map (\<lambda>(i, st). fmtStep (i = 0) st) (zip [0..<length steps] steps))"

section \<open>Items of lists\<close>

fun findIdx :: "('a \<Rightarrow> bool) \<Rightarrow> 'a list \<Rightarrow> nat option" where
  "findIdx P [] = None"
| "findIdx P (x # xs) = (if P x then Some 0 else map_option Suc (findIdx P xs))"

datatype itemError = NoItemWith string string string | NoItemAt string nat

definition seqKey :: "node \<Rightarrow> string" where
  "seqKey n = (case items n of it # its \<Rightarrow> if isMap it then listID n n else [] | [] \<Rightarrow> [])"

definition itemNames :: "node \<Rightarrow> string \<Rightarrow> string" where
  "itemNames seq k =
     (let ns = map kval (List.map_filter (\<lambda>it. mapIndex it k) (items seq))
      in if ns = [] then ''none'' else Join ns '', '')"

definition hasName :: "string \<Rightarrow> string \<Rightarrow> node \<Rightarrow> bool" where
  "hasName k w it = (case mapIndex it k of Some (Scalar t q v) \<Rightarrow> v = w | _ \<Rightarrow> False)"

definition findItem :: "node \<Rightarrow> pathStep \<Rightarrow> itemError + nat" where
  "findItem seq st =
     (let k = (if selK st = [] then seqKey seq else selK st) in
      if k \<noteq> []
      then (case findIdx (hasName k (val st)) (items seq) of
              Some i \<Rightarrow> Inr i
            | None \<Rightarrow> Inl (NoItemWith k (val st) (itemNames seq k)))
      else (case findIdx (\<lambda>it. isScalar it \<and> kval it = val st) (items seq) of
              Some i \<Rightarrow> Inr i
            | None \<Rightarrow>
                (case Atoi (val st) of
                   Some n \<Rightarrow> if 0 \<le> n \<and> n < int (length (items seq)) then Inr (nat n)
                             else Inl (NoItemAt (val st) (length (items seq)))
                 | None \<Rightarrow> Inl (NoItemAt (val st) (length (items seq))))))"

definition kindName :: "node \<Rightarrow> string" where
  "kindName n = (case n of Seq t xs \<Rightarrow> ''list'' | Map t es \<Rightarrow> ''mapping'' | Scalar t q v \<Rightarrow> ''value'')"

definition strNode :: "string \<Rightarrow> node" where
  "strNode s = Scalar ''!!str'' Plain s"

section \<open>Edits\<close>

datatype editError =
    BadPath pathError
  | BadValue string
  | NotList string
  | ItemMissing string itemError
  | HasNoKeys string string
  | HasNoKey string string
  | NotAList string
  | NeedsName string
  | NameExists string string
  | InListAlready string
  | UnknownOp string

definition place :: "pathStep list \<Rightarrow> string" where
  "place steps = (if fmtPath steps = [] then ''the config'' else fmtPath steps)"

text \<open>The position of the last entry with a key: the value \<open>mapIndex\<close> returns.\<close>

definition lastIdx :: "string \<Rightarrow> (node \<times> node) list \<Rightarrow> nat option" where
  "lastIdx k es = map_option (\<lambda>i. length es - 1 - i) (findIdx (\<lambda>e. kval (fst e) = k) (rev es))"

text \<open>Reading: \<open>nodeAt\<close> without \<open>create\<close>; the steps done so far are kept for the messages.\<close>

fun nodeAt_from :: "pathStep list \<Rightarrow> node \<Rightarrow> pathStep list \<Rightarrow> editError + node" where
  "nodeAt_from before n [] = Inr n"
| "nodeAt_from before n (st # sts) =
     (if sel st
      then (case n of
              Seq t xs \<Rightarrow>
                (case findItem n st of
                   Inl e \<Rightarrow> Inl (ItemMissing (place before) e)
                 | Inr j \<Rightarrow> nodeAt_from (before @ [st]) (xs ! j) sts)
            | _ \<Rightarrow> Inl (NotList (place before)))
      else (case n of
              Map t es \<Rightarrow>
                (case mapIndex n (key st) of
                   Some v \<Rightarrow> nodeAt_from (before @ [st]) v sts
                 | None \<Rightarrow> Inl (HasNoKey (place before) (key st)))
            | _ \<Rightarrow> Inl (HasNoKeys (place before) (kindName n))))"

definition nodeAt :: "node \<Rightarrow> pathStep list \<Rightarrow> editError + node" where
  "nodeAt root steps = nodeAt_from [] root steps"

text \<open>\<open>nodeAt\<close> followed by a change of the node it returns; \<open>create\<close> adds missing keys.\<close>

fun updAt :: "bool \<Rightarrow> (node \<Rightarrow> editError + node) \<Rightarrow> pathStep list \<Rightarrow> node \<Rightarrow> pathStep list \<Rightarrow> editError + node" where
  "updAt create f before n [] = f n"
| "updAt create f before n (st # sts) =
     (if sel st
      then (case n of
              Seq t xs \<Rightarrow>
                (case findItem n st of
                   Inl e \<Rightarrow> Inl (ItemMissing (place before) e)
                 | Inr j \<Rightarrow> map_sum id (\<lambda>x. Seq t (xs[j := x])) (updAt create f (before @ [st]) (xs ! j) sts))
            | _ \<Rightarrow> Inl (NotList (place before)))
      else (case n of
              Map t es \<Rightarrow>
                (case lastIdx (key st) es of
                   Some i \<Rightarrow> map_sum id (\<lambda>x. Map t (es[i := (fst (es ! i), x)]))
                               (updAt create f (before @ [st]) (snd (es ! i)) sts)
                 | None \<Rightarrow>
                     if create
                     then map_sum id (\<lambda>x. Map t (es @ [(strNode (key st), x)]))
                            (updAt create f (before @ [st]) (Map ''!!map'' []) sts)
                     else Inl (HasNoKey (place before) (key st)))
            | _ \<Rightarrow> Inl (HasNoKeys (place before) (kindName n))))"

definition addItem :: "node \<Rightarrow> node \<Rightarrow> editError + node" where
  "addItem seq v =
     (case seq of
        Seq t xs \<Rightarrow>
          (case v of
             Map _ _ \<Rightarrow>
               (let k = (if seqKey seq = [] \<and> xs = [] \<and> mapIndex v ''name'' \<noteq> None then ''name'' else seqKey seq) in
                if k = [] then Inr (Seq t (xs @ [v]))
                else (case mapIndex v k of
                        Some (Scalar _ _ nm) \<Rightarrow>
                          if nm = [] then Inl (NeedsName k)
                          else (case findItem seq (selStep k nm) of
                                  Inr i \<Rightarrow> Inl (NameExists k nm)
                                | Inl e \<Rightarrow> Inr (Seq t (xs @ [v])))
                      | _ \<Rightarrow> Inl (NeedsName k)))
           | Scalar _ _ w \<Rightarrow>
               if \<exists>it \<in> set xs. isScalar it \<and> kval it = w then Inl (InListAlready w)
               else Inr (Seq t (xs @ [v]))
           | Seq _ _ \<Rightarrow> Inr (Seq t (xs @ [v])))
      | _ \<Rightarrow> Inl (NotAList (kindName seq)))"

text \<open>An edit; \<open>pvalue\<close> is what the method \<open>value\<close> returns: the decoded value or an error.\<close>

record patchOp =
  Op :: string
  Path :: string
  pvalue :: "string + node"

text \<open>The slot of the last step in its parent, changed by \<open>f\<close>; \<open>fresh\<close> is the value of a new key.\<close>

definition at_slot :: "(node \<Rightarrow> editError + node) \<Rightarrow> node \<Rightarrow> pathStep list \<Rightarrow> pathStep \<Rightarrow> node \<Rightarrow> editError + node" where
  "at_slot f fresh before lst parent =
     (if sel lst
      then (case parent of
              Seq t xs \<Rightarrow>
                (case findItem parent lst of
                   Inl e \<Rightarrow> Inl (ItemMissing [] e)
                 | Inr j \<Rightarrow> map_sum id (\<lambda>x. Seq t (xs[j := x])) (f (xs ! j)))
            | _ \<Rightarrow> Inl (NotList (fmtPath before)))
      else (case parent of
              Map t es \<Rightarrow>
                (case lastIdx (key lst) es of
                   Some i \<Rightarrow> map_sum id (\<lambda>x. Map t (es[i := (fst (es ! i), x)])) (f (snd (es ! i)))
                 | None \<Rightarrow> map_sum id (\<lambda>x. Map t (es @ [(strNode (key lst), x)])) (f fresh))
            | _ \<Rightarrow> Inl (HasNoKeys (fmtPath before) [])))"

definition del_slot :: "pathStep list \<Rightarrow> pathStep \<Rightarrow> node \<Rightarrow> editError + node" where
  "del_slot before lst parent =
     (if sel lst
      then (case parent of
              Seq t xs \<Rightarrow>
                (case findItem parent lst of
                   Inl e \<Rightarrow> Inl (ItemMissing [] e)
                 | Inr j \<Rightarrow> Inr (Seq t (take j xs @ drop (Suc j) xs)))
            | _ \<Rightarrow> Inl (NotList (fmtPath before)))
      else (case parent of
              Map t es \<Rightarrow>
                (case findIdx (\<lambda>e. kval (fst e) = key lst) es of
                   Some i \<Rightarrow> Inr (Map t (take i es @ drop (Suc i) es))
                 | None \<Rightarrow> Inl (HasNoKey [] (key lst)))
            | _ \<Rightarrow> Inl (HasNoKey [] (key lst))))"

definition applyOp :: "node \<Rightarrow> patchOp \<Rightarrow> editError + node" where
  "applyOp root op =
     (case parsePath (Path op) of
        Inl e \<Rightarrow> Inl (BadPath e)
      | Inr steps \<Rightarrow>
          if Op op = ''set'' \<or> Op op = ''add''
          then (case pvalue op of
                  Inl e \<Rightarrow> Inl (BadValue e)
                | Inr v \<Rightarrow>
                    updAt True
                      (if Op op = ''set'' then at_slot (\<lambda>_. Inr v) v (butlast steps) (last steps)
                       else at_slot (\<lambda>s. addItem s v) (Seq ''!!seq'' []) (butlast steps) (last steps))
                      [] root (butlast steps))
          else if Op op = ''del''
          then updAt False (del_slot (butlast steps) (last steps)) [] root (butlast steps)
          else Inl (UnknownOp (Op op)))"

text \<open>The edits of one request, in order; the first error ends them (the loop of \<open>editYAML\<close>).\<close>

fun applyOps :: "node \<Rightarrow> patchOp list \<Rightarrow> editError + node" where
  "applyOps root [] = Inr root"
| "applyOps root (op # ops) = (case applyOp root op of Inl e \<Rightarrow> Inl e | Inr r \<Rightarrow> applyOps r ops)"

function (sequential) pruneTo :: "node \<Rightarrow> node \<Rightarrow> node"
  and pruneM :: "(node \<times> node) list \<Rightarrow> node \<Rightarrow> (node \<times> node) list"
  and pruneS :: "node list \<Rightarrow> node list \<Rightarrow> node list" where
  "pruneTo (Map t es) (Map t' fs) = Map t (pruneM es (Map t' fs))"
| "pruneTo (Seq t xs) (Seq t' ys) = (if length xs \<noteq> length ys then Seq t xs else Seq t (pruneS xs ys))"
| "pruneTo full shape = full"
| "pruneM [] shape = []"
| "pruneM ((k, v) # es) shape =
     (case mapIndex shape (kval k) of None \<Rightarrow> pruneM es shape
      | Some s \<Rightarrow> (k, pruneTo v s) # pruneM es shape)"
| "pruneS (x # xs) (y # ys) = pruneTo x y # pruneS xs ys"
| "pruneS xs ys = xs"
  by pat_completeness auto
termination
  by (relation "measure (\<lambda>x. case x of
        Inl (a, _) \<Rightarrow> size a
      | Inr (Inl (es, _)) \<Rightarrow> size_list (size_prod size size) es
      | Inr (Inr (xs, _)) \<Rightarrow> size_list size xs)") auto

section \<open>Assignments and flat listings\<close>

fun splitAssign_from :: "int \<Rightarrow> bool \<Rightarrow> string \<Rightarrow> string \<Rightarrow> (string \<times> string) option" where
  "splitAssign_from depth q acc [] = None"
| "splitAssign_from depth q acc (c # cs) =
     (if q \<and> c = CHR 0x5C
      then (case cs of [] \<Rightarrow> None | d # ds \<Rightarrow> splitAssign_from depth q (acc @ [c, d]) ds)
      else if c = CHR 0x22 then splitAssign_from depth (\<not> q) (acc @ [c]) cs
      else if q then splitAssign_from depth q (acc @ [c]) cs
      else if c = CHR ''['' then splitAssign_from (depth + 1) q (acc @ [c]) cs
      else if c = CHR '']'' then splitAssign_from (depth - 1) q (acc @ [c]) cs
      else if c = CHR ''='' \<and> depth = 0 then Some (acc, cs)
      else splitAssign_from depth q (acc @ [c]) cs)"

definition splitAssign :: "string \<Rightarrow> (string \<times> string) option" where
  "splitAssign s = splitAssign_from 0 False [] s"

text \<open>The label of item \<open>i\<close> of a list in a flat listing.\<close>

definition itemSel :: "string \<Rightarrow> nat \<Rightarrow> node \<Rightarrow> string" where
  "itemSel k i it = (if k \<noteq> [] then fmtSel (keyval k it) else Itoa_nat i)"

function (sequential) flatLines :: "node \<Rightarrow> string \<Rightarrow> string list"
  and flatEntries :: "(node \<times> node) list \<Rightarrow> string \<Rightarrow> string list"
  and flatItems :: "string \<Rightarrow> nat \<Rightarrow> node list \<Rightarrow> string \<Rightarrow> string list" where
  "flatLines (Map t es) path =
     (if es \<noteq> [] then flatEntries es path else [path @ ''='' @ renderFlow (Map t es)])"
| "flatLines (Seq t xs) path =
     (if \<not> isInline (Seq t xs) then flatItems (seqKey (Seq t xs)) 0 xs path
      else [path @ ''='' @ renderFlow (Seq t xs)])"
| "flatLines (Scalar t q v) path = [path @ ''='' @ renderFlow (Scalar t q v)]"
| "flatEntries [] path = []"
| "flatEntries ((k, v) # es) path =
     flatLines v (if path \<noteq> [] then path @ ''.'' @ fmtKey (kval k) else fmtKey (kval k)) @ flatEntries es path"
| "flatItems k i [] path = []"
| "flatItems k i (it # its) path =
     flatLines it (path @ ''['' @ itemSel k i it @ '']'') @ flatItems k (Suc i) its path"
  by pat_completeness auto
termination
  by (relation "measure (\<lambda>x. case x of
        Inl (a, _) \<Rightarrow> size a
      | Inr (Inl (es, _)) \<Rightarrow> size_list (size_prod size size) es
      | Inr (Inr (_, _, xs, _)) \<Rightarrow> size_list size xs)") auto

section \<open>The paths written are read back\<close>

definition wf_step :: "pathStep \<Rightarrow> bool" where
  "wf_step st \<longleftrightarrow> st = keyStep (key st) \<or> (st = selStep (selK st) (val st) \<and> list_all identChar (selK st))"

definition wf_path :: "pathStep list \<Rightarrow> bool" where
  "wf_path steps \<longleftrightarrow> steps \<noteq> [] \<and> \<not> sel (hd steps) \<and> list_all wf_step steps"

lemma step_sels [simp]:
  "key (keyStep k) = k" "sel (keyStep k) = False" "selK (keyStep k) = []" "val (keyStep k) = []"
  "key (selStep k v) = []" "sel (selStep k v) = True" "selK (selStep k v) = k" "val (selStep k v) = v"
  by (simp_all add: keyStep_def selStep_def)

lemma startsWith_simps [simp]: "startsWith [] c = False" "startsWith (x # xs) c = (x = c)"
  by (simp_all add: startsWith_def)

lemma Quote_head: "\<exists>t. Quote s = CHR 0x22 # t"
  by (simp add: Quote_def)

lemma Quote_nonempty [simp]: "Quote s \<noteq> []" "startsWith (Quote s @ r) CHR 0x22"
  by (simp_all add: Quote_def)

lemma plainKeyChar_not_delim: "plainKeyChar c \<Longrightarrow> \<not> keyDelim c"
  by (auto simp: plainKeyChar_def identChar_def keyDelim_def byte_def)

text \<open>What may follow a step in a path.\<close>

definition step_start :: "string \<Rightarrow> bool" where
  "step_start r \<longleftrightarrow> r = [] \<or> hd r = CHR ''.'' \<or> hd r = CHR ''[''"

lemma takeWhile_key:
  assumes "list_all plainKeyChar k" "step_start r"
  shows "takeWhile (\<lambda>c. \<not> keyDelim c) (k @ r) = k"
proof -
  have "takeWhile (\<lambda>c. \<not> keyDelim c) r = []"
    using assms(2) by (cases r) (auto simp: step_start_def keyDelim_def byte_def)
  moreover have "\<forall>c \<in> set k. \<not> keyDelim c"
    using assms(1) by (auto simp: list_all_iff plainKeyChar_not_delim)
  ultimately show ?thesis by (simp add: takeWhile_append2)
qed

lemma parse_key_fmtKey:
  assumes "step_start r"
  shows "\<exists>i'. parse_key i (fmtKey k @ r) = Inr (keyStep k, i', r)"
proof (cases "list_all plainKeyChar k \<and> k \<noteq> []")
  case True
  then have "plainKeyChar (hd k)" by (cases k) auto
  then have "\<not> startsWith (k @ r) CHR 0x22"
    using True by (cases k) (auto simp: plainKeyChar_def identChar_def byte_def)
  then show ?thesis using True takeWhile_key [OF _ assms, of k]
    by (simp add: fmtKey_def parse_key_def)
next
  case False
  then have "fmtKey k = Quote k" by (auto simp: fmtKey_def Quote_def)
  then show ?thesis by (simp add: parse_key_def UnquotePrefix_Quote)
qed

lemma takeWhile_val:
  assumes "CHR '']'' \<notin> set v"
  shows "takeWhile (\<lambda>c. c \<noteq> CHR '']'') (v @ CHR '']'' # r) = v"
  using assms by (induction v) auto

text \<open>The value of a selector after its key.\<close>

definition parse_val :: "string \<Rightarrow> nat \<Rightarrow> string \<Rightarrow> pathError + pathStep \<times> nat \<times> string" where
  "parse_val k i1 s1 =
     (if startsWith s1 CHR 0x22
         then (case UnquotePrefix s1 of
                 None \<Rightarrow> Inl (BadQuoted (i1 + 1))
               | Some (v, r2) \<Rightarrow> close_sel (selStep k v) (i1 + (length s1 - length r2)) r2)
         else if CHR '']'' \<notin> set s1 then Inl MissingBracket
         else (let v = takeWhile (\<lambda>c. c \<noteq> CHR '']'') s1
               in if v = [] then Inl (EmptySel i1)
                  else close_sel (selStep k v) (i1 + length v) (drop (length v) s1)))"

lemma parse_sel_val:
  "parse_sel i s =
     (if takeWhile identChar s \<noteq> [] \<and> startsWith (dropWhile identChar s) CHR ''=''
      then parse_val (takeWhile identChar s) (i + length (takeWhile identChar s) + 1) (tl (dropWhile identChar s))
      else parse_val [] i s)"
  by (simp add: parse_sel_def parse_val_def Let_def)

lemma parse_val_fmtSel: "\<exists>i'. parse_val k i (fmtSel v @ CHR '']'' # r) = Inr (selStep k v, i', r)"
proof (cases "fmtSel v = Quote v")
  case True
  then show ?thesis by (simp add: parse_val_def UnquotePrefix_Quote close_sel_def)
next
  case False
  then have v: "fmtSel v = v" "v \<noteq> []" and c: "\<not> containsAny v [91, 93, 34, 61]"
    by (auto simp: fmtSel_def split: if_splits)
  have "CHR '']'' \<notin> set v" using c by (auto simp: containsAny_def)
  moreover have "\<not> startsWith (v @ CHR '']'' # r) CHR 0x22"
    using v c by (cases v) (auto simp: containsAny_def)
  ultimately show ?thesis using v takeWhile_val [of v r]
    by (simp add: parse_val_def close_sel_def)
qed

lemma fmtSel_no_eq: "takeWhile identChar (fmtSel v @ CHR '']'' # r) = [] \<or>
    \<not> startsWith (dropWhile identChar (fmtSel v @ CHR '']'' # r)) CHR ''=''"
proof (cases "fmtSel v = Quote v")
  case True
  then show ?thesis using Quote_head [of v] by (auto simp: identChar_def byte_def)
next
  case False
  then have v: "fmtSel v = v" and c: "\<not> containsAny v [91, 93, 34, 61]"
    by (auto simp: fmtSel_def split: if_splits)
  have "CHR ''='' \<notin> set v" using c by (auto simp: containsAny_def)
  then have "\<not> startsWith (dropWhile identChar (v @ CHR '']'' # r)) CHR ''=''"
    by (induction v) (auto simp: identChar_def byte_def)
  then show ?thesis using v by simp
qed

lemma identChar_eq [simp]: "\<not> identChar CHR ''=''"
  by (simp add: identChar_def byte_def)

lemma parse_sel_fmt:
  assumes "list_all identChar k"
  shows "\<exists>i'. parse_sel i ((if k \<noteq> [] then k @ ''='' else []) @ fmtSel v @ CHR '']'' # r) = Inr (selStep k v, i', r)"
proof (cases "k = []")
  case True
  then show ?thesis using fmtSel_no_eq [of v r] parse_val_fmtSel [of "[]" i v r]
    by (auto simp: parse_sel_val)
next
  case False
  have "\<forall>c \<in> set k. identChar c" using assms by (simp add: list_all_iff)
  then have "takeWhile identChar (k @ CHR ''='' # fmtSel v @ CHR '']'' # r) = k"
    "dropWhile identChar (k @ CHR ''='' # fmtSel v @ CHR '']'' # r) = CHR ''='' # fmtSel v @ CHR '']'' # r"
    by (simp_all add: takeWhile_append2 dropWhile_append2)
  then show ?thesis using False parse_val_fmtSel [of k "i + length k + 1" v r]
    by (simp add: parse_sel_val)
qed

abbreviation fmt_rest :: "pathStep list \<Rightarrow> string" where
  "fmt_rest sts \<equiv> concat (map (fmtStep False) sts)"

lemma fmt_rest_start: "step_start (fmt_rest sts)"
  by (cases sts) (auto simp: step_start_def fmtStep_def)

lemma fmtStep_simps [simp]:
  "fmtStep b (selStep k v) = CHR ''['' # (if k \<noteq> [] then k @ ''='' else []) @ fmtSel v @ '']''"
  "fmtStep b (keyStep k) = (if b then [] else ''.'') @ fmtKey k"
  by (simp_all add: fmtStep_def)

lemma parse_steps_sel:
  "parse_sel (i + 1) cs = Inr (st, i', r) \<Longrightarrow>
   parse_steps i True (CHR ''['' # cs) = map_sum id ((#) st) (parse_steps i' True r)"
  by (subst parse_steps.simps) simp

lemma parse_steps_dot:
  "parse_key (i + 1) cs = Inr (st, i', r) \<Longrightarrow>
   parse_steps i True (CHR ''.'' # cs) = map_sum id ((#) st) (parse_steps i' True r)"
  by (subst parse_steps.simps) simp

lemma parse_steps_fmt: "list_all wf_step sts \<Longrightarrow> parse_steps i True (fmt_rest sts) = Inr sts"
proof (induction sts arbitrary: i)
  case Nil
  then show ?case by (simp add: parse_steps.simps [of i])
next
  case (Cons st sts)
  show ?case
  proof (cases "sel st")
    case True
    then obtain k v where st: "st = selStep k v" "list_all identChar k"
      using Cons.prems by (auto simp: wf_step_def) (metis step_sels(2))
    obtain i' where "parse_sel (i + 1) ((if k \<noteq> [] then k @ ''='' else []) @ fmtSel v @ CHR '']'' # fmt_rest sts)
        = Inr (st, i', fmt_rest sts)"
      using parse_sel_fmt [OF st(2)] st(1) by metis
    from parse_steps_sel [OF this] show ?thesis using Cons by (simp add: st)
  next
    case False
    then obtain k where st: "st = keyStep k"
      using Cons.prems by (auto simp: wf_step_def) (metis step_sels(6))
    obtain i' where "parse_key (i + 1) (fmtKey k @ fmt_rest sts) = Inr (st, i', fmt_rest sts)"
      using parse_key_fmtKey [OF fmt_rest_start] st by metis
    from parse_steps_dot [OF this] show ?thesis using Cons by (simp add: st)
  qed
qed

lemma fmtKey_nonempty [simp]: "fmtKey k \<noteq> []"
  by (simp add: fmtKey_def)

lemma fmtPath_Cons: "fmtPath (st # sts) = fmtStep True st @ fmt_rest sts"
proof -
  have "concat (map (\<lambda>(i, st). fmtStep (i = 0) st) (zip [Suc n..<Suc n + length sts] sts)) = fmt_rest sts" for n
  proof (induction sts arbitrary: n)
    case (Cons st sts)
    from Cons.IH [of "Suc n"] show ?case by (simp add: upt_conv_Cons del: upt_Suc)
  qed simp
  from this [of 0] show ?thesis
    by (simp add: fmtPath_def upt_conv_Cons del: upt_Suc)
qed

lemma parsePath_fmtPath:
  assumes "wf_path steps"
  shows "parsePath (fmtPath steps) = Inr steps"
proof -
  obtain st sts where steps: "steps = st # sts" using assms by (cases steps) (auto simp: wf_path_def)
  then have w: "wf_step st" "list_all wf_step sts" "\<not> sel st" using assms by (auto simp: wf_path_def)
  then obtain k where st: "st = keyStep k" by (auto simp: wf_step_def) (metis step_sels(6))
  obtain i' where i': "parse_key 0 (fmtKey k @ fmt_rest sts) = Inr (st, i', fmt_rest sts)"
    using parse_key_fmtKey [OF fmt_rest_start] st by metis
  obtain c cs where "fmtKey k @ fmt_rest sts = c # cs" using fmtKey_nonempty [of k] by (cases "fmtKey k") auto
  then have "parse_steps 0 False (fmtKey k @ fmt_rest sts) = Inr (st # sts)"
    using i' parse_steps_fmt [OF w(2), of i'] by (simp add: parse_steps.simps [of 0 False])
  then show ?thesis by (simp add: parsePath_def steps fmtPath_Cons st)
qed

interpretation paths: codec fmtPath "\<lambda>s. case parsePath s of Inr sts \<Rightarrow> Some sts | Inl _ \<Rightarrow> None" wf_path
  by unfold_locales (simp add: parsePath_fmtPath)

text \<open>
  C32. The syntax of paths is unambiguous: \<open>parsePath\<close> reads what \<open>fmtPath\<close> writes for a path back as
  the same steps, for every key and every value, whatever characters they hold (dots, brackets, quotes,
  blanks, nothing at all).
\<close>

theorem path_roundtrip:
  assumes "wf_path steps"
  shows "parsePath (fmtPath steps) = Inr steps"
  using assms by (rule parsePath_fmtPath)

theorem path_roundtrip_witness:
  "parsePath (fmtPath [keyStep ''sysctl'', keyStep ''net.core'', selStep ''mac'' ''a]b'', selStep [] ''x y'', keyStep []])
     = Inr [keyStep ''sysctl'', keyStep ''net.core'', selStep ''mac'' ''a]b'', selStep [] ''x y'', keyStep []]"
  by (rule path_roundtrip) (simp add: wf_path_def wf_step_def identChar_def byte_def)

section \<open>Places in a tree\<close>

text \<open>A place is the list of positions that leads to it: the value of an entry or an item.\<close>

fun sub :: "node \<Rightarrow> nat list \<Rightarrow> node option" where
  "sub n [] = Some n"
| "sub (Seq t xs) (i # p) = (if i < length xs then sub (xs ! i) p else None)"
| "sub (Map t es) (i # p) = (if i < length es then sub (snd (es ! i)) p else None)"
| "sub (Scalar t q v) (i # p) = None"

text \<open>The place a path addresses; a key that is missing comes after the entries there are.\<close>

fun locate :: "node \<Rightarrow> pathStep list \<Rightarrow> nat list" where
  "locate n [] = []"
| "locate n (st # sts) =
     (if sel st
      then (case findItem n st of Inr j \<Rightarrow> j # locate (items n ! j) sts | Inl e \<Rightarrow> [])
      else (case n of
              Map t es \<Rightarrow>
                (case lastIdx (key st) es of
                   Some i \<Rightarrow> i # locate (snd (es ! i)) sts
                 | None \<Rightarrow> length es # locate (Map ''!!map'' []) sts)
            | _ \<Rightarrow> []))"

lemma findIdx_SomeD: "findIdx P xs = Some i \<Longrightarrow> i < length xs \<and> P (xs ! i) \<and> (\<forall>j < i. \<not> P (xs ! j))"
proof (induction xs arbitrary: i)
  case (Cons x xs)
  show ?case
  proof (cases "P x")
    case False
    then obtain j where "findIdx P xs = Some j" "i = Suc j" using Cons.prems by auto
    then show ?thesis using Cons.IH [of j] False by (auto simp: nth_Cons split: nat.splits)
  qed (use Cons.prems in simp)
qed simp

lemma findIdx_None_iff: "findIdx P xs = None \<longleftrightarrow> (\<forall>x \<in> set xs. \<not> P x)"
  by (induction xs) auto

lemma findIdx_unique:
  assumes "i < length xs" "P (xs ! i)" "\<And>j. j < i \<Longrightarrow> \<not> P (xs ! j)"
  shows "findIdx P xs = Some i"
proof (cases "findIdx P xs")
  case None
  then show ?thesis using assms by (auto simp: findIdx_None_iff)
next
  case (Some j)
  then show ?thesis using findIdx_SomeD [OF Some] assms by (metis linorder_neqE_nat)
qed

lemma findItem_bound: "findItem n st = Inr j \<Longrightarrow> j < length (items n)"
  by (auto simp: findItem_def Let_def dest!: findIdx_SomeD split: option.splits if_splits)

lemma findItem_Seq: "findItem n st = Inr j \<Longrightarrow> \<exists>t xs. n = Seq t xs \<and> j < length xs"
  by (frule findItem_bound) (cases n; simp)

lemma lastIdx_SomeD:
  assumes "lastIdx k es = Some i"
  shows "i < length es" "kval (fst (es ! i)) = k" "mapIndex (Map t es) k = Some (snd (es ! i))"
proof -
  obtain j where j: "findIdx (\<lambda>e. kval (fst e) = k) (rev es) = Some j" "i = length es - 1 - j"
    using assms by (auto simp: lastIdx_def)
  note d = findIdx_SomeD [OF j(1)]
  show "i < length es" using d j by auto
  have r: "rev es ! j = es ! i" using d j(2) rev_nth [of j es] by simp
  show "kval (fst (es ! i)) = k" using d r by simp
  have "map_of (map (\<lambda>(k, v). (kval k, v)) xs) k = Some (snd (xs ! j))"
    if "findIdx (\<lambda>e. kval (fst e) = k) xs = Some j" for xs :: "(node \<times> node) list" and j
    using that by (induction xs arbitrary: j) (auto split: if_splits)
  from this [OF j(1)] show "mapIndex (Map t es) k = Some (snd (es ! i))"
    using r by (simp add: mapIndex_def rev_map)
qed

lemma lastIdx_None: "lastIdx k es = None \<longleftrightarrow> mapIndex (Map t es) k = None"
  by (force simp: lastIdx_def findIdx_None_iff mapIndex_None_iff)

text \<open>A read goes to the place of the path.\<close>

lemma nodeAt_locate: "nodeAt_from before n sts = Inr m \<Longrightarrow> sub n (locate n sts) = Some m"
proof (induction sts arbitrary: before n)
  case (Cons st sts)
  show ?case
  proof (cases "sel st")
    case True
    then obtain t xs j where "n = Seq t xs" "findItem n st = Inr j"
      "nodeAt_from (before @ [st]) (xs ! j) sts = Inr m"
      using Cons.prems by (auto split: node.splits sum.splits)
    then show ?thesis using Cons.IH True findItem_bound [of n st j] by auto
  next
    case False
    then obtain t es v where n: "n = Map t es" "mapIndex n (key st) = Some v"
      "nodeAt_from (before @ [st]) v sts = Inr m"
      using Cons.prems by (auto split: node.splits option.splits)
    then obtain i where i: "lastIdx (key st) es = Some i" using lastIdx_None [of "key st" es t] by (cases "lastIdx (key st) es") auto
    then show ?thesis using lastIdx_SomeD [OF i] n Cons.IH False by auto
  qed
qed simp

section \<open>Set changes one place\<close>

definition same_elsewhere :: "nat list \<Rightarrow> node \<Rightarrow> node \<Rightarrow> bool" where
  "same_elsewhere p n n' \<longleftrightarrow> (\<forall>q. \<not> prefix p q \<and> \<not> prefix q p \<longrightarrow> sub n' q = sub n q)"

lemma same_elsewhere_Seq:
  assumes "same_elsewhere p (xs ! j) x" "j < length xs"
  shows "same_elsewhere (j # p) (Seq t xs) (Seq t (xs[j := x]))"
  unfolding same_elsewhere_def
proof (intro allI impI)
  fix q
  assume q: "\<not> prefix (j # p) q \<and> \<not> prefix q (j # p)"
  then obtain i q' where "q = i # q'" by (cases q) auto
  then show "sub (Seq t (xs[j := x])) q = sub (Seq t xs) q"
    using assms q by (cases "i = j") (auto simp: same_elsewhere_def)
qed

lemma same_elsewhere_Map:
  assumes "same_elsewhere p (snd (es ! j)) x" "j < length es"
  shows "same_elsewhere (j # p) (Map t es) (Map t (es[j := (k, x)]))"
  unfolding same_elsewhere_def
proof (intro allI impI)
  fix q
  assume q: "\<not> prefix (j # p) q \<and> \<not> prefix q (j # p)"
  then obtain i q' where "q = i # q'" by (cases q) auto
  then show "sub (Map t (es[j := (k, x)])) q = sub (Map t es) q"
    using assms q by (cases "i = j") (auto simp: same_elsewhere_def)
qed

lemma same_elsewhere_new:
  assumes "same_elsewhere p (Map ''!!map'' []) x \<or> p = []"
  shows "same_elsewhere (length es # p) (Map t es) (Map t (es @ [(k, x)]))"
  unfolding same_elsewhere_def
proof (intro allI impI)
  fix q
  assume q: "\<not> prefix (length es # p) q \<and> \<not> prefix q (length es # p)"
  then obtain i q' where i: "q = i # q'" by (cases q) auto
  show "sub (Map t (es @ [(k, x)])) q = sub (Map t es) q"
  proof (cases "i = length es")
    case True
    then have "\<not> prefix p q' \<and> \<not> prefix q' p" using q i by auto
    then have "sub x q' = sub (Map ''!!map'' []) q'" "q' \<noteq> []" using assms by (auto simp: same_elsewhere_def)
    then show ?thesis using i True by (cases q') auto
  qed (use i in \<open>auto simp: nth_append\<close>)
qed

lemma updAt_elsewhere:
  "updAt create f before n sts = Inr n' \<Longrightarrow> same_elsewhere (locate n sts) n n'"
proof (induction sts arbitrary: before n n')
  case Nil
  then show ?case by (simp add: same_elsewhere_def)
next
  case (Cons st sts)
  show ?case
  proof (cases "sel st")
    case True
    then obtain t xs j x where n: "n = Seq t xs" "findItem n st = Inr j" "n' = Seq t (xs[j := x])"
      and u: "updAt create f (before @ [st]) (xs ! j) sts = Inr x"
      using Cons.prems by (cases n) (auto split: sum.splits simp: map_sum_def)
    show ?thesis using same_elsewhere_Seq [OF Cons.IH [OF u], of t] findItem_bound [OF n(2)] n True by simp
  next
    case False
    then obtain t es where n: "n = Map t es" using Cons.prems by (cases n) auto
    show ?thesis
    proof (cases "lastIdx (key st) es")
      case (Some i)
      then obtain x where n': "n' = Map t (es[i := (fst (es ! i), x)])"
        and u: "updAt create f (before @ [st]) (snd (es ! i)) sts = Inr x"
        using Cons.prems False n by (auto split: sum.splits simp: map_sum_def)
      show ?thesis using same_elsewhere_Map [OF Cons.IH [OF u], of t] lastIdx_SomeD [OF Some] n n' False Some by simp
    next
      case None
      then obtain x where n': "n' = Map t (es @ [(strNode (key st), x)])"
        and u: "updAt create f (before @ [st]) (Map ''!!map'' []) sts = Inr x"
        using Cons.prems False n by (auto split: sum.splits if_splits simp: map_sum_def)
      show ?thesis using same_elsewhere_new [of _ x] Cons.IH [OF u] n n' False None by simp
    qed
  qed
qed

lemma updAt_target:
  "updAt create (\<lambda>_. Inr v) before n sts = Inr n' \<Longrightarrow> sub n' (locate n sts) = Some v"
proof (induction sts arbitrary: before n n')
  case (Cons st sts)
  show ?case
  proof (cases "sel st")
    case True
    then obtain t xs j x where n: "n = Seq t xs" "findItem n st = Inr j" "n' = Seq t (xs[j := x])"
      and u: "updAt create (\<lambda>_. Inr v) (before @ [st]) (xs ! j) sts = Inr x"
      using Cons.prems by (cases n) (auto split: sum.splits simp: map_sum_def)
    show ?thesis using Cons.IH [OF u] findItem_bound [OF n(2)] n True by simp
  next
    case False
    then obtain t es where n: "n = Map t es" using Cons.prems by (cases n) auto
    show ?thesis
    proof (cases "lastIdx (key st) es")
      case (Some i)
      then obtain x where n': "n' = Map t (es[i := (fst (es ! i), x)])"
        and u: "updAt create (\<lambda>_. Inr v) (before @ [st]) (snd (es ! i)) sts = Inr x"
        using Cons.prems False n by (auto split: sum.splits simp: map_sum_def)
      show ?thesis using Cons.IH [OF u] lastIdx_SomeD [OF Some] n n' False Some by simp
    next
      case None
      then obtain x where n': "n' = Map t (es @ [(strNode (key st), x)])"
        and u: "updAt create (\<lambda>_. Inr v) (before @ [st]) (Map ''!!map'' []) sts = Inr x"
        using Cons.prems False n by (auto split: sum.splits if_splits simp: map_sum_def)
      show ?thesis using Cons.IH [OF u] n n' False None by simp
    qed
  qed
qed simp

text \<open>A \<open>set\<close> replaces the node its whole path leads to.\<close>

lemma set_as_updAt:
  "updAt True (at_slot (\<lambda>_. Inr v) v pre lst) before n sts = Inr n' \<Longrightarrow>
   updAt True (\<lambda>_. Inr v) before n (sts @ [lst]) = Inr n'"
proof (induction sts arbitrary: before n n')
  case Nil
  then show ?case
    by (cases n) (auto simp: at_slot_def split: if_splits sum.splits option.splits)
next
  case (Cons st sts)
  show ?case
  proof (cases "sel st")
    case True
    then obtain t xs j x where n: "n = Seq t xs" "findItem n st = Inr j" "n' = Seq t (xs[j := x])"
      and u: "updAt True (at_slot (\<lambda>_. Inr v) v pre lst) (before @ [st]) (xs ! j) sts = Inr x"
      using Cons.prems by (cases n) (auto split: sum.splits simp: map_sum_def)
    show ?thesis using Cons.IH [OF u] n True by simp
  next
    case False
    then obtain t es where n: "n = Map t es" using Cons.prems by (cases n) auto
    show ?thesis
    proof (cases "lastIdx (key st) es")
      case (Some i)
      then obtain x where n': "n' = Map t (es[i := (fst (es ! i), x)])"
        and u: "updAt True (at_slot (\<lambda>_. Inr v) v pre lst) (before @ [st]) (snd (es ! i)) sts = Inr x"
        using Cons.prems False n by (auto split: sum.splits simp: map_sum_def)
      show ?thesis using Cons.IH [OF u] n n' False Some by simp
    next
      case None
      then obtain x where n': "n' = Map t (es @ [(strNode (key st), x)])"
        and u: "updAt True (at_slot (\<lambda>_. Inr v) v pre lst) (before @ [st]) (Map ''!!map'' []) sts = Inr x"
        using Cons.prems False n by (auto split: sum.splits if_splits simp: map_sum_def)
      show ?thesis using Cons.IH [OF u] n n' False None by simp
    qed
  qed
qed

lemma parse_nonempty: "parsePath p = Inr steps \<Longrightarrow> steps \<noteq> []"
  by (auto simp: parsePath_def split: sum.splits list.splits)

lemma applyOp_set:
  assumes "applyOp root op = Inr root'" "Op op = ''set''" "parsePath (Path op) = Inr steps"
  obtains v where "pvalue op = Inr v" "updAt True (\<lambda>_. Inr v) [] root steps = Inr root'"
proof -
  obtain v where v: "pvalue op = Inr v"
    and u: "updAt True (at_slot (\<lambda>_. Inr v) v (butlast steps) (last steps)) [] root (butlast steps) = Inr root'"
    using assms by (auto simp: applyOp_def split: sum.splits)
  have "butlast steps @ [last steps] = steps" using parse_nonempty [OF assms(3)] by simp
  then show thesis using that [OF v] set_as_updAt [OF u] by simp
qed

lemma lastIdx_fst: "map fst es = map fst fs \<Longrightarrow> lastIdx k es = lastIdx k fs"
proof -
  have m: "findIdx (\<lambda>e. kval (fst e) = k) xs = findIdx (\<lambda>e. kval e = k) (map fst xs)"
    for xs :: "(node \<times> node) list"
    by (induction xs) auto
  assume "map fst es = map fst fs"
  then show ?thesis by (simp add: lastIdx_def m flip: rev_map) (metis length_map)
qed

lemma mapIndex_update:
  assumes "lastIdx k es = Some i"
  shows "mapIndex (Map t (es[i := (fst (es ! i), x)])) k = Some x"
proof -
  have "map fst (es[i := (fst (es ! i), x)]) = map fst es"
    by (simp add: map_update) (metis list_update_id map_update)
  then have "lastIdx k (es[i := (fst (es ! i), x)]) = Some i" using assms lastIdx_fst by metis
  from lastIdx_SomeD(3) [OF this, of t] show ?thesis using lastIdx_SomeD [OF assms] by simp
qed

lemma kval_strNode [simp]: "kval (strNode k) = k"
  by (simp add: strNode_def)

lemma set_then_read:
  "updAt True (\<lambda>_. Inr v) before n sts = Inr n' \<Longrightarrow> list_all (\<lambda>st. \<not> sel st) sts \<Longrightarrow>
   nodeAt_from before' n' sts = Inr v"
proof (induction sts arbitrary: before before' n n')
  case (Cons st sts)
  then have k: "\<not> sel st" by simp
  then obtain t es where n: "n = Map t es" using Cons.prems by (cases n) auto
  show ?case
  proof (cases "lastIdx (key st) es")
    case (Some i)
    then obtain x where n': "n' = Map t (es[i := (fst (es ! i), x)])"
      and u: "updAt True (\<lambda>_. Inr v) (before @ [st]) (snd (es ! i)) sts = Inr x"
      using Cons.prems k n by (auto split: sum.splits simp: map_sum_def)
    show ?thesis using Cons.IH [OF u] Cons.prems n' k by (simp add: mapIndex_update [OF Some])
  next
    case None
    then obtain x where n': "n' = Map t (es @ [(strNode (key st), x)])"
      and u: "updAt True (\<lambda>_. Inr v) (before @ [st]) (Map ''!!map'' []) sts = Inr x"
      using Cons.prems k n by (auto split: sum.splits if_splits simp: map_sum_def)
    show ?thesis using Cons.IH [OF u] Cons.prems n' k by (simp add: mapIndex_snoc)
  qed
qed simp

text \<open>
  C34. \<open>set\<close> changes the place its path addresses to the value given, and every other place of the tree
  keeps its value: only places on the way to it and below it differ. Where the path could be read
  before, that is the place the read went to; and a path of keys reads back the value.
\<close>

theorem set_only_target:
  assumes "applyOp root op = Inr root'" "Op op = ''set''" "parsePath (Path op) = Inr steps"
  shows "\<exists>v. pvalue op = Inr v
           \<and> sub root' (locate root steps) = Some v
           \<and> (\<forall>q. \<not> prefix (locate root steps) q \<and> \<not> prefix q (locate root steps) \<longrightarrow> sub root' q = sub root q)
           \<and> (\<forall>m. nodeAt root steps = Inr m \<longrightarrow> sub root (locate root steps) = Some m)
           \<and> (list_all (\<lambda>st. \<not> sel st) steps \<longrightarrow> nodeAt root' steps = Inr v)"
proof -
  obtain v where v: "pvalue op = Inr v" and u: "updAt True (\<lambda>_. Inr v) [] root steps = Inr root'"
    using applyOp_set [OF assms] .
  show ?thesis
    using v updAt_target [OF u] updAt_elsewhere [OF u] set_then_read [OF u] nodeAt_locate
    by (auto simp: same_elsewhere_def nodeAt_def)
qed

definition demo_tree :: node where
  "demo_tree =
     Map ''!!map''
       [(strNode ''system'', Map ''!!map'' [(strNode ''hostname'', strNode ''r1'')]),
        (strNode ''ports'', Seq ''!!seq''
           [Map ''!!map'' [(strNode ''name'', strNode ''web''), (strNode ''port'', strNode ''80'')],
            Map ''!!map'' [(strNode ''name'', strNode ''ssh''), (strNode ''port'', strNode ''22'')]])]"

theorem set_only_target_witness:
  "\<exists>root'. applyOp demo_tree \<lparr>Op = ''set'', Path = ''ports[ssh].port'', pvalue = Inr (strNode ''23'')\<rparr> = Inr root'
     \<and> sub root' [1, 1, 1] = Some (strNode ''23'') \<and> sub root' [1, 0, 1] = Some (strNode ''80'')"
proof -
  let ?op = "\<lparr>Op = ''set'', Path = ''ports[ssh].port'', pvalue = Inr (strNode ''23'')\<rparr>"
  let ?steps = "[keyStep ''ports'', selStep [] ''ssh'', keyStep ''port'']"
  have p: "parsePath (Path ?op) = Inr ?steps" by code_simp
  have l: "locate demo_tree ?steps = [1, 1, 1]" by code_simp
  have o: "sub demo_tree [1, 0, 1] = Some (strNode ''80'')" by code_simp
  have "\<not> isl (applyOp demo_tree ?op)" by code_simp
  then obtain root' where r: "applyOp demo_tree ?op = Inr root'" by (cases "applyOp demo_tree ?op") auto
  from set_only_target [OF r _ p] show ?thesis using r l o by auto
qed

section \<open>Lists whose items have names\<close>

lemma listID_self: "listID n n = (case find (\<lambda>k. uniqueScalar k [] (items n)) idKeys of Some k \<Rightarrow> k | None \<Rightarrow> [])"
  by (simp add: listID_def)

lemma seqKey_listID: "seqKey n = k \<Longrightarrow> k \<noteq> [] \<Longrightarrow> listID n n = k \<and> items n \<noteq> []"
  by (auto simp: seqKey_def split: list.splits if_splits)

lemma keyed_match: "keyed k it \<Longrightarrow> hasName k w it \<longleftrightarrow> keyval k it = w"
  by (auto simp: hasName_def keyed_def keyval_def split: option.splits node.splits)

text \<open>An item of a list with names is found under its name.\<close>

lemma findItem_name:
  assumes k: "seqKey n = k" "k \<noteq> []" and i: "i < length (items n)"
  shows "findItem n (selStep [] (keyval k (items n ! i))) = Inr i"
proof -
  have id: "listID n n = k" using seqKey_listID [OF k] by simp
  have ky: "\<forall>j < length (items n). keyed k (items n ! j)" and d: "distinct (map (keyval k) (items n))"
    using listID_keyed [OF id k(2)] by (auto simp: list_all_length)
  have "findIdx (hasName k (keyval k (items n ! i))) (items n) = Some i"
  proof (rule findIdx_unique [OF i])
    show "hasName k (keyval k (items n ! i)) (items n ! i)" using ky i by (simp add: keyed_match)
  next
    fix j assume "j < i"
    then have "keyval k (items n ! j) \<noteq> keyval k (items n ! i)"
      using nth_eq_iff_index_eq [OF d, of j i] i by auto
    then show "\<not> hasName k (keyval k (items n ! i)) (items n ! j)"
      using ky i \<open>j < i\<close> by (simp add: keyed_match)
  qed
  then show ?thesis using k by (simp add: findItem_def)
qed

lemma findItem_no_name:
  assumes "findItem n (selStep k nm) = Inl e" "k \<noteq> []" "list_all (keyed k) (items n)"
  shows "nm \<notin> set (map (keyval k) (items n))"
proof -
  have "findIdx (hasName k nm) (items n) = None"
    using assms(1,2) by (simp add: findItem_def Let_def split: option.splits)
  then show ?thesis using assms(3) by (auto simp: findIdx_None_iff list_all_iff keyed_match)
qed

lemma seqKey_snoc:
  assumes k: "seqKey (Seq t xs) = k" "k \<noteq> []" and v: "keyed k v" "keyval k v \<notin> set (map (keyval k) xs)"
  shows "seqKey (Seq t (xs @ [v])) = k"
proof -
  have ne: "xs \<noteq> []" and id: "listID (Seq t xs) (Seq t xs) = k" using seqKey_listID [OF k] by auto
  then have "find (\<lambda>k. uniqueScalar k [] xs) idKeys = Some k"
    using k(2) by (auto simp: listID_self split: option.splits)
  then obtain i where i: "i < length idKeys" "uniqueScalar (idKeys ! i) [] xs" "k = idKeys ! i"
    "\<forall>j < i. \<not> uniqueScalar (idKeys ! j) [] xs"
    by (auto simp: find_Some_iff)
  have "uniqueScalar k [] (xs @ [v])" using i v by (auto simp: uniqueScalar_iff)
  moreover have "\<not> uniqueScalar (idKeys ! j) [] (xs @ [v])" if "j < i" for j
    using i(4) that by (auto simp: uniqueScalar_iff)
  ultimately have "find (\<lambda>k. uniqueScalar k [] (xs @ [v])) idKeys = Some k"
    using i by (auto simp: find_Some_iff)
  then have l: "listID (Seq t (xs @ [v])) (Seq t (xs @ [v])) = k" by (simp add: listID_self)
  obtain y ys where "xs = y # ys" using ne by (cases xs) auto
  then have "isMap y" using k by (auto simp: seqKey_def split: if_splits)
  with l show ?thesis using \<open>xs = y # ys\<close> by (simp add: seqKey_def)
qed

lemma addItem_named:
  assumes "addItem (Seq t xs) v = Inr s" "isMap v" "seqKey (Seq t xs) = k" "k \<noteq> []"
  shows "s = Seq t (xs @ [v])" "keyed k v" "keyval k v \<noteq> []" "keyval k v \<notin> set (map (keyval k) xs)"
proof -
  have ky: "list_all (keyed k) (items (Seq t xs))"
    using listID_keyed(2) [OF _ assms(4), of "Seq t xs" "Seq t xs"] seqKey_listID [OF assms(3,4)] by blast
  obtain tv es where v: "v = Map tv es" using assms(2) by (cases v) auto
  then obtain a b nm e where m: "mapIndex v k = Some (Scalar a b nm)" "nm \<noteq> []"
    "findItem (Seq t xs) (selStep k nm) = Inl e" "s = Seq t (xs @ [v])"
    using assms(1,3,4) by (auto simp: addItem_def Let_def split: option.splits node.splits if_splits sum.splits)
  then have "keyval k v = nm" by (simp add: keyval_def)
  then show "s = Seq t (xs @ [v])" "keyed k v" "keyval k v \<noteq> []" "keyval k v \<notin> set (map (keyval k) xs)"
    using m findItem_no_name [OF m(3) assms(4) ky] by (auto simp: keyed_def)
qed

text \<open>
  \<open>add\<close> to a list whose items have names (\<open>name\<close>, \<open>phy\<close>, \<open>ssid\<close> or \<open>mac\<close>): the list is named by the same
  key afterwards, all names differ, the new item is found under its name at the end, and every item that
  was there is still found under its name at its old position. A name that is missing, empty or in use is
  refused.
\<close>

theorem add_keeps_names:
  assumes "addItem (Seq t xs) v = Inr s" "isMap v" "seqKey (Seq t xs) = k" "k \<noteq> []"
  shows "s = Seq t (xs @ [v]) \<and> seqKey s = k \<and> distinct (map (keyval k) (items s)) \<and> keyval k v \<noteq> []
    \<and> findItem s (selStep [] (keyval k v)) = Inr (length xs)
    \<and> (\<forall>i < length xs. findItem s (selStep [] (keyval k (xs ! i))) = Inr i)"
proof -
  note a = addItem_named [OF assms]
  have k: "seqKey s = k" using seqKey_snoc [OF assms(3,4) a(2,4)] a(1) by simp
  have "distinct (map (keyval k) (items s))"
    using listID_keyed(3) [OF _ assms(4), of s s s] seqKey_listID [OF k assms(4)] by simp
  moreover have "findItem s (selStep [] (keyval k v)) = Inr (length xs)"
    using findItem_name [OF k assms(4), of "length xs"] a(1) by simp
  moreover have "findItem s (selStep [] (keyval k (xs ! i))) = Inr i" if "i < length xs" for i
    using findItem_name [OF k assms(4), of i] a(1) that by (simp add: nth_append)
  ultimately show ?thesis using a k by simp
qed

theorem add_keeps_names_witness:
  "\<exists>s. addItem (Seq ''!!seq'' [Map ''!!map'' [(strNode ''name'', strNode ''web'')]])
            (Map ''!!map'' [(strNode ''name'', strNode ''ssh'')]) = Inr s
     \<and> seqKey s = ''name'' \<and> findItem s (selStep [] ''ssh'') = Inr 1 \<and> findItem s (selStep [] ''web'') = Inr 0"
proof -
  let ?l = "[Map ''!!map'' [(strNode ''name'', strNode ''web'')]]"
  let ?v = "Map ''!!map'' [(strNode ''name'', strNode ''ssh'')]"
  have k: "seqKey (Seq ''!!seq'' ?l) = ''name''" by code_simp
  have "\<not> isl (addItem (Seq ''!!seq'' ?l) ?v)" by code_simp
  then obtain s where s: "addItem (Seq ''!!seq'' ?l) ?v = Inr s" by (cases "addItem (Seq ''!!seq'' ?l) ?v") auto
  have n: "keyval ''name'' ?v = ''ssh''" "keyval ''name'' (?l ! 0) = ''web''" by code_simp+
  from add_keeps_names [OF s _ k] show ?thesis using s n by force
qed

section \<open>Flat listings\<close>

text \<open>
  A tree as the config encodes: the keys of a mapping differ, a list holds values only or no values, and
  its length is an \<open>int\<close>.
\<close>

function (sequential) wfTree :: "node \<Rightarrow> bool"
  and wfS :: "node list \<Rightarrow> bool"
  and wfM :: "(node \<times> node) list \<Rightarrow> bool" where
  "wfTree (Scalar t q v) = True"
| "wfTree (Seq t xs) = ((list_all isScalar xs \<or> list_all (\<lambda>x. \<not> isScalar x) xs) \<and> length xs < 2 ^ 63 \<and> wfS xs)"
| "wfTree (Map t es) = (distinct (map (kval \<circ> fst) es) \<and> wfM es)"
| "wfS [] = True"
| "wfS (x # xs) = (wfTree x \<and> wfS xs)"
| "wfM [] = True"
| "wfM ((k, v) # es) = (wfTree v \<and> wfM es)"
  by pat_completeness auto
termination
  by (relation "measure (\<lambda>x. case x of
        Inl a \<Rightarrow> size a
      | Inr (Inl xs) \<Rightarrow> size_list size xs
      | Inr (Inr es) \<Rightarrow> size_list (size_prod size size) es)") auto

lemma wfS_iff: "wfS xs \<longleftrightarrow> (\<forall>x \<in> set xs. wfTree x)"
  by (induction xs) auto

lemma wfM_iff: "wfM es \<longleftrightarrow> (\<forall>e \<in> set es. wfTree (snd e))"
  by (induction es) auto

lemma nodeAt_snoc:
  "nodeAt_from before n sts = Inr m \<Longrightarrow>
   nodeAt_from before n (sts @ [st]) = nodeAt_from (before @ sts) m [st]"
  by (induction sts arbitrary: before n) (auto split: node.splits sum.splits option.splits if_splits)

lemma fmtPath_snoc: "fmtPath (sts @ [st]) = fmtPath sts @ fmtStep (sts = []) st"
proof (cases sts)
  case Nil
  then show ?thesis by (simp add: fmtPath_def)
next
  case (Cons s ss)
  then show ?thesis by (simp add: fmtPath_Cons)
qed

lemma fmtPath_nonempty: "wf_path sts \<Longrightarrow> fmtPath sts \<noteq> []"
  by (cases sts) (auto simp: wf_path_def fmtPath_Cons fmtStep_def)

lemma wf_path_snoc: "wf_step st \<Longrightarrow> wf_path sts \<or> sts = [] \<and> \<not> sel st \<Longrightarrow> wf_path (sts @ [st])"
  by (auto simp: wf_path_def)

lemma fmtSel_Itoa: "fmtSel (Itoa_nat i) = Itoa_nat i"
proof -
  have d: "list_all isDigit (Itoa_nat i)" "Itoa_nat i \<noteq> []" using Itoa_nat_digits [of i] by auto
  then have "TrimSpace (Itoa_nat i) = Itoa_nat i"
    by (intro TrimSpace_id) (auto simp: list_all_iff isDigit_def isSpace_def)
  moreover have "\<not> containsAny (Itoa_nat i) [91, 93, 34, 61]" "safeText (Itoa_nat i)"
    using d by (auto simp: list_all_iff isDigit_def containsAny_def safeText_def)
  ultimately show ?thesis using d by (simp add: fmtSel_def)
qed

lemma findItem_position:
  assumes "seqKey n = []" "i < length (items n)" "list_all (\<lambda>x. \<not> isScalar x) (items n)" "length (items n) < 2 ^ 63"
  shows "findItem n (selStep [] (Itoa_nat i)) = Inr i"
proof -
  have "findIdx (\<lambda>it. isScalar it \<and> kval it = Itoa_nat i) (items n) = None"
    using assms(3) by (auto simp: findIdx_None_iff list_all_iff)
  moreover have "Atoi (Itoa_nat i) = Some (int i)" using assms by (intro Atoi_Itoa_nat) simp
  ultimately show ?thesis using assms by (simp add: findItem_def)
qed

text \<open>The scan of \<open>splitAssign\<close> over a formatted path.\<close>

lemma scan_quote_char:
  "splitAssign_from d True acc (quote_char c @ r) = splitAssign_from d True (acc @ quote_char c) r"
proof (cases "c = CHR 0x22 \<or> c = CHR 0x5C")
  case False
  show ?thesis
  proof (cases "32 \<le> byte c \<and> byte c \<noteq> 127")
    case False
    have hex: "hex_digit n \<noteq> CHR 0x5C \<and> hex_digit n \<noteq> CHR 0x22" if "n < 16" for n
      using that hex_val_digit [of n] by (auto simp: hex_val_def byte_def)
    have "byte c div 16 < 16" "byte c mod 16 < 16" by (simp_all add: less_mult_imp_div_less)
    then show ?thesis using False hex \<open>\<not> (c = CHR 0x22 \<or> c = CHR 0x5C)\<close>
      by (auto simp: quote_char_def split: option.splits)
  qed (use False in \<open>simp add: quote_char_def\<close>)
qed (auto simp: quote_char_def)

lemma scan_quote_body:
  "splitAssign_from d True acc (concat (map quote_char s) @ r)
     = splitAssign_from d True (acc @ concat (map quote_char s)) r"
  by (induction s arbitrary: acc) (simp_all add: scan_quote_char)

lemma scan_Quote: "splitAssign_from d False acc (Quote s @ r) = splitAssign_from d False (acc @ Quote s) r"
  by (simp add: Quote_def scan_quote_body)

lemma scan_plain:
  assumes "\<forall>c \<in> set s. byte c \<notin> {34, 91, 93} \<and> (d = 0 \<longrightarrow> byte c \<noteq> 61)"
  shows "splitAssign_from d False acc (s @ r) = splitAssign_from d False (acc @ s) r"
  using assms by (induction s arbitrary: acc) (auto simp: byte_def)

lemma ident_plain: "identChar c \<Longrightarrow> plainKeyChar c"
  by (simp add: plainKeyChar_def)

lemma plain_byte: "plainKeyChar c \<Longrightarrow> byte c \<notin> {34, 91, 93, 61}"
  using plainKeyChar_not_delim [of c] unfolding keyDelim_def by blast

lemma scan_fmtKey: "splitAssign_from 0 False acc (fmtKey k @ r) = splitAssign_from 0 False (acc @ fmtKey k) r"
proof (cases "list_all plainKeyChar k \<and> k \<noteq> []")
  case True
  then have "\<forall>c \<in> set k. byte c \<notin> {34, 91, 93} \<and> ((0::int) = 0 \<longrightarrow> byte c \<noteq> 61)"
    by (auto simp: list_all_iff dest!: plain_byte)
  from scan_plain [OF this] True show ?thesis by (simp add: fmtKey_def)
next
  case False
  then have "fmtKey k = Quote k" by (auto simp: fmtKey_def Quote_def)
  then show ?thesis by (simp add: scan_Quote)
qed

lemma scan_fmtSel: "splitAssign_from 1 False acc (fmtSel v @ r) = splitAssign_from 1 False (acc @ fmtSel v) r"
proof (cases "fmtSel v = Quote v")
  case True
  then show ?thesis by (simp add: scan_Quote)
next
  case False
  then have v: "fmtSel v = v" and c: "\<not> containsAny v [91, 93, 34, 61]"
    by (auto simp: fmtSel_def split: if_splits)
  then have "\<forall>c \<in> set v. byte c \<notin> {34, 91, 93} \<and> ((1::int) = 0 \<longrightarrow> byte c \<noteq> 61)"
    by (auto simp: containsAny_def byte_def)
  from scan_plain [OF this] v show ?thesis by simp
qed

lemma scan_fmtStep:
  assumes "wf_step st"
  shows "splitAssign_from 0 False acc (fmtStep b st @ r) = splitAssign_from 0 False (acc @ fmtStep b st) r"
proof (cases "sel st")
  case True
  then obtain k v where st: "st = selStep k v" "list_all identChar k"
    using assms by (auto simp: wf_step_def) (metis step_sels(2))
  have "byte CHR ''='' = 61" by (simp add: byte_def)
  then have "\<forall>c \<in> set (k @ ''=''). byte c \<notin> {34, 91, 93} \<and> ((1::int) = 0 \<longrightarrow> byte c \<noteq> 61)"
    using st by (auto simp: list_all_iff dest!: plain_byte [OF ident_plain])
  from scan_plain [OF this] show ?thesis
    by (cases "k = []") (simp_all add: st scan_fmtSel)
next
  case False
  then obtain k where st: "st = keyStep k"
    using assms by (auto simp: wf_step_def) (metis step_sels(6))
  then show ?thesis by (cases b) (simp_all add: scan_fmtKey)
qed

lemma scan_rest:
  "list_all wf_step sts \<Longrightarrow> splitAssign_from 0 False acc (fmt_rest sts @ r) = splitAssign_from 0 False (acc @ fmt_rest sts) r"
  by (induction sts arbitrary: acc) (simp_all add: scan_fmtStep)

lemma splitAssign_fmtPath:
  assumes "wf_path sts"
  shows "splitAssign (fmtPath sts @ ''='' @ v) = Some (fmtPath sts, v)"
  using assms by (cases sts) (simp_all add: wf_path_def splitAssign_def fmtPath_Cons scan_fmtStep scan_rest)

text \<open>A line that shows the value at the path it names.\<close>

definition line_ok :: "node \<Rightarrow> string \<Rightarrow> bool" where
  "line_ok root l \<longleftrightarrow> (\<exists>sts m. wf_path sts \<and> nodeAt root sts = Inr m \<and> l = fmtPath sts @ ''='' @ renderFlow m)"

lemma nodeAt_entry:
  assumes "nodeAt root sts = Inr (Map t es)" "wfTree (Map t es)" "(k, v) \<in> set es"
  shows "nodeAt root (sts @ [keyStep (kval k)]) = Inr v"
proof -
  have "distinct (keys (Map t es))" using assms(2) unfolding keys_Map by simp
  then have "mapIndex (Map t es) (kval k) = Some v" using assms(3) by (subst mapIndex_distinct) force+
  then show ?thesis using nodeAt_snoc [OF assms(1) [unfolded nodeAt_def]] by (simp add: nodeAt_def)
qed

lemma nodeAt_item:
  assumes "nodeAt root sts = Inr (Seq t xs)" "wfTree (Seq t xs)" "\<not> isInline (Seq t xs)" "i < length xs"
    "k = seqKey (Seq t xs)"
  shows "\<exists>w. itemSel k i (xs ! i) = fmtSel w \<and> nodeAt root (sts @ [selStep [] w]) = Inr (xs ! i)"
proof -
  let ?w = "if k \<noteq> [] then keyval k (xs ! i) else Itoa_nat i"
  have "findItem (Seq t xs) (selStep [] ?w) = Inr i"
    using assms findItem_name [of "Seq t xs" k i] findItem_position [of "Seq t xs" i]
    by (auto simp: isInline_def)
  then have "nodeAt root (sts @ [selStep [] ?w]) = Inr (xs ! i)"
    using nodeAt_snoc [OF assms(1) [unfolded nodeAt_def]] by (simp add: nodeAt_def)
  moreover have "itemSel k i (xs ! i) = fmtSel ?w" by (simp add: itemSel_def fmtSel_Itoa)
  ultimately show ?thesis by blast
qed

lemma flat_ok:
  "wfTree n \<Longrightarrow> nodeAt root sts = Inr n \<Longrightarrow> wf_path sts \<or> sts = [] \<and> isMap n \<and> \<not> isEmptyColl n \<Longrightarrow>
     path = fmtPath sts \<Longrightarrow> list_all (line_ok root) (flatLines n path)"
  "set es \<subseteq> set es0 \<Longrightarrow> wfTree (Map t es0) \<Longrightarrow> nodeAt root sts = Inr (Map t es0) \<Longrightarrow> wf_path sts \<or> sts = [] \<Longrightarrow>
     path = fmtPath sts \<Longrightarrow> list_all (line_ok root) (flatEntries es path)"
  "its = drop i xs \<Longrightarrow> k = seqKey (Seq t xs) \<Longrightarrow> \<not> isInline (Seq t xs) \<Longrightarrow> wfTree (Seq t xs) \<Longrightarrow>
     nodeAt root sts = Inr (Seq t xs) \<Longrightarrow> wf_path sts \<Longrightarrow>
     path = fmtPath sts \<Longrightarrow> list_all (line_ok root) (flatItems k i its path)"
proof (induction n path and es path and k i its path arbitrary: sts and t es0 sts and t xs sts
    rule: flatLines_flatEntries_flatItems.induct)
  case (1 t es path)
  show ?case
  proof (cases "es = []")
    case True
    with 1 show ?thesis by (auto simp: line_ok_def isEmptyColl_def)
  next
    case False
    with "1.IH" [OF False, of es t sts] "1.prems" show ?thesis by auto
  qed
next
  case (2 t xs path)
  show ?case
  proof (cases "isInline (Seq t xs)")
    case True
    with 2 show ?thesis by (auto simp: line_ok_def)
  next
    case False
    with "2.IH" [OF False, of xs t sts] "2.prems" show ?thesis by auto
  qed
next
  case (3 t q v path)
  then show ?case by (auto simp: line_ok_def)
next
  case (4 path)
  then show ?case by simp
next
  case (5 k v es path)
  have kv: "(k, v) \<in> set es0" using "5.prems" by simp
  let ?sts = "sts @ [keyStep (kval k)]"
  have w: "wf_path ?sts" using "5.prems" by (intro wf_path_snoc) (auto simp: wf_step_def)
  have p: "(if path \<noteq> [] then path @ ''.'' @ fmtKey (kval k) else fmtKey (kval k)) = fmtPath ?sts"
    using "5.prems" by (auto simp: fmtPath_snoc dest: fmtPath_nonempty) (simp_all add: fmtPath_def)
  have "wfTree v" using "5.prems" kv by (auto simp: wfM_iff)
  then have "list_all (line_ok root) (flatLines v (fmtPath ?sts))"
    using "5.IH"(1) [of ?sts] nodeAt_entry [OF "5.prems"(3,2) kv] w p by simp
  moreover have "list_all (line_ok root) (flatEntries es path)"
    using "5.IH"(2) [of es0 t sts] "5.prems" by simp
  ultimately show ?case using p by simp
next
  case (6 k i path)
  then show ?case by simp
next
  case (7 k i it its path)
  then have i: "i < length xs" "it = xs ! i" "its = drop (Suc i) xs"
    by (metis drop_eq_Nil leI list.distinct(1), metis hd_drop_conv_nth drop_eq_Nil leI list.distinct(1) list.sel(1),
        metis drop_Suc list.sel(3) tl_drop)
  obtain w where s: "itemSel k i it = fmtSel w" and n: "nodeAt root (sts @ [selStep [] w]) = Inr it"
    using nodeAt_item [OF "7.prems"(5,4,3) i(1) "7.prems"(2)] i by auto
  let ?sts = "sts @ [selStep [] w]"
  have w: "wf_path ?sts" using "7.prems" by (intro wf_path_snoc) (auto simp: wf_step_def)
  have p: "path @ ''['' @ itemSel k i it @ '']'' = fmtPath ?sts"
    using "7.prems" s by (simp add: fmtPath_snoc)
  have "wfTree it" using "7.prems" i by (auto simp: wfS_iff)
  then have "list_all (line_ok root) (flatLines it (fmtPath ?sts))"
    using "7.IH"(1) [of ?sts] n w p by simp
  moreover have "list_all (line_ok root) (flatItems k (Suc i) its path)"
    using "7.IH"(2) [OF i(3), of t sts] "7.prems" by blast
  ultimately show ?case using p by simp
qed

text \<open>
  Every line of \<open>mr export --flat\<close> names its value: the text before the sign that \<open>mr set\<close> splits it
  at is a path, the path parses, and \<open>mr get\<close> at that path returns the value the line shows.
\<close>

theorem flat_lines_addressable:
  assumes "wfTree root" "isMap root" "\<not> isEmptyColl root" "l \<in> set (flatLines root [])"
  shows "\<exists>p steps m. splitAssign l = Some (p, renderFlow m) \<and> parsePath p = Inr steps \<and> nodeAt root steps = Inr m"
proof -
  have "list_all (line_ok root) (flatLines root [])"
    by (rule flat_ok(1) [of root root "[]"]) (use assms in \<open>auto simp: nodeAt_def fmtPath_def\<close>)
  then obtain sts m where w: "wf_path sts" "nodeAt root sts = Inr m" "l = fmtPath sts @ ''='' @ renderFlow m"
    using assms(4) by (auto simp: list_all_iff line_ok_def)
  then show ?thesis using splitAssign_fmtPath [OF w(1)] parsePath_fmtPath [OF w(1)] by blast
qed

theorem flat_lines_addressable_witness:
  "\<exists>p steps m. splitAssign ''ports[ssh].port=22'' = Some (p, renderFlow m) \<and> parsePath p = Inr steps
     \<and> nodeAt demo_tree steps = Inr m"
proof (rule flat_lines_addressable)
  show "wfTree demo_tree" by (simp add: demo_tree_def strNode_def)
  show "isMap demo_tree" by code_simp
  show "\<not> isEmptyColl demo_tree" by code_simp
  show "''ports[ssh].port=22'' \<in> set (flatLines demo_tree [])" by code_simp
qed

end
