(* ===== verification/Config_Diff.thy ===== *)
theory Config_Diff
  imports Yaml_Node
begin

text \<open>
  The change history's diffs: \<open>mr/history.go\<close>. \<open>configChanges\<close> lists what differs between two canonical
  trees, \<open>secretChanges\<close> what differs between two sets of secrets (never their values), \<open>lineOps\<close> and
  \<open>fileDiff\<close> show the lines that differ between two generated files.

  Shown: the list of changes is empty exactly when the trees hold the same configuration
  (\<open>changes_complete\<close>); no secret is reported right after an apply and a changed one always is
  (\<open>secrets_recorded\<close>); the lines of a file diff rebuild both files and keep as many common lines as
  possible (\<open>line_ops_minimal\<close>).
\<close>

section \<open>Semantic diff\<close>

definition joinPath :: "string \<Rightarrow> string \<Rightarrow> string" where
  "joinPath p k = (if p = [] then k else p @ ''.'' @ k)"

definition keep :: "string list \<Rightarrow> string list \<Rightarrow> string list" where
  "keep xs ys = filter (\<lambda>x. x \<in> set ys) xs"

text \<open>The UTF-8 arrow between an old and a new value.\<close>

definition arrow :: string where
  "arrow = [CHR '' '', CHR 0xE2, CHR 0x86, CHR 0x92, CHR '' '']"

definition nul :: string where
  "nul = [CHR 0x00]"

definition nth_opt :: "'a list \<Rightarrow> nat \<Rightarrow> 'a option" where
  "nth_opt xs i = (if i < length xs then Some (xs ! i) else None)"

definition osize :: "node option \<Rightarrow> nat" where
  "osize n = (case n of None \<Rightarrow> 0 | Some m \<Rightarrow> size m)"

text \<open>The Go map from the values of the key \<open>id\<close> to the items of a list.\<close>

definition itemIndex :: "string \<Rightarrow> node list \<Rightarrow> string \<Rightarrow> node option" where
  "itemIndex i xs = map_of (rev (map (\<lambda>it. (keyval i it, it)) xs))"

definition orderLine :: "string \<Rightarrow> string list \<Rightarrow> string list \<Rightarrow> string list" where
  "orderLine path ao bo =
     (if Join ao nul \<noteq> Join (keep bo ao) nul
      then [''~ '' @ path @ '': order '' @ Join ao '', '' @ arrow @ Join (keep bo ao) '', '']
      else [])"

lemma size_item: "x \<in> set xs \<Longrightarrow> size x < size (Seq t xs)"
  by (simp add: size_list_estimation' [OF _ order_refl] less_Suc_eq_le)

lemma itemIndex_in: "itemIndex i xs nm = Some it \<Longrightarrow> it \<in> set xs \<and> keyval i it = nm"
  by (auto simp: itemIndex_def dest!: map_of_SomeD)

lemma osize_itemIndex: "osize (itemIndex i xs nm) < size (Seq t xs)"
  using size_item [of _ xs t] itemIndex_in [of i xs nm]
  by (cases "itemIndex i xs nm") (auto simp: osize_def)

lemma osize_mapIndex: "osize (mapIndex (Map t es) k) < size (Map t es)"
  using mapIndex_size [of "Map t es" k] by (cases "mapIndex (Map t es) k") (auto simp: osize_def)

lemma osize_nth: "osize (nth_opt xs i) < size (Seq t xs)"
  using size_item [of _ xs t] by (auto simp: osize_def nth_opt_def)

lemma size_entry: "(k, v) \<in> set es \<Longrightarrow> size v < size (Map t es)"
proof -
  assume "(k, v) \<in> set es"
  then have "size_prod size size (k, v) \<le> size_list (size_prod size size) es"
    by (rule size_list_estimation' [OF _ order_refl])
  then show ?thesis by simp
qed

lemma osize_Some [simp]: "osize (Some n) = size n" "osize None = 0"
  by (simp_all add: osize_def)

function diffNode :: "string \<Rightarrow> node option \<Rightarrow> node option \<Rightarrow> string list" where
  "diffNode path a b =
     (case (a, b) of
        (None, None) \<Rightarrow> []
      | (None, Some y) \<Rightarrow>
          if isScalar y then [''~ '' @ path @ '': (default)'' @ arrow @ short y] else [''+ '' @ path]
      | (Some x, None) \<Rightarrow>
          if isScalar x then [''~ '' @ path @ '': '' @ short x @ arrow @ ''(default)''] else [''- '' @ path]
      | (Some x, Some y) \<Rightarrow>
          if nodeEqual x y then []
          else (case (x, y) of
              (Map t es, Map t' fs) \<Rightarrow>
                concat (map (\<lambda>(k, v). diffNode (joinPath path (kval k)) (mapIndex x (kval k)) (Some v)) fs)
                @ concat (map (\<lambda>(k, v). if mapIndex y (kval k) = None
                                          then diffNode (joinPath path (kval k)) (Some v) None else []) es)
            | (Seq t xs, Seq t' ys) \<Rightarrow>
                if isInline x \<and> isInline y then [''~ '' @ path @ '': '' @ short x @ arrow @ short y]
                else if listID x y \<noteq> []
                then (let i = listID x y; bo = map (keyval i) ys in
                  concat (map (\<lambda>it. diffNode (path @ ''['' @ keyval i it @ '']'') (itemIndex i xs (keyval i it)) (Some it)) ys)
                  @ concat (map (\<lambda>it. if keyval i it \<in> set bo then []
                                       else diffNode (path @ ''['' @ keyval i it @ '']'') (Some it) None) xs)
                  @ orderLine path (map (keyval i) (filter (\<lambda>it. keyval i it \<in> set bo) xs)) bo)
                else concat (map (\<lambda>j. diffNode (path @ ''['' @ Itoa_nat j @ '']'') (nth_opt xs j) (nth_opt ys j))
                               [0..<max (length xs) (length ys)])
            | _ \<Rightarrow> [''~ '' @ path @ '': '' @ short x @ arrow @ short y]))"
  by pat_completeness auto
termination
  by (relation "measure (\<lambda>(p, a, b). osize a + osize b)")
    (auto simp del: node.size intro!: add_strict_mono osize_mapIndex osize_itemIndex osize_nth size_entry size_item
      trans_less_add1 [OF size_entry] trans_less_add1 [OF size_item])

declare diffNode.simps [simp del]

definition configChanges :: "node \<Rightarrow> node \<Rightarrow> string list" where
  "configChanges a b = diffNode [] (Some a) (Some b)"

section \<open>The configurations two trees hold\<close>

text \<open>
  Two trees hold the same configuration: equal scalars up to their quoting, the same items in the same
  order, the same value under every key in any order.
\<close>

inductive same :: "node \<Rightarrow> node \<Rightarrow> bool" where
  same_Scalar: "same (Scalar t q v) (Scalar t q' v)"
| same_Seq: "list_all2 same xs ys \<Longrightarrow> same (Seq t xs) (Seq t ys)"
| same_Map: "(\<And>k. rel_option same (mapIndex (Map t es) k) (mapIndex (Map t fs) k)) \<Longrightarrow> same (Map t es) (Map t fs)"
  monos list.rel_mono option.rel_mono

inductive_simps same_simps [simp]:
  "same (Scalar t q v) b" "same (Seq t xs) b" "same (Map t es) b"

inductive_simps same_Scalar_right: "same a (Scalar t q v)"

text \<open>Trees of encoded configs: the standard tags, no key twice, no NUL in a value.\<close>

function (sequential) canonical :: "node \<Rightarrow> bool"
  and canonicalS :: "node list \<Rightarrow> bool"
  and canonicalM :: "(node \<times> node) list \<Rightarrow> bool" where
  "canonical (Scalar t q v) = (CHR 0x00 \<notin> set v)"
| "canonical (Seq t xs) = (t = ''!!seq'' \<and> canonicalS xs)"
| "canonical (Map t es) = (t = ''!!map'' \<and> distinct (map (kval \<circ> fst) es) \<and> canonicalM es)"
| "canonicalS [] = True"
| "canonicalS (x # xs) = (canonical x \<and> canonicalS xs)"
| "canonicalM [] = True"
| "canonicalM ((k, v) # es) = (canonical v \<and> canonicalM es)"
  by pat_completeness auto
termination
  by (relation "measure (\<lambda>x. case x of
        Inl a \<Rightarrow> size a
      | Inr (Inl xs) \<Rightarrow> size_list size xs
      | Inr (Inr es) \<Rightarrow> size_list (size_prod size size) es)") auto

lemma canonicalS_iff: "canonicalS xs \<longleftrightarrow> (\<forall>x \<in> set xs. canonical x)"
  by (induction xs) auto

lemma canonicalM_iff: "canonicalM es \<longleftrightarrow> (\<forall>e \<in> set es. canonical (snd e))"
  by (induction es) auto

definition ok :: "node option \<Rightarrow> bool" where
  "ok a \<longleftrightarrow> (\<forall>n. a = Some n \<longrightarrow> canonical n)"

lemma ok_simps [simp]: "ok None" "ok (Some n) = canonical n"
  by (simp_all add: ok_def)

lemma canonical_distinct: "canonical (Map t es) \<Longrightarrow> distinct (keys (Map t es))"
  unfolding keys_Map by simp

lemma ok_mapIndex: "canonical (Map t es) \<Longrightarrow> ok (mapIndex (Map t es) k)"
  by (fastforce simp: ok_def canonicalM_iff dest!: mapIndex_SomeD)

lemma ok_itemIndex: "canonical (Seq t xs) \<Longrightarrow> ok (itemIndex i xs nm)"
  by (auto simp: ok_def canonicalS_iff dest!: itemIndex_in)

lemma ok_nth: "canonical (Seq t xs) \<Longrightarrow> ok (nth_opt xs i)"
  by (auto simp: ok_def canonicalS_iff nth_opt_def split: if_splits)

lemma nodeEqual_same:
  "nodeEqual a b \<Longrightarrow> same a b"
  "seqEqual xs ys \<Longrightarrow> list_all2 same xs ys"
  "mapEqual es fs \<Longrightarrow> \<forall>t k. rel_option same (mapIndex (Map t es) k) (mapIndex (Map t fs) k)"
proof (induction a b and xs ys and es fs rule: nodeEqual_seqEqual_mapEqual.induct)
  case (9 k1 v1 es k2 v2 fs)
  then have "kval k1 = kval k2" by (metis nodeEqual.simps mapEqual.simps(2) nodeEqual_strip(1) kval_strip)
  with 9 have h: "rel_option same (Some v1) (Some v2)"
    "\<forall>t k. rel_option same (mapIndex (Map t es) k) (mapIndex (Map t fs) k)" by auto
  have m: "mapIndex (Map t ((a, v) # xs)) k
      = (case mapIndex (Map t xs) k of Some w \<Rightarrow> Some w | None \<Rightarrow> if kval a = k then Some v else None)" for a v xs t k
    by (auto simp: mapIndex_def map_add_def map_of_append split: option.splits)
  show ?case
  proof (intro allI)
    fix t k
    have "rel_option same (mapIndex (Map t es) k) (mapIndex (Map t fs) k)" using h by blast
    then show "rel_option same (mapIndex (Map t ((k1, v1) # es)) k) (mapIndex (Map t ((k2, v2) # fs)) k)"
      using h(1) \<open>kval k1 = kval k2\<close> unfolding m
      by (cases "mapIndex (Map t es) k"; cases "mapIndex (Map t fs) k") auto
  qed
qed auto

lemma same_kval: "same a b \<Longrightarrow> isScalar a \<Longrightarrow> nodeEqual a b"
  by (cases a) auto

lemma same_isScalar: "same a b \<Longrightarrow> isScalar a = isScalar b"
  by (erule same.cases) auto

lemma same_keyval: "same a b \<Longrightarrow> keyed i a \<Longrightarrow> keyval i a = keyval i b"
proof -
  assume s: "same a b" and k: "keyed i a"
  obtain t q v where m: "mapIndex a i = Some (Scalar t q v)"
    using k by (auto simp: keyed_def split: option.splits node.splits)
  then obtain t' es where a: "a = Map t' es" by (cases a) auto
  from s obtain fs where b: "b = Map t' fs"
    and r: "rel_option same (mapIndex a i) (mapIndex b i)"
    unfolding a by (auto)
  then show ?thesis using m by (cases "mapIndex b i") (auto simp: keyval_def)
qed

lemma seqEqual_scalars: "list_all2 same xs ys \<Longrightarrow> list_all isScalar xs \<Longrightarrow> seqEqual xs ys"
  by (induction rule: list_all2_induct) (auto simp: same_kval)

lemma Join_nul_inj:
  "\<forall>x \<in> set xs. CHR 0x00 \<notin> set x \<Longrightarrow> \<forall>y \<in> set ys. CHR 0x00 \<notin> set y \<Longrightarrow> length xs = length ys \<Longrightarrow>
   Join xs nul = Join ys nul \<Longrightarrow> xs = ys"
proof (induction xs nul arbitrary: ys rule: Join.induct)
  case (3 x x' xs)
  then obtain y y' zs where ys: "ys = y # y' # zs"
    by (metis (no_types, lifting) length_0_conv length_Suc_conv)
  have n: "CHR 0x00 \<notin> set x" "CHR 0x00 \<notin> set y" using "3.prems" ys by auto
  have e: "x @ CHR 0x00 # Join (x' # xs) nul = y @ CHR 0x00 # Join (y' # zs) nul"
    using "3.prems"(4) ys by (simp add: nul_def)
  have "takeWhile (\<lambda>c. c \<noteq> CHR 0x00) (x @ CHR 0x00 # r) = x" if "CHR 0x00 \<notin> set x" for x r
    using that by (induction x) auto
  then have "x = y" using e n by metis
  then have "Join (x' # xs) nul = Join (y' # zs) nul" using e by simp
  then have "x' # xs = y' # zs" using "3.hyps" [of "y' # zs"] "3.prems" ys by simp
  then show ?case using \<open>x = y\<close> ys by simp
next
  case (2 x)
  then obtain y where "ys = [y]" by (cases ys) auto
  then show ?case using 2 by simp
qed auto

text \<open>The cases of \<open>diffNode\<close> on two nodes that differ.\<close>

lemma diff_None: "diffNode path None (Some y) \<noteq> []" "diffNode path (Some x) None \<noteq> []"
  by (simp_all add: diffNode.simps)

lemma diff_mixed:
  assumes "\<not> nodeEqual x y" "\<not> (isMap x \<and> isMap y)" "\<not> (isSeq x \<and> isSeq y)"
  shows "diffNode path (Some x) (Some y) \<noteq> []" "\<not> same x y"
proof -
  show "diffNode path (Some x) (Some y) \<noteq> []"
    by (subst diffNode.simps) (use assms in \<open>auto split: node.splits\<close>)
  show "\<not> same x y" using assms by (cases x) auto
qed

lemma diff_Map:
  assumes "\<not> nodeEqual (Map t es) (Map t' fs)"
  shows "diffNode path (Some (Map t es)) (Some (Map t' fs)) = [] \<longleftrightarrow>
      (\<forall>(k, v) \<in> set fs. diffNode (joinPath path (kval k)) (mapIndex (Map t es) (kval k)) (Some v) = [])
    \<and> (\<forall>(k, v) \<in> set es. mapIndex (Map t' fs) (kval k) \<noteq> None)"
  using assms diff_None(2)
  by (subst diffNode.simps) (auto split: if_splits)

lemma diff_Seq_pos:
  assumes "\<not> nodeEqual (Seq t xs) (Seq t' ys)" "\<not> (isInline (Seq t xs) \<and> isInline (Seq t' ys))"
    "listID (Seq t xs) (Seq t' ys) = []"
  shows "diffNode path (Some (Seq t xs)) (Some (Seq t' ys)) = [] \<longleftrightarrow>
    (\<forall>j < max (length xs) (length ys). diffNode (path @ ''['' @ Itoa_nat j @ '']'') (nth_opt xs j) (nth_opt ys j) = [])"
  using assms by (subst diffNode.simps) auto

lemma concat_map_Nil: "concat (map f xs) = [] \<longleftrightarrow> (\<forall>x \<in> set xs. f x = [])"
  by auto

lemma diff_Seq_id:
  assumes "\<not> nodeEqual (Seq t xs) (Seq t' ys)" "\<not> (isInline (Seq t xs) \<and> isInline (Seq t' ys))"
    "listID (Seq t xs) (Seq t' ys) = i" "i \<noteq> []"
  shows "diffNode path (Some (Seq t xs)) (Some (Seq t' ys)) = [] \<longleftrightarrow>
      (\<forall>it \<in> set ys. diffNode (path @ ''['' @ keyval i it @ '']'') (itemIndex i xs (keyval i it)) (Some it) = [])
    \<and> (\<forall>it \<in> set xs. keyval i it \<in> set (map (keyval i) ys))
    \<and> orderLine path (map (keyval i) (filter (\<lambda>it. keyval i it \<in> set (map (keyval i) ys)) xs)) (map (keyval i) ys) = []"
proof -
  let ?bo = "map (keyval i) ys"
  have "diffNode path (Some (Seq t xs)) (Some (Seq t' ys)) =
      concat (map (\<lambda>it. diffNode (path @ ''['' @ keyval i it @ '']'') (itemIndex i xs (keyval i it)) (Some it)) ys)
      @ concat (map (\<lambda>it. if keyval i it \<in> set ?bo then []
                           else diffNode (path @ ''['' @ keyval i it @ '']'') (Some it) None) xs)
      @ orderLine path (map (keyval i) (filter (\<lambda>it. keyval i it \<in> set ?bo) xs)) ?bo"
    by (subst diffNode.simps) (simp only: prod.case option.case node.case assms Let_def if_False if_True not_False_eq_True)
  moreover have "(concat (map (\<lambda>it. if keyval i it \<in> set ?bo then []
      else diffNode (path @ ''['' @ keyval i it @ '']'') (Some it) None) xs) = [])
      \<longleftrightarrow> (\<forall>it \<in> set xs. keyval i it \<in> set ?bo)"
    unfolding concat_map_Nil using diff_None(2) by (auto simp del: set_map)
  ultimately show ?thesis by (simp only: append_is_Nil_conv concat_map_Nil)
qed

lemma diff_inline:
  assumes "\<not> nodeEqual (Seq t xs) (Seq t' ys)" "isInline (Seq t xs) \<and> isInline (Seq t' ys)"
  shows "diffNode path (Some (Seq t xs)) (Some (Seq t' ys)) \<noteq> []"
  by (subst diffNode.simps) (use assms in simp)

lemma rel_nth_opt: "(\<forall>j < max (length xs) (length ys). rel_option R (nth_opt xs j) (nth_opt ys j)) \<longleftrightarrow> list_all2 R xs ys"
proof
  assume *: "\<forall>j < max (length xs) (length ys). rel_option R (nth_opt xs j) (nth_opt ys j)"
  have "length xs = length ys"
  proof (rule ccontr)
    assume "length xs \<noteq> length ys"
    then have "min (length xs) (length ys) < max (length xs) (length ys)" by simp
    with * have "rel_option R (nth_opt xs (min (length xs) (length ys))) (nth_opt ys (min (length xs) (length ys)))" by blast
    with \<open>length xs \<noteq> length ys\<close> show False by (auto simp: nth_opt_def min_def split: if_splits)
  qed
  with * show "list_all2 R xs ys" by (auto simp: list_all2_conv_all_nth nth_opt_def)
qed (auto simp: list_all2_conv_all_nth nth_opt_def)

lemma rel_mapIndex:
  assumes "distinct (keys (Map t fs))"
  shows "(\<forall>(k, v) \<in> set fs. rel_option R (mapIndex a (kval k)) (Some v)) \<and> (\<forall>k. mapIndex a k \<noteq> None \<longrightarrow> mapIndex (Map t fs) k \<noteq> None)
    \<longleftrightarrow> (\<forall>k. rel_option R (mapIndex a k) (mapIndex (Map t fs) k))"
proof (intro iffI conjI allI impI)
  fix k
  assume *: "(\<forall>(k, v) \<in> set fs. rel_option R (mapIndex a (kval k)) (Some v)) \<and> (\<forall>k. mapIndex a k \<noteq> None \<longrightarrow> mapIndex (Map t fs) k \<noteq> None)"
  show "rel_option R (mapIndex a k) (mapIndex (Map t fs) k)"
  proof (cases "mapIndex (Map t fs) k")
    case None
    then show ?thesis using * by (cases "mapIndex a k") auto
  next
    case (Some v)
    then obtain kn where "(kn, v) \<in> set fs" "kval kn = k" by (auto dest!: mapIndex_SomeD)
    then show ?thesis using * Some by auto
  qed
next
  assume *: "\<forall>k. rel_option R (mapIndex a k) (mapIndex (Map t fs) k)"
  show "\<forall>(k, v) \<in> set fs. rel_option R (mapIndex a (kval k)) (Some v)"
  proof safe
    fix k v assume "(k, v) \<in> set fs"
    then have "mapIndex (Map t fs) (kval k) = Some v" using mapIndex_distinct [OF assms] by force
    then show "rel_option R (mapIndex a (kval k)) (Some v)" using * by metis
  qed
next
  fix k
  assume "\<forall>k. rel_option R (mapIndex a k) (mapIndex (Map t fs) k)" "mapIndex a k \<noteq> None"
  then show "mapIndex (Map t fs) k \<noteq> None" by (metis option.rel_distinct(2) not_None_eq)
qed

lemma entries_dom: "(\<forall>(k, v) \<in> set es. P (kval k)) \<longleftrightarrow> (\<forall>k. mapIndex (Map t es) k \<noteq> None \<longrightarrow> P k)"
  by (force simp: mapIndex_None_iff)

lemma diff_order:
  assumes "distinct (map (keyval i) xs)" "distinct (map (keyval i) ys)"
    "set (map (keyval i) xs) = set (map (keyval i) ys)"
    "\<forall>x \<in> set (map (keyval i) xs). CHR 0x00 \<notin> set x"
  shows "orderLine path (map (keyval i) (filter (\<lambda>it. keyval i it \<in> set (map (keyval i) ys)) xs)) (map (keyval i) ys) = []
    \<longleftrightarrow> map (keyval i) xs = map (keyval i) ys"
proof -
  have f: "filter (\<lambda>it. keyval i it \<in> set (map (keyval i) ys)) xs = xs"
    using assms(3) by (intro filter_True) auto
  have k: "keep (map (keyval i) ys) (map (keyval i) xs) = map (keyval i) ys"
    unfolding keep_def using assms(3) by (intro filter_True) auto
  have l: "length (map (keyval i) xs) = length (map (keyval i) ys)"
    using assms(1,2,3) by (metis distinct_card)
  show ?thesis unfolding f orderLine_def k
    using Join_nul_inj [OF assms(4) _ l] assms(3,4) by auto
qed

lemma itemIndex_nth:
  assumes "distinct (map (keyval i) xs)" "j < length xs"
  shows "itemIndex i xs (keyval i (xs ! j)) = Some (xs ! j)"
proof -
  have "map fst (rev (map (\<lambda>it. (keyval i it, it)) xs)) = rev (map (keyval i) xs)"
    by (simp add: rev_map)
  then have "distinct (map fst (rev (map (\<lambda>it. (keyval i it, it)) xs)))" using assms(1) by simp
  then show ?thesis unfolding itemIndex_def using assms(2) by (subst map_of_eq_Some_iff) auto
qed

lemma canonical_keyval: "canonical it \<Longrightarrow> keyed i it \<Longrightarrow> CHR 0x00 \<notin> set (keyval i it)"
  using ok_mapIndex [of _ _ i] by (cases it) (fastforce simp: keyed_def keyval_def split: option.splits node.splits)+

text \<open>Lists compared by names: equal names in equal order and equal items under them.\<close>

lemma named_lists_same:
  assumes dx: "distinct (map (keyval i) xs)" and dy: "distinct (map (keyval i) ys)"
    and kx: "list_all (keyed i) xs" and nx: "\<forall>x \<in> set (map (keyval i) xs). CHR 0x00 \<notin> set x"
  shows "(\<forall>it \<in> set ys. rel_option same (itemIndex i xs (keyval i it)) (Some it))
      \<and> (\<forall>it \<in> set xs. keyval i it \<in> set (map (keyval i) ys))
      \<and> orderLine path (map (keyval i) (filter (\<lambda>it. keyval i it \<in> set (map (keyval i) ys)) xs)) (map (keyval i) ys) = []
    \<longleftrightarrow> list_all2 same xs ys" (is "?L \<longleftrightarrow> ?R")
proof
  assume L: ?L
  have "set (map (keyval i) ys) \<subseteq> set (map (keyval i) xs)"
  proof
    fix nm assume "nm \<in> set (map (keyval i) ys)"
    then obtain it where "it \<in> set ys" "nm = keyval i it" by auto
    then obtain x where "itemIndex i xs nm = Some x" using L by (cases "itemIndex i xs nm") auto
    then show "nm \<in> set (map (keyval i) xs)" using itemIndex_in by fastforce
  qed
  then have s: "set (map (keyval i) xs) = set (map (keyval i) ys)" using L by auto
  have e: "map (keyval i) xs = map (keyval i) ys" using L diff_order [OF dx dy s nx] by blast
  then have l: "length xs = length ys" by (metis length_map)
  have "same (xs ! j) (ys ! j)" if "j < length xs" for j
  proof -
    have "keyval i (ys ! j) = keyval i (xs ! j)" using e that l by (metis nth_map)
    then show ?thesis using L itemIndex_nth [OF dx that] that l by (metis nth_mem option.rel_inject(2))
  qed
  then show ?R using l by (simp add: list_all2_conv_all_nth)
next
  assume R: ?R
  then have l: "length xs = length ys" and sm: "\<And>j. j < length xs \<Longrightarrow> same (xs ! j) (ys ! j)"
    by (auto simp: list_all2_conv_all_nth)
  have n: "keyval i (xs ! j) = keyval i (ys ! j)" if "j < length xs" for j
    using same_keyval [OF sm [OF that]] kx that by (simp add: list_all_length)
  have e: "map (keyval i) xs = map (keyval i) ys" using l n by (simp add: list_eq_iff_nth_eq)
  then have s: "set (map (keyval i) xs) = set (map (keyval i) ys)" by simp
  have "rel_option same (itemIndex i xs (keyval i it)) (Some it)" if "it \<in> set ys" for it
  proof -
    obtain j where "j < length ys" "it = ys ! j" using \<open>it \<in> set ys\<close> by (auto simp: in_set_conv_nth)
    then show ?thesis using itemIndex_nth [OF dx, of j] n [of j] sm [of j] l by simp
  qed
  moreover have "keyval i it \<in> set (map (keyval i) ys)" if "it \<in> set xs" for it
    using that unfolding s [symmetric] by simp
  ultimately show ?L using diff_order [OF dx dy s nx] e by blast
qed

lemma diff_iff_same:
  "ok a \<Longrightarrow> ok b \<Longrightarrow> diffNode path a b = [] \<longleftrightarrow> rel_option same a b"
proof (induction "osize a + osize b" arbitrary: a b path rule: less_induct)
  case less
  show ?case
  proof (cases "a = None \<or> b = None")
    case True
    then show ?thesis using diff_None by (cases a; cases b) (auto simp: diffNode.simps)
  next
    case False
    then obtain x y where ab: "a = Some x" "b = Some y" by auto
    note cx = less.prems(1) [unfolded ab ok_simps] and cy = less.prems(2) [unfolded ab ok_simps]
    show ?thesis
    proof (cases "nodeEqual x y")
      case True
      then show ?thesis using nodeEqual_same(1) [OF True] by (simp add: ab diffNode.simps)
    next
      case ne: False
      consider (M) t es t' fs where "x = Map t es" "y = Map t' fs"
        | (S) t xs t' ys where "x = Seq t xs" "y = Seq t' ys"
        | (O) "\<not> (isMap x \<and> isMap y)" "\<not> (isSeq x \<and> isSeq y)"
        by (cases x; cases y) auto
      then show ?thesis
      proof cases
        case O
        then show ?thesis using diff_mixed [OF ne O] by (simp add: ab)
      next
        case M
        have t: "t' = t" using cx cy M by simp
        have ih: "diffNode p (mapIndex x (kval k)) (Some v) = [] \<longleftrightarrow> rel_option same (mapIndex x (kval k)) (Some v)"
          if "(k, v) \<in> set fs" for k v p
        proof (rule less.hyps)
          show "osize (mapIndex x (kval k)) + osize (Some v) < osize a + osize b"
            using osize_mapIndex [of t es "kval k"] size_entry [OF that, of t'] ab M by (simp del: node.size)
        qed (use cx cy M that in \<open>auto simp: canonicalM_iff intro: ok_mapIndex\<close>)
        have d: "distinct (keys (Map t fs))" using canonical_distinct [of t' fs] cy M t by simp
        show ?thesis
          unfolding ab M t diff_Map [OF ne [unfolded M t]] entries_dom [of es "\<lambda>k. mapIndex (Map t fs) k \<noteq> None" t]
          using ih rel_mapIndex [OF d, of same x] M by (auto simp del: mapIndex_noMap)
      next
        case S
        have t: "t = ''!!seq''" "t' = ''!!seq''" using cx cy S by simp_all
        show ?thesis
        proof (cases "isInline x \<and> isInline y")
          case True
          then have "\<not> same x y" using ne seqEqual_scalars S t by (auto simp: isInline_def)
          then show ?thesis using diff_inline True ne by (simp add: ab S)
        next
          case ni: False
          show ?thesis
          proof (cases "listID x y = []")
            case True
            have ih: "diffNode p (nth_opt xs j) (nth_opt ys j) = [] \<longleftrightarrow> rel_option same (nth_opt xs j) (nth_opt ys j)" for p j
            proof (rule less.hyps)
              show "osize (nth_opt xs j) + osize (nth_opt ys j) < osize a + osize b"
                using osize_nth [of xs j t] osize_nth [of ys j t'] ab S by (simp del: node.size)
            qed (use cx cy S in \<open>auto intro: ok_nth\<close>)
            show ?thesis
              unfolding ab S diff_Seq_pos [OF ne [unfolded S] ni [unfolded S] True [unfolded S]] ih rel_nth_opt
              using t by simp
          next
            case False
            define i where i: "i = listID x y"
            have ih: "diffNode p (itemIndex i xs nm) (Some it) = [] \<longleftrightarrow> rel_option same (itemIndex i xs nm) (Some it)"
              if "it \<in> set ys" for p nm it
            proof (rule less.hyps)
              show "osize (itemIndex i xs nm) + osize (Some it) < osize a + osize b"
                using osize_itemIndex [of i xs nm t] size_item [OF that, of t'] ab S by (simp del: node.size)
            qed (use cx cy S that in \<open>auto simp: canonicalS_iff intro: ok_itemIndex\<close>)
            note l = listID_keyed [OF i [symmetric] False [folded i]]
            have nx: "\<forall>w \<in> set (map (keyval i) xs). CHR 0x00 \<notin> set w"
              using l(2) [of x] cx S by (auto simp: list_all_iff canonicalS_iff canonical_keyval)
            have dx: "distinct (map (keyval i) xs)" "distinct (map (keyval i) ys)" "list_all (keyed i) xs"
              using l(3) [of x] l(3) [of y] l(2) [of x] S by auto
            have "diffNode path a b = [] \<longleftrightarrow> list_all2 same xs ys"
              unfolding ab S diff_Seq_id [OF ne [unfolded S] ni [unfolded S] i [symmetric, unfolded S] False [folded i]]
              using ih named_lists_same [OF dx(1,2,3) nx, of path] by auto
            then show ?thesis using t by (simp add: ab S)
          qed
        qed
      qed
    qed
  qed
qed

text \<open>
  C33. The list of changes \<open>mr plan\<close> and the web UI show is complete and free of noise: it is empty exactly
  when the two configurations are the same, where only the order of the keys of a mapping and the quoting
  of a value may differ.
\<close>

theorem changes_complete:
  assumes "canonical a" "canonical b"
  shows "configChanges a b = [] \<longleftrightarrow> same a b"
  unfolding configChanges_def using diff_iff_same [of "Some a" "Some b"] assms by simp

text \<open>Two writings of one configuration, and one that differs.\<close>

definition cfg_a :: node where
  "cfg_a = Map ''!!map''
     [(Scalar ''!!str'' Plain ''mode'', Scalar ''!!str'' Plain ''router''),
      (Scalar ''!!str'' Plain ''ports'', Seq ''!!seq''
         [Map ''!!map'' [(Scalar ''!!str'' Plain ''name'', Scalar ''!!str'' Plain ''web'')]])]"

definition cfg_b :: node where
  "cfg_b = Map ''!!map''
     [(Scalar ''!!str'' Plain ''ports'', Seq ''!!seq''
         [Map ''!!map'' [(Scalar ''!!str'' Plain ''name'', Scalar ''!!str'' DoubleQuoted ''web'')]]),
      (Scalar ''!!str'' Plain ''mode'', Scalar ''!!str'' Plain ''router'')]"

theorem changes_complete_witness:
  "cfg_a \<noteq> cfg_b \<and> configChanges cfg_a cfg_b = [] \<and> same cfg_a cfg_b"
proof -
  have "canonical cfg_a" "canonical cfg_b" by code_simp+
  moreover have "configChanges cfg_a cfg_b = []" by code_simp
  moreover have "cfg_a \<noteq> cfg_b" by code_simp
  ultimately show ?thesis using changes_complete [of cfg_a cfg_b] by blast
qed

section \<open>Secrets\<close>

text \<open>A Go \<open>map[string]string\<close>: pairs, the first of equal keys counts. \<open>sha\<close> is the hex SHA-256 of a value.\<close>

type_synonym smap = "(string \<times> string) list"

definition pwSecretKey :: string where
  "pwSecretKey = ''webui_password''"

definition sortedKeys :: "smap \<Rightarrow> string list" where
  "sortedKeys m = sort (remdups (map fst m))"

definition secretChanges :: "(string \<Rightarrow> string) \<Rightarrow> smap \<Rightarrow> smap \<Rightarrow> string list" where
  "secretChanges sha old cur =
     concat (map (\<lambda>k. if k = pwSecretKey then []
                       else (case map_of old k of
                               None \<Rightarrow> [''+ secrets.'' @ k]
                             | Some h \<Rightarrow> if h \<noteq> sha (the (map_of cur k)) then [''~ secrets.'' @ k @ '': (changed)''] else []))
              (sortedKeys cur))
     @ concat (map (\<lambda>k. if map_of cur k = None then [''- secrets.'' @ k] else []) (sortedKeys old))"

definition secretsHeader :: string where
  "secretsHeader = ''# secrets as last applied (sha256), for `mr plan`'' @ [CHR '' '', CHR 0xE2, CHR 0x80, CHR 0x94] @ '' generated by mr''"

text \<open>The lines of \<open>gen/applied-secrets\<close>, each ended by a line feed, and how they are read back.\<close>

definition appliedLines :: "(string \<Rightarrow> string) \<Rightarrow> smap \<Rightarrow> string list" where
  "appliedLines sha s =
     secretsHeader # concat (map (\<lambda>k. if k = pwSecretKey then [] else [k @ '' '' @ sha (the (map_of s k))]) (sortedKeys s))"

definition appliedSecretsText :: "(string \<Rightarrow> string) \<Rightarrow> smap \<Rightarrow> string" where
  "appliedSecretsText sha s = concat (map (\<lambda>l. l @ [CHR 0x0A]) (appliedLines sha s))"

definition readApplied :: "string \<Rightarrow> smap" where
  "readApplied text =
     rev (concat (map (\<lambda>l. case CutByte CHR '' '' l of (k, h, found) \<Rightarrow>
                               if found \<and> \<not> HasPrefix l ''#'' then [(k, h)] else [])
                   (SplitByte CHR 0x0A text)))"

lemma SplitByte_lines:
  "\<forall>l \<in> set ls. c \<notin> set l \<Longrightarrow> SplitByte c (concat (map (\<lambda>l. l @ [c]) ls)) = ls @ [[]]"
proof (induction ls)
  case (Cons l ls)
  have "SplitByte c (l @ c # r) = l # SplitByte c r" if "c \<notin> set l" for l r
    using that by (induction l) (auto split: list.splits)
  then show ?case using Cons by simp
qed simp

lemma CutByte_append: "c \<notin> set k \<Longrightarrow> CutByte c (k @ c # h) = (k, h, True)"
  by (induction k) auto

definition keys_ok :: "smap \<Rightarrow> bool" where
  "keys_ok s \<longleftrightarrow> (\<forall>k \<in> set (map fst s). CHR '' '' \<notin> set k \<and> CHR 0x0A \<notin> set k \<and> \<not> HasPrefix k ''#'')"

lemma set_sortedKeys [simp]: "set (sortedKeys m) = fst ` set m"
  by (simp add: sortedKeys_def)

lemma map_of_sortedKeys:
  "map_of (concat (map (\<lambda>k. if P k then [] else [(k, f k)]) ks)) k = (if k \<in> set ks \<and> \<not> P k then Some (f k) else None)"
  by (induction ks) auto

lemma map_of_rev_fun: "(\<And>k v. (k, v) \<in> set xs \<Longrightarrow> v = f k) \<Longrightarrow> map_of (rev xs) k = map_of xs k"
proof -
  assume f: "\<And>k v. (k, v) \<in> set xs \<Longrightarrow> v = f k"
  have "map_of ys k = (if k \<in> fst ` set ys then Some (f k) else None)" if "set ys \<subseteq> set xs" for ys
    using that f by (induction ys) auto
  from this [of xs] this [of "rev xs"] show ?thesis by simp
qed

lemma readApplied_text:
  assumes "keys_ok s" "\<forall>v \<in> snd ` set s. CHR 0x0A \<notin> set (sha v)"
  shows "map_of (readApplied (appliedSecretsText sha s)) k
      = (if k = pwSecretKey then None else map_option sha (map_of s k))"
proof -
  let ?f = "\<lambda>k. sha (the (map_of s k))"
  let ?ls = "concat (map (\<lambda>k. if k = pwSecretKey then [] else [k @ '' '' @ ?f k]) (sortedKeys s))"
  let ?rd = "\<lambda>l. case CutByte CHR '' '' l of (k, h, found) \<Rightarrow> if found \<and> \<not> HasPrefix l ''#'' then [(k, h)] else []"
  have v: "the (map_of s k) \<in> snd ` set s" if "k \<in> fst ` set s" for k
    using that by (metis (no_types, lifting) map_of_eq_None_iff map_of_SomeD not_None_eq option.sel snd_conv image_eqI)
  have n: "CHR 0x0A \<notin> set l" if l: "l \<in> set ?ls" for l
  proof -
    obtain k where k: "k \<in> fst ` set s" "l = k @ '' '' @ ?f k" using l by (auto split: if_splits)
    then show ?thesis using assms v [OF k(1)] by (auto simp: keys_ok_def)
  qed
  have h: "CHR 0x0A \<notin> set secretsHeader" by (simp add: secretsHeader_def)
  have hd: "HasPrefix secretsHeader ''#''" by (simp add: secretsHeader_def HasPrefix_def)
  have rd1: "?rd (k @ '' '' @ ?f k) = [(k, ?f k)]" if "k \<in> fst ` set s" for k
  proof -
    have k: "CHR '' '' \<notin> set k" "\<not> HasPrefix k ''#''" using assms(1) that by (auto simp: keys_ok_def)
    have "\<not> HasPrefix (k @ '' '' @ ?f k) ''#''" using k by (cases k) (auto simp: HasPrefix_def)
    then show ?thesis using CutByte_append [OF k(1), of "?f k"] by simp
  qed
  have "concat (map ?rd (concat (map (\<lambda>k. if k = pwSecretKey then [] else [k @ '' '' @ ?f k]) ks)))
      = concat (map (\<lambda>k. if k = pwSecretKey then [] else [(k, ?f k)]) ks)" if "set ks \<subseteq> fst ` set s" for ks
    using that rd1 by (induction ks) auto
  from this [of "sortedKeys s"] have c: "concat (map ?rd ?ls)
      = concat (map (\<lambda>k. if k = pwSecretKey then [] else [(k, ?f k)]) (sortedKeys s))" by simp
  have "readApplied (appliedSecretsText sha s) = rev (concat (map ?rd ?ls))"
    unfolding readApplied_def appliedSecretsText_def appliedLines_def
    using SplitByte_lines [of "secretsHeader # ?ls" "CHR 0x0A"] n h hd
    by (simp add: case_prod_beta)
  then have "map_of (readApplied (appliedSecretsText sha s)) k
      = map_of (concat (map (\<lambda>k. if k = pwSecretKey then [] else [(k, ?f k)]) (sortedKeys s))) k"
    using map_of_rev_fun [of "concat (map (\<lambda>k. if k = pwSecretKey then [] else [(k, ?f k)]) (sortedKeys s))" ?f k]
    unfolding c by (auto split: if_splits)
  also have "\<dots> = (if k = pwSecretKey then None else map_option sha (map_of s k))"
    unfolding map_of_sortedKeys by (cases "map_of s k") (auto simp: map_of_eq_None_iff, metis map_of_SomeD fst_conv image_eqI)
  finally show ?thesis .
qed

lemma ball_keys: "(\<forall>k \<in> fst ` set m. P k) \<longleftrightarrow> (\<forall>k. map_of m k \<noteq> None \<longrightarrow> P k)"
  by (metis map_of_eq_None_iff)

lemma secretChanges_Nil:
  "secretChanges sha old cur = [] \<longleftrightarrow>
     (\<forall>k. map_of cur k \<noteq> None \<longrightarrow> k \<noteq> pwSecretKey \<longrightarrow> map_of old k = map_option sha (map_of cur k))
   \<and> (\<forall>k. map_of old k \<noteq> None \<longrightarrow> map_of cur k \<noteq> None)"
proof -
  let ?F = "\<lambda>k. if k = pwSecretKey then []
                       else (case map_of old k of
                               None \<Rightarrow> [''+ secrets.'' @ k]
                             | Some h \<Rightarrow> if h \<noteq> sha (the (map_of cur k)) then [''~ secrets.'' @ k @ '': (changed)''] else [])"
  have "?F k = [] \<longleftrightarrow> (k \<noteq> pwSecretKey \<longrightarrow> map_of old k = map_option sha (map_of cur k))"
    if "map_of cur k \<noteq> None" for k
    using that by (cases "map_of old k"; cases "map_of cur k") auto
  then have "(\<forall>k. map_of cur k \<noteq> None \<longrightarrow> ?F k = []) \<longleftrightarrow>
      (\<forall>k. map_of cur k \<noteq> None \<longrightarrow> k \<noteq> pwSecretKey \<longrightarrow> map_of old k = map_option sha (map_of cur k))"
    by blast
  moreover have "(\<forall>k. map_of old k \<noteq> None \<longrightarrow> (if map_of cur k = None then [''- secrets.'' @ k] else []) = [])
      \<longleftrightarrow> (\<forall>k. map_of old k \<noteq> None \<longrightarrow> map_of cur k \<noteq> None)" by (metis list.distinct(1))
  ultimately show ?thesis
    unfolding secretChanges_def append_is_Nil_conv concat_map_Nil set_sortedKeys ball_keys by blast
qed

text \<open>
  The record of the secrets an apply writes is what the next plan compares with: against the record of
  \<open>s\<close>, no change is shown for \<open>s'\<close> exactly when both hold the same secrets, the web UI password aside. The
  hash is an argument: it tells the values at hand apart and holds no line feed.
\<close>

theorem secrets_recorded:
  assumes "keys_ok s" "\<forall>v \<in> snd ` set s. CHR 0x0A \<notin> set (sha v)" "inj_on sha (snd ` set s \<union> snd ` set s')"
  shows "secretChanges sha (readApplied (appliedSecretsText sha s)) s' = []
    \<longleftrightarrow> (\<forall>k. k \<noteq> pwSecretKey \<longrightarrow> map_of s k = map_of s' k)"
proof -
  have ran: "v \<in> snd ` set s \<union> snd ` set s'" if "map_of s k = Some v \<or> map_of s' k = Some v" for k v
    using that by (force dest!: map_of_SomeD)
  have i: "map_option sha (map_of s k) = map_option sha (map_of s' k) \<longleftrightarrow> map_of s k = map_of s' k" for k
  proof (cases "map_of s k"; cases "map_of s' k")
    fix a b assume "map_of s k = Some a" "map_of s' k = Some b"
    then show ?thesis using inj_onD [OF assms(3), of a b] ran by auto
  qed simp_all
  show ?thesis
    unfolding secretChanges_Nil readApplied_text [OF assms(1,2)]
    by (auto simp: i) (metis (no_types, lifting) i option.map_disc_iff not_None_eq)+
qed

theorem secrets_recorded_witness:
  "secretChanges (\<lambda>v. v) (readApplied (appliedSecretsText (\<lambda>v. v) [(''wan_pw'', ''k1''), (''wifi'', ''k2'')]))
      [(''wifi'', ''k2''), (''wan_pw'', ''k1''), (''webui_password'', ''x'')] = []"
proof -
  let ?s = "[(''wan_pw'', ''k1''), (''wifi'', ''k2'')]"
  let ?t = "[(''wifi'', ''k2''), (''wan_pw'', ''k1''), (''webui_password'', ''x'')]"
  have 1: "keys_ok ?s" by (simp add: keys_ok_def HasPrefix_def)
  have 2: "\<forall>v \<in> snd ` set ?s. CHR 0x0A \<notin> set v" by simp
  have 3: "\<forall>k. k \<noteq> pwSecretKey \<longrightarrow> map_of ?s k = map_of ?t k" by (auto simp: pwSecretKey_def)
  show ?thesis using secrets_recorded [OF 1, of "\<lambda>v. v" ?t] 2 3 by (simp add: inj_on_def)
qed
section \<open>File diffs\<close>

definition nl :: "string \<Rightarrow> string" where
  "nl l = (if HasSuffix l [CHR 0x0A] then l else l @ [CHR 0x0A])"

text \<open>
  The table \<open>L\<close> of \<open>lineOps\<close>, row by row from the last: row \<open>i\<close> is computed from right to left out of row
  \<open>i + 1\<close>. The entries are 32-bit in Go; \<open>lcs_table_bound\<close> shows that they stay below 501.
\<close>

fun lcs_row :: "'a \<Rightarrow> 'a list \<Rightarrow> nat list \<Rightarrow> nat list" where
  "lcs_row x (y # ys) (d # r # rs) =
     (let rest = lcs_row x ys (r # rs)
      in (if x = y then r + 1 else if d \<ge> hd rest then d else hd rest) # rest)"
| "lcs_row x ys rs = [0]"

fun lcs_table :: "'a list \<Rightarrow> 'a list \<Rightarrow> nat list list" where
  "lcs_table [] b = [replicate (length b + 1) 0]"
| "lcs_table (x # xs) b = (let t = lcs_table xs b in lcs_row x b (hd t) # t)"

text \<open>The walk through the table, from row \<open>i\<close> and column \<open>j\<close>.\<close>

function walk :: "string list \<Rightarrow> string list \<Rightarrow> nat list list \<Rightarrow> nat \<Rightarrow> nat \<Rightarrow> string list" where
  "walk a b L i j =
     (if i < length a \<or> j < length b
      then (if i < length a \<and> j < length b \<and> a ! i = b ! j
            then ('' '' @ nl (a ! i)) # walk a b L (i + 1) (j + 1)
            else if j < length b \<and> (i \<ge> length a \<or> L ! i ! (j + 1) \<ge> L ! (i + 1) ! j)
            then (''+'' @ nl (b ! j)) # walk a b L i (j + 1)
            else (''-'' @ nl (a ! i)) # walk a b L (i + 1) j)
      else [])"
  by pat_completeness auto
termination
  by (relation "measure (\<lambda>(a, b, L, i, j). (length a - i) + (length b - j))") auto

declare walk.simps [simp del]

definition lineOps :: "string list \<Rightarrow> string list \<Rightarrow> string list" where
  "lineOps a b =
     (if length a * length b > 250000
      then map (\<lambda>l. ''-'' @ nl l) a @ map (\<lambda>l. ''+'' @ nl l) b
      else walk a b (lcs_table a b) 0 0)"

text \<open>The reference: the length of a longest common subsequence.\<close>

fun llcs :: "'a list \<Rightarrow> 'a list \<Rightarrow> nat" where
  "llcs (x # xs) (y # ys) = (if x = y then llcs xs ys + 1 else max (llcs xs (y # ys)) (llcs (x # xs) ys))"
| "llcs _ _ = 0"

lemma llcs_upper: "subseq zs xs \<Longrightarrow> subseq zs ys \<Longrightarrow> length zs \<le> llcs xs ys"
proof (induction xs ys arbitrary: zs rule: llcs.induct)
  case (1 x xs y ys)
  show ?case
  proof (cases "x = y")
    case True
    show ?thesis
    proof (cases zs)
      case (Cons z zs')
      have "subseq zs' xs" "subseq zs' ys"
        using "1.prems" Cons by (metis subseq_Cons' subseq_Cons2_iff subseq_Cons2')+
      then show ?thesis using "1.IH"(1) [OF True] True Cons by simp
    qed simp
  next
    case False
    show ?thesis
    proof (cases zs)
      case (Cons z zs')
      then have "z \<noteq> x \<or> z \<noteq> y" using False by auto
      then have "subseq zs xs \<or> subseq zs ys" using "1.prems" Cons by (auto split: if_splits)
      then show ?thesis using "1.IH"(2,3) [OF False] "1.prems" False by fastforce
    qed simp
  qed
qed auto

lemma llcs_bound: "llcs xs ys \<le> length xs \<and> llcs xs ys \<le> length ys"
  by (induction xs ys rule: llcs.induct) auto

lemma llcs_step: "x \<noteq> y \<Longrightarrow> llcs (x # xs) (y # ys) = max (llcs xs (y # ys)) (llcs (x # xs) ys)"
  by simp

lemma llcs_Nil2 [simp]: "llcs xs [] = 0"
  by (cases xs) auto

definition row_ok :: "'a list \<Rightarrow> 'a list \<Rightarrow> nat list \<Rightarrow> bool" where
  "row_ok xs b r \<longleftrightarrow> length r = length b + 1 \<and> (\<forall>j \<le> length b. r ! j = llcs xs (drop j b))"

lemma row_ok_Nil: "row_ok [] b (replicate (length b + 1) 0)"
  by (auto simp: row_ok_def simp del: replicate_Suc)

lemma row_ok_tl: "row_ok xs (y # ys) (d # r) \<Longrightarrow> d = llcs xs (y # ys) \<and> row_ok xs ys r"
  unfolding row_ok_def by (auto simp: nth_Cons' dest: spec [of _ 0])

lemma row_ok_hd: "row_ok xs b r \<Longrightarrow> r \<noteq> [] \<and> hd r = llcs xs b"
  by (cases r) (auto simp: row_ok_def dest: spec [of _ 0])

lemma row_ok_Cons: "row_ok xs ys r \<Longrightarrow> d = llcs xs (y # ys) \<Longrightarrow> row_ok xs (y # ys) (d # r)"
  by (auto simp: row_ok_def nth_Cons' drop_Cons' )

lemma lcs_row_ok: "row_ok xs b r \<Longrightarrow> row_ok (x # xs) b (lcs_row x b r)"
proof (induction x b r rule: lcs_row.induct)
  case (1 x y ys d r rs)
  note h = row_ok_tl [OF "1.prems"]
  let ?rest = "lcs_row x ys (r # rs)"
  have k: "row_ok (x # xs) ys ?rest" using "1.IH" h by blast
  have r: "r = llcs xs ys" using row_ok_hd [of xs ys "r # rs"] h by simp
  have "(if x = y then r + 1 else if d \<ge> hd ?rest then d else hd ?rest) = llcs (x # xs) (y # ys)"
    using h r row_ok_hd [OF k] by (auto simp: max_def)
  then show ?case using row_ok_Cons [OF k, of _ y] by (simp add: Let_def)
qed (auto simp: row_ok_def length_Suc_conv)

lemma lcs_table_rows:
  "length (lcs_table xs b) = length xs + 1 \<and> (\<forall>i \<le> length xs. row_ok (drop i xs) b (lcs_table xs b ! i))"
proof (induction xs)
  case Nil
  then show ?case using row_ok_Nil [of b] by simp
next
  case (Cons x xs)
  have "hd (lcs_table xs b) = lcs_table xs b ! 0" using Cons by (cases "lcs_table xs b") auto
  then have "row_ok (x # xs) b (lcs_row x b (hd (lcs_table xs b)))"
    using Cons lcs_row_ok [of xs b] by auto
  then show ?case using Cons by (auto simp: Let_def nth_Cons' drop_Cons' less_Suc_eq_le)
qed

lemma lcs_table_llcs:
  "i \<le> length a \<Longrightarrow> j \<le> length b \<Longrightarrow> lcs_table a b ! i ! j = llcs (drop i a) (drop j b)"
  using lcs_table_rows [of a b] by (auto simp: row_ok_def)

text \<open>The lines of a diff that stand for the old and for the new file.\<close>

definition side :: "char \<Rightarrow> string list \<Rightarrow> string list" where
  "side c ops = map tl (filter (\<lambda>l. hd l = CHR '' '' \<or> hd l = c) ops)"

lemma side_simps [simp]:
  "side c [] = []"
  "side c ((x # l) # ops) = (if x = CHR '' '' \<or> x = c then l # side c ops else side c ops)"
  by (simp_all add: side_def)

definition common :: "string list \<Rightarrow> nat" where
  "common ops = length (filter (\<lambda>l. hd l = CHR '' '') ops)"

lemma common_simps [simp]:
  "common [] = 0" "common ((x # l) # ops) = (if x = CHR '' '' then 1 else 0) + common ops"
  by (simp_all add: common_def)

lemma drop_nth: "i < length a \<Longrightarrow> drop i a = a ! i # drop (Suc i) a"
  by (simp add: Cons_nth_drop_Suc)

lemma walk_correct:
  assumes "L = lcs_table a b" "i \<le> length a" "j \<le> length b"
  shows "side CHR ''-'' (walk a b L i j) = map nl (drop i a) \<and> side CHR ''+'' (walk a b L i j) = map nl (drop j b)
    \<and> common (walk a b L i j) = llcs (drop i a) (drop j b)"
  using assms
proof (induction a b L i j rule: walk.induct)
  case (1 a b L i j)
  consider (M) "i < length a" "j < length b" "a ! i = b ! j"
    | (P) "j < length b" "i \<ge> length a \<or> a ! i \<noteq> b ! j \<and> L ! i ! (j + 1) \<ge> L ! (i + 1) ! j"
    | (D) "i < length a" "j \<ge> length b \<or> a ! i \<noteq> b ! j \<and> \<not> L ! i ! (j + 1) \<ge> L ! (i + 1) ! j"
    | (E) "i \<ge> length a" "j \<ge> length b"
    by fastforce
  then show ?case
  proof cases
    case M
    have "walk a b L i j = ('' '' @ nl (a ! i)) # walk a b L (i + 1) (j + 1)" using M by (simp add: walk.simps [of a b L i])
    then show ?thesis using "1.IH"(1) M "1.prems" drop_nth [of i a] drop_nth [of j b] by simp
  next
    case P
    have w: "walk a b L i j = (''+'' @ nl (b ! j)) # walk a b L i (j + 1)" using P by (auto simp: walk.simps [of a b L i])
    have "llcs (drop i a) (drop j b) = llcs (drop i a) (drop (j + 1) b)"
    proof (cases "i < length a")
      case True
      then have "a ! i \<noteq> b ! j" "llcs (drop (i + 1) a) (drop j b) \<le> llcs (drop i a) (drop (j + 1) b)"
        using P "1.prems" by (auto simp: lcs_table_llcs)
      then show ?thesis using drop_nth [OF True] drop_nth [OF P(1)] by (simp add: max_def)
    qed simp
    then show ?thesis using "1.IH"(2) P "1.prems" drop_nth [of j b] w by auto
  next
    case D
    have w: "walk a b L i j = (''-'' @ nl (a ! i)) # walk a b L (i + 1) j" using D by (auto simp: walk.simps [of a b L i])
    have "llcs (drop i a) (drop j b) = llcs (drop (i + 1) a) (drop j b)"
    proof (cases "j < length b")
      case True
      then have "a ! i \<noteq> b ! j" "llcs (drop i a) (drop (j + 1) b) \<le> llcs (drop (i + 1) a) (drop j b)"
        using D "1.prems" by (auto simp: lcs_table_llcs)
      then show ?thesis using drop_nth [OF True] drop_nth [OF D(1)] by (simp add: max_def)
    qed simp
    then show ?thesis using "1.IH"(3) D "1.prems" drop_nth [of i a] w by auto
  next
    case E
    then show ?thesis by (simp add: walk.simps [of a b L i])
  qed
qed

lemma lcs_table_bound:
  assumes "length a * length b \<le> 250000" "i \<le> length a" "j \<le> length b"
  shows "lcs_table a b ! i ! j \<le> 500"
proof -
  let ?l = "llcs (drop i a) (drop j b)"
  have "?l \<le> length a" "?l \<le> length b" using llcs_bound [of "drop i a" "drop j b"] by auto
  then have "?l * ?l \<le> 250000" using assms(1) mult_le_mono le_trans by blast
  moreover have "501 * 501 \<le> ?l * ?l" if "501 \<le> ?l" using mult_le_mono [OF that that] .
  ultimately have "?l \<le> 500" by fastforce
  then show ?thesis using assms by (simp add: lcs_table_llcs)
qed

text \<open>
  C35. The middle of a file diff rebuilds both files: its kept and removed lines are the old lines, its kept
  and added lines the new ones. Up to 250000 pairs of lines it is shortest: it keeps as many lines as any
  common subsequence has, and the 32-bit entries of the table hold at most 500.
\<close>

theorem line_ops_minimal:
  "side CHR ''-'' (lineOps a b) = map nl a \<and> side CHR ''+'' (lineOps a b) = map nl b
   \<and> (length a * length b \<le> 250000 \<longrightarrow>
        (\<forall>zs. subseq zs a \<longrightarrow> subseq zs b \<longrightarrow> length zs \<le> common (lineOps a b))
      \<and> (\<forall>i \<le> length a. \<forall>j \<le> length b. lcs_table a b ! i ! j \<le> 500))"
proof (cases "length a * length b > 250000")
  case True
  have "side CHR ''-'' (map (\<lambda>l. ''-'' @ nl l) a @ map (\<lambda>l. ''+'' @ nl l) b) = map nl a"
    "side CHR ''+'' (map (\<lambda>l. ''-'' @ nl l) a @ map (\<lambda>l. ''+'' @ nl l) b) = map nl b"
    by (simp_all add: side_def filter_map comp_def)
  then show ?thesis using True by (simp add: lineOps_def)
next
  case False
  then show ?thesis
    using walk_correct [OF refl, of 0 a 0 b] llcs_upper [of _ a b] lcs_table_bound [of a b]
    by (simp add: lineOps_def)
qed

theorem line_ops_minimal_witness:
  "subseq [''a'', ''c''] [''a'', ''b'', ''c''] \<and> subseq [''a'', ''c''] [''a'', ''c'', ''d'']
   \<and> length [''a'', ''c''] \<le> common (lineOps [''a'', ''b'', ''c''] [''a'', ''c'', ''d''])"
proof -
  have s: "subseq [''a'', ''c''] [''a'', ''b'', ''c'']" "subseq [''a'', ''c''] [''a'', ''c'', ''d'']" by simp_all
  have "length [''a'', ''b'', ''c''] * length [''a'', ''c'', ''d''] \<le> 250000" by simp
  then show ?thesis using line_ops_minimal [of "[''a'', ''b'', ''c'']" "[''a'', ''c'', ''d'']"] s by blast
qed

text \<open>\<open>strings.ReplaceAll\<close> for a text that is not empty, and \<open>strings.SplitAfter\<close> at line feeds.\<close>

function ReplaceAll :: "string \<Rightarrow> string \<Rightarrow> string \<Rightarrow> string" where
  "ReplaceAll s v r =
     (if v \<noteq> [] \<and> HasPrefix s v then r @ ReplaceAll (drop (length v) s) v r
      else (case s of [] \<Rightarrow> [] | c # cs \<Rightarrow> c # ReplaceAll cs v r))"
  by pat_completeness auto
termination
  by (relation "measure (\<lambda>(s, v, r). length s)") (auto simp: HasPrefix_iff)

declare ReplaceAll.simps [simp del]

fun SplitAfter :: "char \<Rightarrow> string \<Rightarrow> string list" where
  "SplitAfter c [] = [[]]"
| "SplitAfter c (x # xs) =
     (if x = c then [x] # SplitAfter c xs
      else (case SplitAfter c xs of [] \<Rightarrow> [[x]] | p # ps \<Rightarrow> (x # p) # ps))"

definition maskSecrets :: "smap \<Rightarrow> string \<Rightarrow> string" where
  "maskSecrets secrets text =
     fold (\<lambda>k t. let v = the (map_of secrets k) in if length v \<ge> 4 then ReplaceAll t v ''******'' else t)
       (sortedKeys secrets) text"

fun commonPrefix :: "'a list \<Rightarrow> 'a list \<Rightarrow> nat" where
  "commonPrefix (x # xs) (y # ys) = (if x = y then Suc (commonPrefix xs ys) else 0)"
| "commonPrefix _ _ = 0"

definition fileDiff :: "string \<Rightarrow> string \<Rightarrow> string \<Rightarrow> smap \<Rightarrow> string" where
  "fileDiff path old new secrets =
     (let old = maskSecrets secrets old; new = maskSecrets secrets new in
      if old = new then []
      else (let a = SplitAfter CHR 0x0A old; b = SplitAfter CHR 0x0A new;
                i = commonPrefix a b;
                j = commonPrefix (rev (drop i a)) (rev (drop i b));
                after = takeWhile (\<lambda>l. l \<noteq> []) (take 3 (drop (length a - j) a))
            in ''--- '' @ path @ [CHR 0x0A] @ ''+++ '' @ path @ [CHR 0x0A]
               @ ''@@ -'' @ Itoa_nat (i + 1) @ '' +'' @ Itoa_nat (i + 1) @ '' @@'' @ [CHR 0x0A]
               @ concat (map (\<lambda>l. '' '' @ nl l) (drop (i - 3) (take i a)))
               @ concat (lineOps (drop i (take (length a - j) a)) (drop i (take (length b - j) b)))
               @ concat (map (\<lambda>l. '' '' @ nl l) after)))"

text \<open>
  The values are masked in the order of their keys: where one secret is the beginning of another, masking the
  short one first leaves the rest of the long one in the diff.
\<close>

lemma masking_leaves_rest:
  "maskSecrets [(''a'', ''hunter''), (''b'', ''hunter2-home'')] ''psk=hunter2-home'' = ''psk=******2-home''"
  by code_simp

lemma concat_SplitAfter: "concat (SplitAfter c s) = s"
proof (induction s)
  case (Cons x xs)
  then show ?case by (cases "SplitAfter c xs") auto
qed simp

lemma commonPrefix_take: "take (commonPrefix xs ys) xs = take (commonPrefix xs ys) ys
    \<and> commonPrefix xs ys \<le> length xs \<and> commonPrefix xs ys \<le> length ys"
  by (induction xs ys rule: commonPrefix.induct) auto

text \<open>The unchanged head and tail around the middle: the two files agree there.\<close>

lemma fileDiff_frame:
  assumes "i = commonPrefix a b" "j = commonPrefix (rev (drop i a)) (rev (drop i b))"
  shows "take i a = take i b" "drop (length a - j) a = drop (length b - j) b" "i + j \<le> length a" "i + j \<le> length b"
proof -
  note p = commonPrefix_take [of a b] and q = commonPrefix_take [of "rev (drop i a)" "rev (drop i b)"]
  show "take i a = take i b" using p assms by simp
  show ja: "i + j \<le> length a" and jb: "i + j \<le> length b" using p q assms by auto
  have "take j (rev (drop i a)) = take j (rev (drop i b))" using q assms(2) by simp
  then have "rev (take j (rev (drop i a))) = rev (take j (rev (drop i b)))" by simp
  then have "drop (length (drop i a) - j) (drop i a) = drop (length (drop i b) - j) (drop i b)"
    by (simp only: take_rev rev_rev_ident)
  then show "drop (length a - j) a = drop (length b - j) b" using ja jb by (simp add: add.commute)
qed

end
