(* ===== verification/Modules.thy ===== *)
theory Modules
  imports Mr_Prelude
begin

text \<open>
  The module framework: \<open>mr/module.go\<close>, \<open>mr/render.go\<close> and the parts of \<open>mr/config.go\<close> that run over the
  modules. A module is a record of optional functions; the ones in use here are its fields. A module's
  \<open>Render\<close> returns the files it adds, its \<open>Validate\<close> the problems it reports, its \<open>NetSh\<close> and \<open>Nft\<close> the text
  they append. The list \<open>ms\<close> stands for the global variable \<open>modules\<close>.
\<close>

record File =
  fPath :: string
  fMode :: nat
  fData :: string

record Network =
  netName :: string
  netIPv4 :: string
  netZone :: string
  netIPv6RA :: bool

record WAN =
  wanName :: string
  wanDev :: string
  wanVLAN :: int
  wanProto :: string
  wanIPv6 :: bool
  wanModem :: string

text \<open>The sections of the config the core reads; modules see the whole of it through the record's extension.\<close>

record Config =
  Watchdog :: "bool option"
  History :: int
  Bridge :: string
  LanIPv4 :: string
  LanIPv6RA :: bool
  Networks :: "Network list"
  WANs :: "WAN list"
  nftRules :: string

text \<open>A file system: the data and mode of each path.\<close>

type_synonym fsys = "(string \<times> string \<times> nat) list"

record 'c Module =
  Name :: string
  Prio :: int
  Defaults :: "('c \<Rightarrow> 'c) option"
  Validate :: "('c \<Rightarrow> string list) option"
  Render :: "('c \<Rightarrow> string + File list) option"
  NetSh :: "('c \<Rightarrow> string \<Rightarrow> string) option"
  Nft :: "('c \<Rightarrow> string \<Rightarrow> string list) option"
  Dnsmasq :: "('c \<Rightarrow> string list) option"
  Services :: "('c \<Rightarrow> string list) option"
  Managed :: "string list"
  Restart :: "(string \<Rightarrow> string) option"
  RestartOrder :: "string list"
  Verify :: "('c \<Rightarrow> string list \<Rightarrow> string list) option"
  Orphans :: "('c \<Rightarrow> fsys \<Rightarrow> string list) option"
  TokenScope :: "(string \<times> string) list"

text \<open>A field applied where it is set: Go's \<open>if m.F != nil\<close>.\<close>

definition call :: "('a \<Rightarrow> 'b list) option \<Rightarrow> 'a \<Rightarrow> 'b list" where
  "call f x = (case f of None \<Rightarrow> [] | Some g \<Rightarrow> g x)"

section \<open>Registration\<close>

text \<open>
  \<open>register\<close> adds the module's token scopes to the global table and inserts the module by priority, after the
  modules of the same priority (a stable sort of a sorted list and one new element). \<open>None\<close> is the panic on
  two scopes for one action; Go ranges over the map in any order, and the panic does not depend on it.
\<close>

definition scopeClash :: "(string \<times> string) list \<Rightarrow> (string \<times> string) list \<Rightarrow> bool" where
  "scopeClash scopes new \<longleftrightarrow> (\<exists>(a, s) \<in> set new. \<exists>old. map_of scopes a = Some old \<and> old \<noteq> s)"

definition register ::
  "'c Module \<Rightarrow> 'c Module list \<times> (string \<times> string) list \<Rightarrow> ('c Module list \<times> (string \<times> string) list) option" where
  "register m st =
     (case st of (ms, scopes) \<Rightarrow>
        if scopeClash scopes (TokenScope m) then None
        else Some (sort_key Prio (ms @ [m]), TokenScope m @ scopes))"

section \<open>Rendering\<close>

definition GenDir :: string where
  "GenDir = ''/etc/mini-router/gen''"

definition enabledServices :: "'c Config_scheme Module list \<Rightarrow> 'c Config_scheme \<Rightarrow> string list" where
  "enabledServices ms c =
     dedup ([''mr-network'', ''mr-firewall'']
            @ (if Watchdog c = None \<or> Watchdog c = Some True then [''watchdog''] else [])
            @ concat (map (\<lambda>m. call (Services m) c) ms))"

definition netShPhases :: "string list" where
  "netShPhases = [''links'', ''wifi'', ''routes'', ''tail'']"

definition lf :: string where
  "lf = [CHR 0x0A]"

definition renderNetwork :: "'c Module list \<Rightarrow> 'c \<Rightarrow> string" where
  "renderNetwork ms c =
     ''#!/bin/sh'' @ lf @ ''# generated by mr'' @ [CHR '' '', CHR 0xE2, CHR 0x80, CHR 0x94] @ '' edit router.yaml instead'' @ lf
     @ ''set -u'' @ lf @ ''mkdir -p /run/mini-router'' @ lf
     @ ''ip link set lo up'' @ lf @ ''ip link set eth0 up 2>/dev/null'' @ lf
     @ concat (map (\<lambda>ph. ''# --- '' @ ph @ lf
                       @ concat (map (\<lambda>m. case NetSh m of None \<Rightarrow> [] | Some f \<Rightarrow> f c ph) ms)) netShPhases)"

text \<open>The files of the modules in order; the first error ends the loop.\<close>

fun renderModules :: "'c Module list \<Rightarrow> 'c \<Rightarrow> string + File list" where
  "renderModules [] c = Inr []"
| "renderModules (m # ms) c =
     (case Render m of
        None \<Rightarrow> renderModules ms c
      | Some f \<Rightarrow> (case f c of Inl e \<Rightarrow> Inl e
                   | Inr fs \<Rightarrow> map_sum id (\<lambda>r. fs @ r) (renderModules ms c)))"

definition Render_all :: "'c Config_scheme Module list \<Rightarrow> 'c Config_scheme \<Rightarrow> string + File list" where
  "Render_all ms c =
     (case renderModules ms c of Inl e \<Rightarrow> Inl e
      | Inr fs \<Rightarrow> Inr (\<lparr>fPath = GenDir @ ''/network.sh'', fMode = 493, fData = renderNetwork ms c\<rparr> # fs
                  @ [\<lparr>fPath = GenDir @ ''/services'', fMode = 420, fData = Join (enabledServices ms c) lf @ lf\<rparr>]))"

definition dnsmasqExtra :: "'c Module list \<Rightarrow> 'c \<Rightarrow> string list" where
  "dnsmasqExtra ms c = concat (map (\<lambda>m. call (Dnsmasq m) c) ms)"

definition emitNft :: "'c Module list \<Rightarrow> 'c \<Rightarrow> string \<Rightarrow> string" where
  "emitNft ms c hook =
     (let indent = (if hook = ''defs'' then [CHR 0x09] else [CHR 0x09, CHR 0x09])
      in concat (map (\<lambda>m. case Nft m of None \<Rightarrow> []
                            | Some f \<Rightarrow> concat (map (\<lambda>l. indent @ l @ lf) (f c hook))) ms))"

section \<open>The config over all modules\<close>

definition defaults :: "'c Module list \<Rightarrow> 'c \<Rightarrow> 'c" where
  "defaults ms c = fold (\<lambda>m c. case Defaults m of None \<Rightarrow> c | Some f \<Rightarrow> f c) ms c"

text \<open>The two checks of the core after the modules' are arguments: \<open>modeValidate\<close> and \<open>guardValidate\<close>.\<close>

definition Validate_all :: "('c \<Rightarrow> string list) \<Rightarrow> ('c \<Rightarrow> string list) \<Rightarrow> 'c Module list \<Rightarrow> 'c \<Rightarrow> string list" where
  "Validate_all modeValidate guardValidate ms c =
     concat (map (\<lambda>m. call (Validate m) c) ms) @ modeValidate c @ guardValidate c"

definition Secret :: "(string \<times> string) list \<Rightarrow> string \<Rightarrow> string + string" where
  "Secret secrets key =
     (if key = [] then Inr []
      else (case map_of secrets key of
              None \<Rightarrow> Inl (''secret '' @ key @ '' missing from secrets.yaml'')
            | Some v \<Rightarrow> Inr v))"

section \<open>Patterns\<close>

definition lower :: "char \<Rightarrow> bool" where
  "lower c \<longleftrightarrow> 97 \<le> (of_char c :: nat) \<and> (of_char c :: nat) \<le> 122"

text \<open>\<open>^[a-z][a-z0-9_-]{0,14}$\<close>\<close>

definition reName :: "string \<Rightarrow> bool" where
  "reName s \<longleftrightarrow> s \<noteq> [] \<and> length s \<le> 15 \<and> lower (hd s)
     \<and> list_all (\<lambda>c. lower c \<or> isDigit c \<or> c = CHR ''_'' \<or> c = CHR ''-'') (tl s)"

section \<open>Networks\<close>

record LANNet =
  lnName :: string
  lnBridge :: string
  lnIPv4 :: string
  lnZone :: string
  lnIPv6RA :: bool

definition BridgeName :: "Network \<Rightarrow> string" where
  "BridgeName n = ''br-'' @ netName n"

definition LANNets :: "'c Config_scheme \<Rightarrow> LANNet list" where
  "LANNets c =
     \<lparr>lnName = ''lan'', lnBridge = Bridge c, lnIPv4 = LanIPv4 c, lnZone = ''lan'', lnIPv6RA = LanIPv6RA c\<rparr>
     # map (\<lambda>n. \<lparr>lnName = netName n, lnBridge = BridgeName n, lnIPv4 = netIPv4 n, lnZone = netZone n, lnIPv6RA = netIPv6RA n\<rparr>)
         (Networks c)"

definition BridgeFor :: "'c Config_scheme \<Rightarrow> string \<Rightarrow> string" where
  "BridgeFor c network =
     (if network = [] \<or> network = ''lan'' then Bridge c
      else (case find (\<lambda>n. netName n = network) (Networks c) of Some n \<Rightarrow> BridgeName n | None \<Rightarrow> []))"

definition LANBridges :: "'c Config_scheme \<Rightarrow> string list" where
  "LANBridges c = map lnBridge (LANNets c)"

definition LinkDev :: "WAN \<Rightarrow> string" where
  "LinkDev w = (if wanVLAN w > 0 then wanDev w @ ''.'' @ Itoa (wanVLAN w) else wanDev w)"

definition Ifname :: "WAN \<Rightarrow> string" where
  "Ifname w = (if wanProto w = ''pppoe'' then ''pppoe-'' @ wanName w else LinkDev w)"

definition WANByName :: "'c Config_scheme \<Rightarrow> string \<Rightarrow> WAN option" where
  "WANByName c n = find (\<lambda>w. wanName w = n) (WANs c)"

definition WANIfnames :: "'c Config_scheme \<Rightarrow> string list" where
  "WANIfnames c = map Ifname (WANs c)"

section \<open>Lemmas\<close>

lemma register_sorted:
  assumes "register m (ms, scopes) = Some (ms', scopes')" "sorted (map Prio ms)"
  shows "sorted (map Prio ms')" "mset ms' = add_mset m (mset ms)"
proof -
  have "ms' = sort_key Prio (ms @ [m])" using assms(1) by (simp add: register_def split: if_splits)
  then show "sorted (map Prio ms')" "mset ms' = add_mset m (mset ms)" by (simp_all only: sorted_sort_key mset_sort) simp
qed

lemma register_position:
  assumes "sorted (map Prio ms)"
  shows "sort_key Prio (ms @ [m]) = takeWhile (\<lambda>x. Prio x \<le> Prio m) ms @ m # dropWhile (\<lambda>x. Prio x \<le> Prio m) ms"
    (is "_ = ?r")
proof (rule properties_for_sort_key)
  have "mset (takeWhile (\<lambda>x. Prio x \<le> Prio m) ms) + mset (dropWhile (\<lambda>x. Prio x \<le> Prio m) ms) = mset ms"
    by (metis mset_append takeWhile_dropWhile_id)
  then show "mset ?r = mset (ms @ [m])" by simp
  show "sorted (map Prio ?r)"
  proof -
    have "\<forall>x \<in> set (dropWhile (\<lambda>x. Prio x \<le> Prio m) ms). Prio m \<le> Prio x"
      using assms
    proof (induction ms)
      case (Cons a as)
      then show ?case by (auto simp: not_le dest: order.strict_trans1)
    qed simp
    moreover have "sorted (map Prio (takeWhile (\<lambda>x. Prio x \<le> Prio m) ms))"
      using assms by (metis map_append sorted_append takeWhile_dropWhile_id)
    moreover have "sorted (map Prio (dropWhile (\<lambda>x. Prio x \<le> Prio m) ms))"
      using assms by (metis map_append sorted_append takeWhile_dropWhile_id)
    ultimately show ?thesis
      by (auto simp: sorted_append dest!: set_takeWhileD intro: order_trans)
  qed
next
  fix k
  show "filter (\<lambda>x. Prio k = Prio x) ?r = filter (\<lambda>x. Prio k = Prio x) (ms @ [m])"
  proof (cases "Prio k = Prio m")
    case True
    have "filter (\<lambda>x. Prio k = Prio x) (dropWhile (\<lambda>x. Prio x \<le> Prio m) ms) = []"
      using assms True
    proof (induction ms)
      case (Cons a as)
      then show ?case by (auto simp: filter_empty_conv)
    qed simp
    moreover have "filter (\<lambda>x. Prio k = Prio x) ms = filter (\<lambda>x. Prio k = Prio x) (takeWhile (\<lambda>x. Prio x \<le> Prio m) ms)
       @ filter (\<lambda>x. Prio k = Prio x) (dropWhile (\<lambda>x. Prio x \<le> Prio m) ms)"
      by (metis filter_append takeWhile_dropWhile_id)
    ultimately show ?thesis using True by simp
  next
    case False
    moreover have "filter (\<lambda>x. Prio k = Prio x) ms = filter (\<lambda>x. Prio k = Prio x) (takeWhile (\<lambda>x. Prio x \<le> Prio m) ms)
       @ filter (\<lambda>x. Prio k = Prio x) (dropWhile (\<lambda>x. Prio x \<le> Prio m) ms)"
      by (metis filter_append takeWhile_dropWhile_id)
    ultimately show ?thesis by simp
  qed
qed

lemma renderModules_Inr:
  "renderModules ms c = Inr fs \<Longrightarrow>
   fs = concat (map (\<lambda>m. case Render m of None \<Rightarrow> [] | Some f \<Rightarrow> (case f c of Inr x \<Rightarrow> x | Inl e \<Rightarrow> [])) ms)
   \<and> (\<forall>m \<in> set ms. \<forall>f. Render m = Some f \<longrightarrow> \<not> isl (f c))"
proof (induction ms arbitrary: fs)
  case (Cons m ms)
  show ?case
  proof (cases "Render m")
    case None
    then show ?thesis using Cons by simp
  next
    case (Some f)
    then obtain x r where "f c = Inr x" "renderModules ms c = Inr r" "fs = x @ r"
      using Cons.prems by (auto split: sum.splits) (cases "renderModules ms c"; auto)
    then show ?thesis using Cons.IH Some by auto
  qed
qed simp

end
