(* ===== verification/Svc_Plan.thy ===== *)
theory Svc_Plan
  imports Modules
begin

text \<open>
  What an apply will do: the planning half of \<open>mr/apply.go\<close>. The file system is an association list from
  paths to their data and mode, the default runlevel the list of its entries. Go ranges over the set of
  services to restart in an arbitrary order before it sorts them by rank: the order is the argument
  \<open>iter\<close>, a permutation.

  Shown: a plan is empty exactly when the system is as the config wants it (\<open>plan_empty_iff\<close>); it restarts
  the services of the changed files that the config runs, lower layers first (\<open>plan_services\<close>); files of a
  configured WAN and files mr did not generate are never removed (\<open>orphans_safe\<close>); pruning the history
  keeps the newest snapshots and the one just written (\<open>prune_keeps_newest\<close>).
\<close>

section \<open>Paths and files\<close>

definition readFile :: "fsys \<Rightarrow> string \<Rightarrow> string option" where
  "readFile fs p = map_option fst (map_of fs p)"

text \<open>\<open>filepath.Base\<close>, \<open>Dir\<close> and \<open>Join\<close> for clean absolute paths.\<close>

definition Base :: "string \<Rightarrow> string" where
  "Base p = last (SplitByte CHR ''/'' p)"

definition Dir :: "string \<Rightarrow> string" where
  "Dir p = Join (butlast (SplitByte CHR ''/'' p)) ''/''"

definition JoinP :: "string \<Rightarrow> string \<Rightarrow> string" where
  "JoinP d n = d @ ''/'' @ n"

text \<open>\<open>os.ReadDir\<close>: the names of the files of a directory, sorted.\<close>

definition readDir :: "fsys \<Rightarrow> string \<Rightarrow> string list" where
  "readDir fs d = sort (remdups (map Base (filter (\<lambda>p. Dir p = d) (map fst fs))))"

definition initDir :: string where "initDir = ''/etc/init.d''"

definition pppPeersDir :: string where "pppPeersDir = ''/etc/ppp/peers''"

definition ConfigPath :: string where "ConfigPath = ''/etc/mini-router/router.yaml''"

definition SecretsPath :: string where "SecretsPath = ''/etc/mini-router/secrets.yaml''"

definition nftPath :: string where "nftPath = GenDir @ ''/nftables.nft''"

section \<open>Services\<close>

fun firstRestart :: "'c Module list \<Rightarrow> string \<Rightarrow> string" where
  "firstRestart [] path = []"
| "firstRestart (m # ms) path =
     (case Restart m of
        None \<Rightarrow> firstRestart ms path
      | Some f \<Rightarrow> (let s = f path in
                   if s \<noteq> [] then (if s = ''-'' then [] else s) else firstRestart ms path))"

definition serviceFor :: "'c Module list \<Rightarrow> string \<Rightarrow> string" where
  "serviceFor ms path = (if path = GenDir @ ''/network.sh'' then ''mr-network'' else firstRestart ms path)"

definition restartOrder :: "'c Module list \<Rightarrow> string list" where
  "restartOrder ms = [''hostname'', ''sysctl'', ''mr-network''] @ concat (map RestartOrder ms)"

definition matches :: "string \<Rightarrow> string \<Rightarrow> bool" where
  "matches s p \<longleftrightarrow> s = p \<or> (HasSuffix p ''.'' \<and> HasPrefix s p)"

fun firstIdx :: "('a \<Rightarrow> bool) \<Rightarrow> 'a list \<Rightarrow> nat" where
  "firstIdx P [] = 0"
| "firstIdx P (x # xs) = (if P x then 0 else Suc (firstIdx P xs))"

definition rank :: "'c Module list \<Rightarrow> string \<Rightarrow> nat" where
  "rank ms s = firstIdx (matches s) (restartOrder ms)"

definition instancePrefixes :: "'c Module list \<Rightarrow> string list" where
  "instancePrefixes ms = ''mr-pppoe.'' # concat (map (\<lambda>m. filter (\<lambda>o'. HasSuffix o' ''.'') (RestartOrder m)) ms)"

definition managedServices :: "'c Module list \<Rightarrow> fsys \<Rightarrow> string list" where
  "managedServices ms fs =
     dedup (concat (map Managed ms)
            @ filter (\<lambda>e. \<exists>p \<in> set (instancePrefixes ms). HasPrefix e p) (readDir fs initDir))"

definition managedRunlevelService :: "'c Config_scheme Module list \<Rightarrow> fsys \<Rightarrow> 'c Config_scheme \<Rightarrow> string \<Rightarrow> bool" where
  "managedRunlevelService ms fs c name \<longleftrightarrow>
     name \<in> set (managedServices ms fs) \<or> name \<in> set (enabledServices ms c)
     \<or> (\<exists>m \<in> set ms. \<exists>p \<in> set (RestartOrder m). HasSuffix p ''.'' \<and> HasPrefix name p)
     \<or> HasPrefix name ''mr-pppoe.'' \<or> HasPrefix name ''mr-udhcpc.''"

section \<open>Files that are no longer wanted\<close>

definition removedWANService :: "string \<Rightarrow> string" where
  "removedWANService path =
     (let base = Base path in
      if Dir path = initDir \<and> (HasPrefix base ''mr-pppoe.'' \<or> HasPrefix base ''mr-udhcpc.'') then base
      else if Dir path = pppPeersDir \<and> base \<noteq> [] \<and> CHR ''/'' \<notin> set base then ''mr-pppoe.'' @ base
      else [])"

definition generatedByMR :: "fsys \<Rightarrow> string \<Rightarrow> bool" where
  "generatedByMR fs path = (case readFile fs path of None \<Rightarrow> False | Some d \<Rightarrow> HasPrefix d ''# generated by mr'')"

definition wanted :: "string \<Rightarrow> WAN list \<Rightarrow> string \<Rightarrow> bool" where
  "wanted proto ws name \<longleftrightarrow> (\<exists>w \<in> set ws. wanProto w = proto \<and> wanName w = name)"

definition orphanPeers :: "WAN list \<Rightarrow> fsys \<Rightarrow> string list" where
  "orphanPeers ws fs =
     filter (generatedByMR fs)
       (map (JoinP pppPeersDir) (filter (\<lambda>n. \<not> wanted ''pppoe'' ws n) (readDir fs pppPeersDir)))"

definition orphanInit :: "WAN list \<Rightarrow> fsys \<Rightarrow> string list" where
  "orphanInit ws fs =
     map (JoinP initDir)
       (filter (\<lambda>name.
           if HasPrefix name ''mr-pppoe.'' then \<not> wanted ''pppoe'' ws (TrimPrefix name ''mr-pppoe.'')
           else if HasPrefix name ''mr-udhcpc.'' then \<not> wanted ''dhcp'' ws (TrimPrefix name ''mr-udhcpc.'')
           else False)
         (readDir fs initDir))"

definition orphanWANPaths :: "'c Config_scheme \<Rightarrow> fsys \<Rightarrow> string list" where
  "orphanWANPaths c fs = orphanPeers (WANs c) fs @ orphanInit (WANs c) fs"

definition moduleOrphanPaths :: "'c Module list \<Rightarrow> 'c \<Rightarrow> fsys \<Rightarrow> string list" where
  "moduleOrphanPaths ms c fs = dedup (concat (map (\<lambda>m. case Orphans m of None \<Rightarrow> [] | Some f \<Rightarrow> f c fs) ms))"

section \<open>Plans\<close>

record Plan =
  Changed :: "File list"
  Remove :: "string list"
  PServices :: "string list"
  Firewall :: bool
  Enable :: "string list"
  Disable :: "string list"

text \<open>\<open>files\<close>: what \<open>Render\<close> and \<open>appliedFiles\<close> return; \<open>have\<close>: the entries of the default runlevel.\<close>

definition off :: "'c Config_scheme Module list \<Rightarrow> fsys \<Rightarrow> 'c Config_scheme \<Rightarrow> string \<Rightarrow> bool" where
  "off ms fs c s \<longleftrightarrow> s \<in> set (managedServices ms fs) \<and> s \<notin> set (enabledServices ms c)"

definition planChanged :: "fsys \<Rightarrow> File list \<Rightarrow> File list" where
  "planChanged fs files = filter (\<lambda>f. readFile fs (fPath f) \<noteq> Some (fData f)) files"

definition planSvc :: "'c Config_scheme Module list \<Rightarrow> fsys \<Rightarrow> 'c Config_scheme \<Rightarrow> File list \<Rightarrow> string list" where
  "planSvc ms fs c changed =
     dedup (filter (\<lambda>s. s \<noteq> [] \<and> \<not> off ms fs c s) (map (\<lambda>f. serviceFor ms (fPath f)) changed))"

definition mkPlan ::
  "(string list \<Rightarrow> string list) \<Rightarrow> 'c Config_scheme Module list \<Rightarrow> fsys \<Rightarrow> string list \<Rightarrow> 'c Config_scheme \<Rightarrow> File list \<Rightarrow> Plan" where
  "mkPlan iter ms fs have c files =
     (let changed = planChanged fs files in
      \<lparr>Changed = changed,
       Remove = orphanWANPaths c fs @ moduleOrphanPaths ms c fs,
       PServices = sort_key (rank ms) (iter (planSvc ms fs c changed)),
       Firewall = ((case readFile fs nftPath of None \<Rightarrow> [] | Some d \<Rightarrow> d) \<noteq> nftRules c),
       Enable = sort (filter (\<lambda>s. s \<notin> set have) (enabledServices ms c)),
       Disable = sort (filter (\<lambda>s. s \<in> set have \<and> s \<notin> set (enabledServices ms c)) (managedServices ms fs))\<rparr>)"

definition plan ::
  "(string list \<Rightarrow> string list) \<Rightarrow> 'c Config_scheme Module list \<Rightarrow> ('c Config_scheme \<Rightarrow> File list) \<Rightarrow> fsys \<Rightarrow> string list
    \<Rightarrow> 'c Config_scheme \<Rightarrow> string + Plan" where
  "plan iter ms appliedFiles fs have c =
     map_sum id (\<lambda>files. mkPlan iter ms fs have c (files @ appliedFiles c)) (Render_all ms c)"

definition Empty :: "Plan \<Rightarrow> bool" where
  "Empty p \<longleftrightarrow> Changed p = [] \<and> Remove p = [] \<and> \<not> Firewall p \<and> Enable p = [] \<and> Disable p = []"

definition appliedYAML :: string where "appliedYAML = GenDir @ ''/applied.yaml''"

definition appliedSecrets :: string where "appliedSecrets = GenDir @ ''/applied-secrets''"

definition bookkeeping :: "string \<Rightarrow> bool" where
  "bookkeeping path \<longleftrightarrow> path = appliedYAML \<or> path = appliedSecrets"

definition planString :: "Plan \<Rightarrow> string" where
  "planString p =
     (let b = concat (map (\<lambda>f. ''  write   '' @ fPath f @ lf) (filter (\<lambda>f. \<not> bookkeeping (fPath f)) (Changed p)))
              @ (if Firewall p then ''  reload  firewall'' @ lf else [])
              @ concat (map (\<lambda>s. ''  restart '' @ s @ lf) (PServices p))
              @ concat (map (\<lambda>s. ''  enable  '' @ s @ lf) (Enable p))
              @ concat (map (\<lambda>s. ''  disable '' @ s @ lf) (Disable p))
              @ concat (map (\<lambda>s. ''  remove  '' @ s @ lf) (Remove p))
      in if b = [] \<and> (\<exists>f \<in> set (Changed p). bookkeeping (fPath f))
         then ''  (no generated file changes: only the record of the applied config)'' @ lf else b)"

definition summary :: "Plan \<Rightarrow> string" where
  "summary p =
     (let parts = map (\<lambda>f. Base (fPath f)) (Changed p) @ (if Firewall p then [''firewall''] else [])
                  @ map (\<lambda>s. ''+'' @ s) (Enable p) @ map (\<lambda>s. ''-'' @ s) (Disable p)
                  @ map (\<lambda>f. ''remove '' @ Base f) (Remove p)
      in if parts = [] then ''router.yaml (no generated file changed)'' else Join parts '', '')"

section \<open>Pruning the history\<close>

text \<open>
  \<open>names\<close>: the entries of the history directory. The result is the list of the snapshots removed (with their
  revision files); the loop takes the first of the sorted names while more than \<open>keep\<close> are left.
\<close>

fun pruneLoop :: "int \<Rightarrow> string list \<Rightarrow> string list" where
  "pruneLoop keep [] = []"
| "pruneLoop keep (n # ns) = (if int (length (n # ns)) > keep then n # pruneLoop keep ns else [])"

definition pruneHistory :: "int \<Rightarrow> string \<Rightarrow> string list \<Rightarrow> string list" where
  "pruneHistory keep keepName names =
     pruneLoop (if keepName \<noteq> [] then keep - 1 else keep)
       (sort (filter (\<lambda>n. HasSuffix n ''.tar.gz'' \<and> n \<noteq> keepName) names))"

definition defaultHistory :: int where "defaultHistory = 20"

definition historyKeep :: "'c Config_scheme option \<Rightarrow> int" where
  "historyKeep c = (case c of Some c' \<Rightarrow> if History c' > 0 then History c' else defaultHistory | None \<Rightarrow> defaultHistory)"

section \<open>What a plan reaches\<close>

definition writeFile :: "fsys \<Rightarrow> string \<Rightarrow> string \<Rightarrow> nat \<Rightarrow> fsys" where
  "writeFile fs p d m = AList.update p (d, m) fs"

definition writeFiles :: "fsys \<Rightarrow> File list \<Rightarrow> fsys" where
  "writeFiles fs files = fold (\<lambda>f fs. writeFile fs (fPath f) (fData f) (fMode f)) files fs"

lemma readFile_write: "readFile (writeFile fs p d m) q = (if p = q then Some d else readFile fs q)"
  by (simp add: readFile_def writeFile_def update_conv')

lemma readFile_writes:
  "distinct (map fPath files) \<Longrightarrow>
   readFile (writeFiles fs files) q = (case find (\<lambda>f. fPath f = q) files of Some f \<Rightarrow> Some (fData f) | None \<Rightarrow> readFile fs q)"
proof (induction files arbitrary: fs)
  case Nil
  then show ?case by (simp add: writeFiles_def)
next
  case (Cons f files)
  have w: "writeFiles fs (f # files) = writeFiles (writeFile fs (fPath f) (fData f) (fMode f)) files"
    by (simp add: writeFiles_def)
  have "find (\<lambda>g. fPath g = fPath f) files = None"
    using Cons.prems by (auto simp: find_None_iff image_iff)
  then show ?case using Cons by (auto simp: w readFile_write split: option.splits)
qed

lemma find_path: "distinct (map fPath files) \<Longrightarrow> f \<in> set files \<Longrightarrow> find (\<lambda>g. fPath g = fPath f) files = Some f"
  by (induction files) (auto simp: image_iff)

lemma distinct_changed: "distinct (map fPath files) \<Longrightarrow> distinct (map fPath (planChanged fs files))"
  by (auto simp: planChanged_def distinct_map intro: inj_on_subset)

lemma changed_written:
  assumes "distinct (map fPath files)" "f \<in> set files"
  shows "readFile (writeFiles fs (planChanged fs files)) (fPath f) = Some (fData f)"
proof (cases "f \<in> set (planChanged fs files)")
  case True
  then show ?thesis
    using readFile_writes [OF distinct_changed [OF assms(1)]] find_path [OF distinct_changed [OF assms(1)] True] by simp
next
  case False
  then have r: "readFile fs (fPath f) = Some (fData f)" using assms(2) by (simp add: planChanged_def)
  have "find (\<lambda>g. fPath g = fPath f) (planChanged fs files) = None"
  proof -
    have "g = f" if "g \<in> set files" "fPath g = fPath f" for g
      using assms that by (metis distinct_map inj_onD)
    then show ?thesis using False by (auto simp: find_None_iff planChanged_def)
  qed
  then show ?thesis using readFile_writes [OF distinct_changed [OF assms(1)]] r by simp
qed

text \<open>
  C37. Carrying out a plan reaches what the config wants: after its files are written every rendered file is as
  rendered, so a second plan writes nothing, and of the services mr manages exactly the wanted ones are in the
  runlevel. Services mr does not manage are neither added nor removed.
\<close>

theorem plan_converges:
  assumes "distinct (map fPath files)" "p = mkPlan iter ms fs have c files"
  shows "planChanged (writeFiles fs (Changed p)) files = []
    \<and> (\<forall>s \<in> set (managedServices ms fs) \<union> set (enabledServices ms c).
          s \<in> (set have \<union> set (Enable p)) - set (Disable p) \<longleftrightarrow> s \<in> set (enabledServices ms c))
    \<and> (\<forall>s. s \<notin> set (managedServices ms fs) \<union> set (enabledServices ms c) \<longrightarrow> s \<notin> set (Enable p) \<union> set (Disable p))"
proof -
  have "planChanged (writeFiles fs (planChanged fs files)) files = []"
    using changed_written [OF assms(1)] by (auto simp: planChanged_def filter_empty_conv)
  then show ?thesis by (auto simp: assms(2) mkPlan_def Let_def)
qed

theorem plan_converges_witness:
  "planChanged (writeFiles [] (Changed (mkPlan id [] [] [] \<lparr>Watchdog = None, History = 0, Bridge = ''br'', LanIPv4 = [], LanIPv6RA = False,
       Networks = [], WANs = [], nftRules = []\<rparr> [\<lparr>fPath = ''/a'', fMode = 420, fData = ''x''\<rparr>])))
     [\<lparr>fPath = ''/a'', fMode = 420, fData = ''x''\<rparr>] = []"
  using plan_converges [OF _ refl, of "[\<lparr>fPath = ''/a'', fMode = 420, fData = ''x''\<rparr>]" "[]" id "[]" "[]"
      "\<lparr>Watchdog = None, History = 0, Bridge = ''br'', LanIPv4 = [], LanIPv6RA = False, Networks = [], WANs = [], nftRules = []\<rparr>"]
  by simp

text \<open>
  The services a plan restarts are those of the files it changes, without the ones mr manages and this config
  does not run; each once, and lower layers first: in the order of their rank.
\<close>

theorem plan_services:
  assumes "\<And>xs. mset (iter xs) = mset xs" "p = mkPlan iter ms fs have c files"
  shows "sorted (map (rank ms) (PServices p)) \<and> distinct (PServices p)
    \<and> (\<forall>s. s \<in> set (PServices p) \<longleftrightarrow>
         s \<noteq> [] \<and> \<not> (s \<in> set (managedServices ms fs) \<and> s \<notin> set (enabledServices ms c))
         \<and> (\<exists>f \<in> set files. readFile fs (fPath f) \<noteq> Some (fData f) \<and> serviceFor ms (fPath f) = s))"
proof -
  let ?svc = "planSvc ms fs c (planChanged fs files)"
  have i: "set (iter ?svc) = set ?svc" "distinct (iter ?svc) = distinct ?svc"
    using assms(1) [of ?svc] by (metis set_mset_mset, metis distinct_count_atmost_1 assms(1) set_mset_mset)
  have e: "PServices p = sort_key (rank ms) (iter ?svc)" by (simp add: assms(2) mkPlan_def Let_def)
  have "distinct ?svc" "s \<in> set ?svc \<longleftrightarrow>
         s \<noteq> [] \<and> \<not> (s \<in> set (managedServices ms fs) \<and> s \<notin> set (enabledServices ms c))
         \<and> (\<exists>f \<in> set files. readFile fs (fPath f) \<noteq> Some (fData f) \<and> serviceFor ms (fPath f) = s)" for s
    by (auto simp: planSvc_def planChanged_def off_def)
  then show ?thesis unfolding e using i by simp
qed

definition demo_mod :: "Config Module" where
  "demo_mod = \<lparr>Name = ''dns'', Prio = 30, Defaults = None, Validate = None, Render = None, NetSh = None, Nft = None,
     Dnsmasq = None, Services = None, Managed = [''mr-x''],
     Restart = Some (\<lambda>p. if p = ''/etc/dnsmasq.conf'' then ''dnsmasq'' else if p = ''/etc/x'' then ''mr-x'' else []),
     RestartOrder = [''dnsmasq''], Verify = None, Orphans = None, TokenScope = []\<rparr>"

definition demo_cfg :: Config where
  "demo_cfg = \<lparr>Watchdog = None, History = 0, Bridge = ''br'', LanIPv4 = [], LanIPv6RA = False, Networks = [],
     WANs = [], nftRules = []\<rparr>"

definition demo_files :: "File list" where
  "demo_files = [\<lparr>fPath = ''/etc/dnsmasq.conf'', fMode = 420, fData = ''a''\<rparr>, \<lparr>fPath = ''/etc/x'', fMode = 420, fData = ''b''\<rparr>,
     \<lparr>fPath = GenDir @ ''/network.sh'', fMode = 493, fData = ''c''\<rparr>]"

theorem plan_services_witness:
  "PServices (mkPlan id [demo_mod] [] [] demo_cfg demo_files) = [''mr-network'', ''dnsmasq'']
   \<and> sorted (map (rank [demo_mod]) (PServices (mkPlan id [demo_mod] [] [] demo_cfg demo_files)))"
proof -
  have "PServices (mkPlan id [demo_mod] [] [] demo_cfg demo_files) = [''mr-network'', ''dnsmasq'']" by code_simp
  then show ?thesis using plan_services [of id, OF _ refl, of "[demo_mod]" "[]" "[]" demo_cfg demo_files] by simp
qed

section \<open>Orphaned files\<close>

lemma Join_snoc: "xs \<noteq> [] \<Longrightarrow> Join (xs @ [y]) sep = Join xs sep @ sep @ y"
proof (induction xs sep rule: Join.induct)
  case (3 x y' ys sep)
  then show ?case by (cases ys) auto
qed auto

lemma Dir_Base:
  assumes "Dir p \<noteq> []"
  shows "JoinP (Dir p) (Base p) = p"
proof -
  let ?xs = "SplitByte CHR ''/'' p"
  have "butlast ?xs \<noteq> []" using assms by (auto simp: Dir_def)
  then have "Join (butlast ?xs @ [last ?xs]) ''/'' = JoinP (Dir p) (Base p)"
    by (subst Join_snoc) (auto simp: JoinP_def Dir_def Base_def)
  then show ?thesis using Join_SplitByte [of "CHR ''/''" p] by simp
qed

lemma readDir_iff:
  assumes "d \<noteq> []"
  shows "n \<in> set (readDir fs d) \<longleftrightarrow> (\<exists>p. map_of fs p \<noteq> None \<and> Dir p = d \<and> Base p = n)"
  by (auto simp: readDir_def map_of_eq_None_iff image_iff)

lemma readDir_exists:
  assumes "d \<noteq> []" "n \<in> set (readDir fs d)"
  shows "map_of fs (JoinP d n) \<noteq> None"
  using assms(2) Dir_Base assms(1) unfolding readDir_iff [OF assms(1)] by metis

lemma JoinP_inj [simp]: "JoinP d n = JoinP d n' \<longleftrightarrow> n = n'"
  by (simp add: JoinP_def)

lemma Base_no_slash: "CHR ''/'' \<notin> set (Base p)"
  using SplitByte_no_sep [of "Base p" "CHR ''/''" p] last_in_set [of "SplitByte CHR ''/'' p"]
  by (simp add: Base_def)

lemma SplitByte_snoc: "c \<notin> set n \<Longrightarrow> SplitByte c (d @ c # n) = SplitByte c d @ [n]"
proof (induction d)
  case Nil
  then have "SplitByte c n = [n]" by (induction n) auto
  then show ?case by simp
next
  case (Cons x d)
  then show ?case by (cases "SplitByte c d") auto
qed

lemma Dir_JoinP: "CHR ''/'' \<notin> set n \<Longrightarrow> Dir (JoinP d n) = d"
  by (simp add: Dir_def JoinP_def SplitByte_snoc Join_SplitByte)

lemma Base_JoinP: "CHR ''/'' \<notin> set n \<Longrightarrow> Base (JoinP d n) = n"
  by (simp add: Base_def JoinP_def SplitByte_snoc)

lemma dirs_differ: "initDir \<noteq> pppPeersDir" "initDir \<noteq> []" "pppPeersDir \<noteq> []"
  by (simp_all add: initDir_def pppPeersDir_def)

lemma readDir_no_slash: "n \<in> set (readDir fs d) \<Longrightarrow> CHR ''/'' \<notin> set n"
  using Base_no_slash by (auto simp: readDir_def)

lemma orphanPeers_D:
  assumes "p \<in> set (orphanPeers ws fs)"
  obtains n where "p = JoinP pppPeersDir n" "n \<in> set (readDir fs pppPeersDir)" "\<not> wanted ''pppoe'' ws n" "generatedByMR fs p"
  using assms by (auto simp: orphanPeers_def)

definition orphan_name :: "WAN list \<Rightarrow> string \<Rightarrow> bool" where
  "orphan_name ws n \<longleftrightarrow> (\<exists>x. n = ''mr-pppoe.'' @ x \<and> \<not> wanted ''pppoe'' ws x) \<or> (\<exists>x. n = ''mr-udhcpc.'' @ x \<and> \<not> wanted ''dhcp'' ws x)"

lemma orphanInit_iff:
  "p \<in> set (orphanInit ws fs) \<longleftrightarrow> (\<exists>n. p = JoinP initDir n \<and> n \<in> set (readDir fs initDir) \<and> orphan_name ws n)"
proof -
  have "(if HasPrefix n ''mr-pppoe.'' then \<not> wanted ''pppoe'' ws (TrimPrefix n ''mr-pppoe.'')
           else if HasPrefix n ''mr-udhcpc.'' then \<not> wanted ''dhcp'' ws (TrimPrefix n ''mr-udhcpc.'')
           else False) \<longleftrightarrow> orphan_name ws n" for n
    by (auto simp: orphan_name_def HasPrefix_iff TrimPrefix_def)
  then show ?thesis by (auto simp: orphanInit_def)
qed

text \<open>
  Removing what a WAN left behind is safe: a path listed is a file that exists, it is never the PPP peer file
  or the init script of a WAN the config has, and a PPP peer file is listed only when it begins with mr's own
  header. Every init script of a PPPoE or DHCP client whose WAN is gone is listed.
\<close>

theorem orphans_safe:
  assumes "\<forall>w \<in> set (WANs c). CHR ''/'' \<notin> set (wanName w)"
  shows "(\<forall>p \<in> set (orphanWANPaths c fs). map_of fs p \<noteq> None
      \<and> (\<forall>w \<in> set (WANs c). wanProto w = ''pppoe'' \<longrightarrow>
           p \<noteq> JoinP pppPeersDir (wanName w) \<and> p \<noteq> JoinP initDir (''mr-pppoe.'' @ wanName w))
      \<and> (\<forall>w \<in> set (WANs c). wanProto w = ''dhcp'' \<longrightarrow> p \<noteq> JoinP initDir (''mr-udhcpc.'' @ wanName w))
      \<and> (Dir p = pppPeersDir \<longrightarrow> generatedByMR fs p))
    \<and> (\<forall>n \<in> set (readDir fs initDir). orphan_name (WANs c) n \<longrightarrow> JoinP initDir n \<in> set (orphanWANPaths c fs))"
proof -
  have ne: "JoinP pppPeersDir n \<noteq> JoinP initDir n'" if "CHR ''/'' \<notin> set n" "CHR ''/'' \<notin> set n'" for n n'
    using that Dir_JoinP dirs_differ by metis
  have peers: "map_of fs p \<noteq> None \<and> (\<forall>w \<in> set (WANs c). wanProto w = ''pppoe'' \<longrightarrow>
           p \<noteq> JoinP pppPeersDir (wanName w) \<and> p \<noteq> JoinP initDir (''mr-pppoe.'' @ wanName w))
      \<and> (\<forall>w \<in> set (WANs c). wanProto w = ''dhcp'' \<longrightarrow> p \<noteq> JoinP initDir (''mr-udhcpc.'' @ wanName w))
      \<and> generatedByMR fs p" if p: "p \<in> set (orphanPeers (WANs c) fs)" for p
  proof -
    obtain n where n: "p = JoinP pppPeersDir n" "n \<in> set (readDir fs pppPeersDir)" "\<not> wanted ''pppoe'' (WANs c) n" "generatedByMR fs p"
      using orphanPeers_D [OF p] .
    have "map_of fs p \<noteq> None" using readDir_exists [OF dirs_differ(3) n(2)] n(1) by simp
    moreover have "p \<noteq> JoinP initDir (''mr-pppoe.'' @ wanName w) \<and> p \<noteq> JoinP initDir (''mr-udhcpc.'' @ wanName w)"
      if "w \<in> set (WANs c)" for w
      using ne [of n "''mr-pppoe.'' @ wanName w"] ne [of n "''mr-udhcpc.'' @ wanName w"] readDir_no_slash [OF n(2)] assms that n(1)
      by auto
    ultimately show ?thesis using n by (auto simp: wanted_def)
  qed
  have ini: "map_of fs p \<noteq> None \<and> (\<forall>w \<in> set (WANs c). wanProto w = ''pppoe'' \<longrightarrow>
           p \<noteq> JoinP pppPeersDir (wanName w) \<and> p \<noteq> JoinP initDir (''mr-pppoe.'' @ wanName w))
      \<and> (\<forall>w \<in> set (WANs c). wanProto w = ''dhcp'' \<longrightarrow> p \<noteq> JoinP initDir (''mr-udhcpc.'' @ wanName w))
      \<and> Dir p \<noteq> pppPeersDir" if p: "p \<in> set (orphanInit (WANs c) fs)" for p
  proof -
    obtain n where n: "p = JoinP initDir n" "n \<in> set (readDir fs initDir)" "orphan_name (WANs c) n"
      using p orphanInit_iff by blast
    have ns: "CHR ''/'' \<notin> set n" using readDir_no_slash [OF n(2)] .
    have "map_of fs p \<noteq> None" using readDir_exists [OF dirs_differ(2) n(2)] n(1) by simp
    moreover have "p \<noteq> JoinP pppPeersDir (wanName w)" if "w \<in> set (WANs c)" for w
      using ne [of "wanName w" n] ns assms that n(1) by auto
    moreover have "Dir p \<noteq> pppPeersDir" using Dir_JoinP [OF ns] n(1) dirs_differ(1) by simp
    ultimately show ?thesis using n by (auto simp: wanted_def orphan_name_def)
  qed
  have "\<forall>n \<in> set (readDir fs initDir). orphan_name (WANs c) n \<longrightarrow> JoinP initDir n \<in> set (orphanWANPaths c fs)"
    using orphanInit_iff [of _ "WANs c" fs] unfolding orphanWANPaths_def set_append by blast
  then show ?thesis using peers ini unfolding orphanWANPaths_def set_append by blast
qed

theorem orphans_safe_witness:
  "JoinP initDir ''mr-pppoe.old'' \<in> set (orphanWANPaths
      (demo_cfg\<lparr>WANs := [\<lparr>wanName = ''wan'', wanDev = ''eth1'', wanVLAN = 0, wanProto = ''pppoe'', wanIPv6 = False, wanModem = []\<rparr>]\<rparr>)
      [(''/etc/init.d/mr-pppoe.old'', ''x'', 493), (''/etc/init.d/mr-pppoe.wan'', ''x'', 493)])"
proof -
  let ?c = "demo_cfg\<lparr>WANs := [\<lparr>wanName = ''wan'', wanDev = ''eth1'', wanVLAN = 0, wanProto = ''pppoe'', wanIPv6 = False, wanModem = []\<rparr>]\<rparr>"
  let ?fs = "[(''/etc/init.d/mr-pppoe.old'', ''x'', 493), (''/etc/init.d/mr-pppoe.wan'', ''x'', 493)]"
  have "''mr-pppoe.old'' \<in> set (readDir ?fs initDir)" by code_simp
  moreover have "orphan_name (WANs ?c) ''mr-pppoe.old''"
    unfolding orphan_name_def by (rule disjI1, rule exI [of _ "''old''"]) (simp add: wanted_def)
  ultimately show ?thesis using orphans_safe [of ?c ?fs] by simp
qed

section \<open>The history\<close>

lemma pruneLoop_take: "pruneLoop keep ns = take (nat (int (length ns) - keep)) ns"
proof (induction ns)
  case (Cons n ns)
  show ?case
  proof (cases "int (length (n # ns)) > keep")
    case True
    then have "nat (int (length (n # ns)) - keep) = Suc (nat (int (length ns) - keep))" by simp
    then show ?thesis using Cons True by simp
  qed simp
qed simp

text \<open>
  Pruning keeps the newest snapshots: with room for \<open>keep\<close> of them, the one just written stays whatever its
  name sorts like, \<open>keep\<close> remain where there are as many, and each one removed has a smaller name than each other
  one that stays. Only snapshots are removed.
\<close>

theorem prune_keeps_newest:
  assumes "distinct names" "keepName \<in> set names" "HasSuffix keepName ''.tar.gz''" "keepName \<noteq> []" "keep \<ge> 1"
    "gone = set (pruneHistory keep keepName names)" "snaps = {n \<in> set names. HasSuffix n ''.tar.gz''}"
  shows "gone \<subseteq> snaps \<and> keepName \<notin> gone \<and> card (snaps - gone) = min (nat keep) (card snaps)
    \<and> (\<forall>r \<in> gone. \<forall>k \<in> snaps - gone. k = keepName \<or> r < k)"
proof -
  define ns where "ns = sort (filter (\<lambda>n. HasSuffix n ''.tar.gz'' \<and> n \<noteq> keepName) names)"
  define i where "i = nat (int (length ns) - (keep - 1))"
  have d: "distinct ns" and so: "sorted ns" unfolding ns_def using assms(1) by auto
  have s: "snaps = insert keepName (set ns)" "keepName \<notin> set ns" using assms by (auto simp: ns_def)
  have g: "gone = set (take i ns)"
    using assms(4,6) by (simp add: pruneHistory_def pruneLoop_take ns_def i_def)
  have tk: "set (take i ns) \<inter> set (drop i ns) = {}" "set ns = set (take i ns) \<union> set (drop i ns)"
    using d by (metis append_take_drop_id distinct_append, metis append_take_drop_id set_append)
  have k: "snaps - gone = insert keepName (set (drop i ns))"
    using s tk unfolding g by auto
  have kn: "keepName \<notin> set (drop i ns)" using s tk by blast
  have c: "card (snaps - gone) = Suc (length ns - i)" "card snaps = Suc (length ns)"
    unfolding k using kn d s distinct_card [of "drop i ns"] distinct_card [OF d] by auto
  have lt: "r < q" if "r \<in> set (take i ns)" "q \<in> set (drop i ns)" for r q
  proof -
    have "r \<le> q" using so that by (metis append_take_drop_id sorted_append)
    moreover have "r \<noteq> q" using tk that by blast
    ultimately show ?thesis by simp
  qed
  show ?thesis using s g k kn tk c lt assms(5) by (auto simp: i_def)
qed

theorem prune_keeps_newest_witness:
  "set (pruneHistory 2 ''1.tar.gz'' [''1.tar.gz'', ''2.tar.gz'', ''3.tar.gz'', ''2.json'']) = {''2.tar.gz''}
   \<and> ''1.tar.gz'' \<notin> set (pruneHistory 2 ''1.tar.gz'' [''1.tar.gz'', ''2.tar.gz'', ''3.tar.gz'', ''2.json''])"
  using prune_keeps_newest [of "[''1.tar.gz'', ''2.tar.gz'', ''3.tar.gz'', ''2.json'']" "''1.tar.gz''" 2, OF _ _ _ _ _ refl refl]
  by (simp add: pruneHistory_def HasSuffix_def)

end
