(* ===== verification/Apply_World.thy ===== *)
theory Apply_World
  imports Svc_Plan Config_Diff "HOL-Library.State_Monad"
begin

text \<open>
  The world an apply works on: what is on disk, and an environment that decides how the rest of the system
  behaves. \<open>disk\<close> holds the files, the entries of the default runlevel, the pending marker, the snapshots and
  revision records of the history, the marker of restored list files, and the change log.

  Every change of the disk is one atomic step (\<open>act\<close>): \<open>writeAtomic\<close> renames a synced temporary file, a removal
  and the creation of a file are single system calls. Steps are counted; the environment says which steps fail
  and before which step the power goes (\<open>cut\<close>). After the cut no step changes the disk any more, so the disk a
  run with a cut ends with is the disk the next boot finds. System commands and the parts of mr that only touch
  the running system (routes, nftables, daemons) are steps whose result and effect the environment gives.

  Programs are written in the state monad; \<open>keeps\<close> is the rule for invariants.
\<close>

section \<open>Disk\<close>

text \<open>The content of \<open>ConfirmFile\<close>.\<close>

record pendingApply =
  pSnapshot :: string
  pListSnapshot :: string
  pState :: string
  pDeadline :: int
  pVia :: string
  pPid :: int
  pConfirmHash :: string

definition stateApplying :: string where "stateApplying = ''applying''"

definition statePending :: string where "statePending = ''pending''"

definition stateReverting :: string where "stateReverting = ''reverting''"

datatype markerFile = NoMarker | BadMarker | Marker pendingApply

text \<open>A snapshot archive: the entries in order and the list \<open>.mr-paths\<close> of the paths it covers.\<close>

record archive =
  aFiles :: fsys
  aList :: string

record revision =
  rRev :: int
  rVia :: string
  rResult :: string
  rChanges :: "string list"
  rSnapshot :: string

record disk =
  files :: fsys
  links :: "string list"
  marker :: markerFile
  snaps :: "(string \<times> archive) list"
  revs :: "(string \<times> revision) list"
  listMarker :: string
  changeLog :: "string list"

record world =
  dsk :: disk
  ops :: nat

section \<open>Environment\<close>

record env =
  fails :: "nat \<Rightarrow> bool"
  cut :: "nat option"
  cmd :: "nat \<Rightarrow> string list \<Rightarrow> bool"
  eff :: "nat \<Rightarrow> string list \<Rightarrow> disk \<Rightarrow> disk"
  now :: "nat \<Rightarrow> int"
  stamp :: "nat \<Rightarrow> string"
  gone :: "int \<Rightarrow> bool"
  netdev :: "nat \<Rightarrow> string \<Rightarrow> bool"
  modules :: "Config Module list"
  iter :: "string list \<Rightarrow> string list"
  loadCfg :: "string \<Rightarrow> string option \<Rightarrow> Config option"
  validate :: "Config \<Rightarrow> string list"
  applied :: "Config \<Rightarrow> File list"
  rev_of :: "string \<Rightarrow> string"
  sha256 :: "string \<Rightarrow> string"
  unmarshal :: "string \<Rightarrow> smap option"
  marshal :: "smap \<Rightarrow> string"

definition alive :: "env \<Rightarrow> nat \<Rightarrow> bool" where
  "alive e n = (case cut e of None \<Rightarrow> True | Some k \<Rightarrow> n < k)"

type_synonym 'a prog = "(world, 'a) state"

definition act :: "env \<Rightarrow> (disk \<Rightarrow> disk) \<Rightarrow> bool prog" where
  "act e f = State (\<lambda>w. let n = ops w; w' = w\<lparr>ops := Suc n\<rparr> in
     if \<not> alive e n \<or> fails e n then (False, w') else (True, w'\<lparr>dsk := f (dsk w)\<rparr>))"

definition run :: "env \<Rightarrow> string list \<Rightarrow> bool prog" where
  "run e args = State (\<lambda>w. let n = ops w; w' = w\<lparr>ops := Suc n\<rparr> in
     if alive e n then (cmd e n args, w'\<lparr>dsk := eff e n args (dsk w)\<rparr>) else (False, w'))"

definition peek :: "(disk \<Rightarrow> 'a) \<Rightarrow> 'a prog" where
  "peek f = State (\<lambda>w. (f (dsk w), w))"

text \<open>A value of the environment at this moment.\<close>

definition sense :: "(nat \<Rightarrow> 'a) \<Rightarrow> 'a prog" where
  "sense f = State (\<lambda>w. (f (ops w), w))"

abbreviation ret :: "'a \<Rightarrow> 'a prog" where
  "ret x \<equiv> State_Monad.return x"

fun forEach :: "('a \<Rightarrow> 'b prog) \<Rightarrow> 'a list \<Rightarrow> unit prog" where
  "forEach f [] = ret ()"
| "forEach f (x # xs) = do { _ \<leftarrow> f x; forEach f xs }"

text \<open>A loop that collects values, in order.\<close>

fun collect :: "('a \<Rightarrow> 'b list prog) \<Rightarrow> 'a list \<Rightarrow> 'b list prog" where
  "collect f [] = ret []"
| "collect f (x # xs) = do { ys \<leftarrow> f x; zs \<leftarrow> collect f xs; ret (ys @ zs) }"

section \<open>Invariants of programs\<close>

definition keeps :: "(world \<Rightarrow> bool) \<Rightarrow> 'a prog \<Rightarrow> bool" where
  "keeps I m \<longleftrightarrow> (\<forall>w. I w \<longrightarrow> I (snd (run_state m w)))"

named_theorems mr_keeps \<open>programs that keep an invariant\<close>

lemma keepsI: "(\<And>w. I w \<Longrightarrow> I (snd (run_state m w))) \<Longrightarrow> keeps I m"
  by (simp add: keeps_def)

lemma keepsD: "keeps I m \<Longrightarrow> I w \<Longrightarrow> I (snd (run_state m w))"
  by (simp add: keeps_def)

lemma keeps_return [mr_keeps, intro!]: "keeps I (ret x)"
  by (simp add: keeps_def)

lemma keeps_bind [mr_keeps, intro!]: "keeps I m \<Longrightarrow> (\<And>x. keeps I (f x)) \<Longrightarrow> keeps I (m \<bind> f)"
  by (auto simp: keeps_def split: prod.splits)

lemma keeps_peek [mr_keeps, intro!]: "keeps I (peek f)"
  by (simp add: keeps_def peek_def)

lemma keeps_sense [mr_keeps, intro!]: "keeps I (sense f)"
  by (simp add: keeps_def sense_def)

lemma keeps_if [mr_keeps, intro!]: "(b \<Longrightarrow> keeps I m) \<Longrightarrow> (\<not> b \<Longrightarrow> keeps I m') \<Longrightarrow> keeps I (if b then m else m')"
  by simp

lemma keeps_option [mr_keeps, intro!]:
  "(x = None \<Longrightarrow> keeps I m) \<Longrightarrow> (\<And>y. x = Some y \<Longrightarrow> keeps I (f y)) \<Longrightarrow> keeps I (case x of None \<Rightarrow> m | Some y \<Rightarrow> f y)"
  by (cases x) auto

lemma keeps_sum [mr_keeps, intro!]:
  "(\<And>y. x = Inl y \<Longrightarrow> keeps I (f y)) \<Longrightarrow> (\<And>y. x = Inr y \<Longrightarrow> keeps I (g y)) \<Longrightarrow> keeps I (case x of Inl y \<Rightarrow> f y | Inr y \<Rightarrow> g y)"
  by (cases x) auto

lemma keeps_prod [mr_keeps, intro!]: "(\<And>a b. x = (a, b) \<Longrightarrow> keeps I (f a b)) \<Longrightarrow> keeps I (case x of (a, b) \<Rightarrow> f a b)"
  by (cases x) auto

lemma keeps_forEach [mr_keeps, intro!]: "(\<And>x. x \<in> set xs \<Longrightarrow> keeps I (f x)) \<Longrightarrow> keeps I (forEach f xs)"
  by (induction xs) auto

lemma keeps_collect [mr_keeps, intro!]: "(\<And>x. x \<in> set xs \<Longrightarrow> keeps I (f x)) \<Longrightarrow> keeps I (collect f xs)"
  by (induction xs) auto

text \<open>An invariant of the disk is kept by a step whose change keeps it.\<close>

definition on_disk :: "(disk \<Rightarrow> bool) \<Rightarrow> world \<Rightarrow> bool" where
  "on_disk P w \<longleftrightarrow> P (dsk w)"

lemma keeps_act: "(\<And>d. P d \<Longrightarrow> P (f d)) \<Longrightarrow> keeps (on_disk P) (act e f)"
  by (auto simp: keeps_def act_def on_disk_def Let_def)

lemma keeps_run: "(\<And>n args d. P d \<Longrightarrow> P (eff e n args d)) \<Longrightarrow> keeps (on_disk P) (run e args)"
  by (auto simp: keeps_def run_def on_disk_def Let_def)

text \<open>Hoare triples: from a state with \<open>P\<close> the program ends with a value and a state related by \<open>Q\<close>.\<close>

definition triple :: "(world \<Rightarrow> bool) \<Rightarrow> 'a prog \<Rightarrow> ('a \<Rightarrow> world \<Rightarrow> bool) \<Rightarrow> bool" where
  "triple P m Q \<longleftrightarrow> (\<forall>w x w'. P w \<longrightarrow> run_state m w = (x, w') \<longrightarrow> Q x w')"

lemma tripleD: "triple P m Q \<Longrightarrow> P w \<Longrightarrow> run_state m w = (x, w') \<Longrightarrow> Q x w'"
  by (simp add: triple_def)

lemma triple_ret: "(\<And>w. P w \<Longrightarrow> Q x w) \<Longrightarrow> triple P (ret x) Q"
  by (auto simp: triple_def)

lemma triple_bind: "triple P m R \<Longrightarrow> (\<And>x. triple (R x) (f x) Q) \<Longrightarrow> triple P (m \<bind> f) Q"
  by (fastforce simp: triple_def split: prod.splits)

lemma triple_keeps: "keeps I m \<Longrightarrow> triple I m (\<lambda>_. I)"
  by (force simp: triple_def keeps_def)

lemma keeps_triple: "triple I m (\<lambda>_. I) \<Longrightarrow> keeps I m"
  by (simp add: triple_def keeps_def) (metis prod.collapse)

lemma triple_conseq: "triple P m Q \<Longrightarrow> (\<And>w. P' w \<Longrightarrow> P w) \<Longrightarrow> (\<And>x w. Q x w \<Longrightarrow> Q' x w) \<Longrightarrow> triple P' m Q'"
  unfolding triple_def by blast

lemma triple_peek: "triple P (peek f) (\<lambda>x w. P w \<and> x = f (dsk w))"
  by (auto simp: triple_def peek_def)

lemma triple_if: "(b \<Longrightarrow> triple P m Q) \<Longrightarrow> (\<not> b \<Longrightarrow> triple P m' Q) \<Longrightarrow> triple P (if b then m else m') Q"
  by simp

lemma triple_pre: "(\<And>w. P w \<Longrightarrow> triple (\<lambda>v. v = w) m Q) \<Longrightarrow> triple P m Q"
  by (simp add: triple_def)

section \<open>Files\<close>

definition writeAtomic :: "env \<Rightarrow> string \<Rightarrow> string \<Rightarrow> nat \<Rightarrow> bool prog" where
  "writeAtomic e p d m = act e (\<lambda>k. k\<lparr>files := writeFile (files k) p d m\<rparr>)"

definition removeFile :: "env \<Rightarrow> string \<Rightarrow> bool prog" where
  "removeFile e p = act e (\<lambda>k. k\<lparr>files := AList.delete p (files k)\<rparr>)"

definition ReadFile :: "string \<Rightarrow> string option prog" where
  "ReadFile p = peek (\<lambda>k. readFile (files k) p)"

definition exists :: "string \<Rightarrow> bool prog" where
  "exists p = peek (\<lambda>k. map_of (files k) p \<noteq> None)"

definition appendChangeLog :: "env \<Rightarrow> string \<Rightarrow> bool prog" where
  "appendChangeLog e l = act e (\<lambda>k. k\<lparr>changeLog := changeLog k @ [l]\<rparr>)"

definition loadConfig :: "env \<Rightarrow> string \<Rightarrow> string \<Rightarrow> Config option prog" where
  "loadConfig e cfgPath secPath = peek (\<lambda>k.
     case readFile (files k) cfgPath of None \<Rightarrow> None | Some y \<Rightarrow> loadCfg e y (readFile (files k) secPath))"

lemma Fields_lines:
  assumes "\<forall>p \<in> set ps. p \<noteq> [] \<and> list_all (\<lambda>c. \<not> isSpace c) p"
  shows "Fields (Join ps lf @ lf) = ps"
proof (cases ps)
  case Nil
  then show ?thesis by (simp add: Fields_def lf_def)
next
  case (Cons q qs)
  have "fields_from [] (Join (q # qs) lf @ lf) = q # qs" if "\<forall>p \<in> set (q # qs). p \<noteq> [] \<and> list_all (\<lambda>c. \<not> isSpace c) p"
    for q and qs :: "string list"
    using that
  proof (induction qs arbitrary: q)
    case Nil
    then show ?case using fields_word [of q "[]" lf] by (simp add: lf_def)
  next
    case (Cons r rs)
    then show ?case using fields_word [of q "[]" "lf @ Join (r # rs) lf @ lf"] by (simp add: lf_def)
  qed
  then show ?thesis using Cons assms by (simp add: Fields_def)
qed

end
