(* ===== verification/Apply_Txn.thy ===== *)
theory Apply_Txn
  imports Apply_World
begin

text \<open>
  The transaction of an apply: \<open>mr/apply.go\<close> from the snapshot to the confirmation, with \<open>writeSnapshotFrom\<close> and
  \<open>undoLists\<close> of \<open>mr/mod_sys_backup.go\<close>, \<open>fwLoad\<close> of \<open>mr/mod_fw_nft.go\<close> and the revision records of
  \<open>mr/history.go\<close>, as programs over the world of \<open>Apply_World\<close>. The order of the steps is the order of the
  source. Messages are values of \<open>applyError\<close>; output to the terminal and the system log is left out.

  \<open>Apply_Safety\<close> holds the theorems.
\<close>

section \<open>Names\<close>

definition HistoryDir :: string where "HistoryDir = ''/etc/mini-router/history''"

definition acceptedConfig :: string where "acceptedConfig = HistoryDir @ ''/accepted-router.yaml''"

definition acceptedSecrets :: string where "acceptedSecrets = HistoryDir @ ''/accepted-secrets.yaml''"

definition staged :: "string \<Rightarrow> string" where "staged acc = acc @ ''.staged''"

definition runlevelDir :: string where "runlevelDir = ''/etc/runlevels/default''"

datatype applyError =
    Unreadable | Interrupted string | Running string | BeingReverted string | Waiting string int
  | OtherPending | ClaimFailed | Invalid "string list" | PlanFailed string | SnapshotFailed | Stale
  | RolledBack string | RollbackFailed string | NoSnapshots | RestoreFailed

datatype outcome = NothingToDo | DryRun | Applied

record applyOpts =
  oVia :: string
  oBaseRev :: string
  oConfirmToken :: string
  oListSnapshot :: string

section \<open>The accepted config\<close>

definition acceptedSources :: "fsys \<Rightarrow> (string \<times> string) list" where
  "acceptedSources fs =
     (if map_of fs acceptedConfig \<noteq> None then [(ConfigPath, acceptedConfig)]
      else if map_of fs appliedYAML \<noteq> None then [(ConfigPath, appliedYAML)] else [])
     @ (if map_of fs acceptedSecrets \<noteq> None then [(SecretsPath, acceptedSecrets)] else [])"

definition stageOne :: "env \<Rightarrow> string \<times> string \<Rightarrow> bool prog" where
  "stageOne e la = (case la of (live, acc) \<Rightarrow> do {
     b \<leftarrow> ReadFile live;
     (case b of Some d \<Rightarrow> writeAtomic e (staged acc) d 384 | None \<Rightarrow> removeFile e (staged acc)) })"

definition stageAccepted :: "env \<Rightarrow> unit prog" where
  "stageAccepted e = forEach (stageOne e) [(ConfigPath, acceptedConfig), (SecretsPath, acceptedSecrets)]"

text \<open>A rename is one step: the new name holds the data, the old one is gone.\<close>

definition renameFile :: "env \<Rightarrow> string \<Rightarrow> string \<Rightarrow> bool prog" where
  "renameFile e a b = act e (\<lambda>k. case map_of (files k) a of None \<Rightarrow> k
     | Some (d, m) \<Rightarrow> k\<lparr>files := AList.delete a (writeFile (files k) b d m)\<rparr>)"

definition acceptStaged :: "env \<Rightarrow> unit prog" where
  "acceptStaged e = forEach (\<lambda>acc. do { x \<leftarrow> exists (staged acc); (if x then renameFile e (staged acc) acc else ret True) })
     [acceptedConfig, acceptedSecrets]"

definition dropStaged :: "env \<Rightarrow> unit prog" where
  "dropStaged e = forEach (removeFile e) [staged acceptedConfig, staged acceptedSecrets]"

section \<open>Snapshots\<close>

text \<open>The entry of one path: the data of its source, the mode of the live file where there is one.\<close>

definition archiveEntry :: "fsys \<Rightarrow> (string \<times> string) list \<Rightarrow> string \<Rightarrow> fsys" where
  "archiveEntry fs src p =
     (let from = (case map_of src p of Some s \<Rightarrow> s | None \<Rightarrow> p) in
      case map_of fs from of
        None \<Rightarrow> []
      | Some (d, m) \<Rightarrow> [(p, d, if from \<noteq> p then (case map_of fs p of Some (_, lm) \<Rightarrow> lm | None \<Rightarrow> m) else m)])"

definition writeSnapshotFrom :: "fsys \<Rightarrow> (string \<times> string) list \<Rightarrow> string list \<Rightarrow> archive" where
  "writeSnapshotFrom fs src paths =
     \<lparr>aFiles = concat (map (archiveEntry fs src) paths), aList = Join paths lf @ lf\<rparr>"

definition snapNames :: "string \<Rightarrow> string list" where
  "snapNames base = (base @ ''.tar.gz'') # map (\<lambda>c. base @ [c] @ ''.tar.gz'') ''bcdefghijklmnopqrstuvwxyz''"

definition pickName :: "(string \<times> archive) list \<Rightarrow> string \<Rightarrow> string" where
  "pickName sn base = (case find (\<lambda>n. map_of sn n = None) (snapNames base) of Some n \<Rightarrow> n | None \<Rightarrow> last (snapNames base))"

definition removeSnap :: "env \<Rightarrow> string \<Rightarrow> bool prog" where
  "removeSnap e nm = act e (\<lambda>k. k\<lparr>snaps := AList.delete nm (snaps k)\<rparr>)"

definition removeRev :: "env \<Rightarrow> string \<Rightarrow> bool prog" where
  "removeRev e nm = act e (\<lambda>k. k\<lparr>revs := AList.delete nm (revs k)\<rparr>)"

definition prune :: "env \<Rightarrow> int \<Rightarrow> string \<Rightarrow> unit prog" where
  "prune e kp nm = do {
     names \<leftarrow> peek (\<lambda>k. map fst (snaps k));
     forEach (\<lambda>n. do { _ \<leftarrow> removeSnap e n; removeRev e n }) (pruneHistory kp nm names) }"

definition snapshotFrom :: "env \<Rightarrow> string list \<Rightarrow> int \<Rightarrow> (string \<times> string) list \<Rightarrow> string option prog" where
  "snapshotFrom e paths kp src = do {
     base \<leftarrow> sense (stamp e);
     nm \<leftarrow> peek (\<lambda>k. pickName (snaps k) base);
     ok \<leftarrow> act e (\<lambda>k. k\<lparr>snaps := AList.update nm (writeSnapshotFrom (files k) src paths) (snaps k)\<rparr>);
     (if \<not> ok then ret None else do { _ \<leftarrow> prune e kp nm; ret (Some (JoinP HistoryDir nm)) }) }"

definition snapshotFile :: "disk \<Rightarrow> string \<Rightarrow> string \<Rightarrow> string option" where
  "snapshotFile k snap path =
     (case map_of (snaps k) (Base snap) of None \<Rightarrow> None | Some a \<Rightarrow> map_option fst (map_of (aFiles a) path))"

definition keepRejected :: "env \<Rightarrow> string \<Rightarrow> unit prog" where
  "keepRejected e snap = forEach (\<lambda>live. do {
     old \<leftarrow> peek (\<lambda>k. snapshotFile k snap live);
     cur \<leftarrow> ReadFile live;
     (case (old, cur) of
        (Some o', Some c') \<Rightarrow> if o' = c' then ret True else writeAtomic e (live @ ''.rejected'') c' 384
      | _ \<Rightarrow> ret True) }) [ConfigPath, SecretsPath]"

section \<open>Restoring a snapshot\<close>

definition readSecrets :: "env \<Rightarrow> fsys \<Rightarrow> smap" where
  "readSecrets e fs =
     (case readFile fs SecretsPath of None \<Rightarrow> [] | Some d \<Rightarrow> (case unmarshal e d of Some m \<Rightarrow> m | None \<Rightarrow> []))"

text \<open>The secrets of a snapshot with the web UI password as it is now.\<close>

definition keepPassword :: "env \<Rightarrow> fsys \<Rightarrow> string \<Rightarrow> string" where
  "keepPassword e fs d =
     (case map_of (readSecrets e fs) pwSecretKey of
        None \<Rightarrow> d
      | Some cur \<Rightarrow>
          (case unmarshal e d of
             None \<Rightarrow> d
           | Some old \<Rightarrow> if map_of old pwSecretKey = Some cur \<or> (map_of old pwSecretKey = None \<and> cur = [])
                          then d else marshal e (AList.update pwSecretKey cur old)))"

definition restoreEntry :: "env \<Rightarrow> string \<times> string \<times> nat \<Rightarrow> bool prog" where
  "restoreEntry e x = (case x of (p, d, m) \<Rightarrow> do {
     data \<leftarrow> peek (\<lambda>k. if p = SecretsPath then keepPassword e (files k) d else d);
     writeAtomic e p data m })"

text \<open>The entries of the archive; the first write that fails ends the restore.\<close>

fun restoreEntries :: "env \<Rightarrow> fsys \<Rightarrow> bool prog" where
  "restoreEntries e [] = ret True"
| "restoreEntries e (x # xs) = do { ok \<leftarrow> restoreEntry e x; (if ok then restoreEntries e xs else ret False) }"

definition stopAndDisableService :: "env \<Rightarrow> string \<Rightarrow> bool prog" where
  "stopAndDisableService e s = do {
     stopped \<leftarrow> run e [''rc-service'', s, ''stop''];
     _ \<leftarrow> run e [''rc-update'', ''del'', s, ''default''];
     ret stopped }"

text \<open>The loop over the covered paths: services stopped, services that could not be stopped, services to restart.\<close>

fun restoreCovered ::
  "env \<Rightarrow> bool \<Rightarrow> string set \<Rightarrow> string list \<Rightarrow> string list \<Rightarrow> string list \<Rightarrow> string list \<Rightarrow> string list prog" where
  "restoreCovered e stop present stopped failed svc [] = ret svc"
| "restoreCovered e stop present stopped failed svc (p # ps) = do {
     r \<leftarrow> (if p \<in> present then ret (stopped, failed)
           else (let s = removedWANService p in
             if stop \<and> s \<noteq> [] \<and> s \<notin> set stopped
             then do { ok \<leftarrow> stopAndDisableService e s;
                       (if ok then do { _ \<leftarrow> removeFile e p; ret (s # stopped, failed) }
                        else ret (stopped, s # failed)) }
             else do { _ \<leftarrow> removeFile e p; ret (stopped, failed) }));
     (case r of (stopped', failed') \<Rightarrow>
       (let s = serviceFor (modules e) p in
        restoreCovered e stop present stopped' failed'
          (if s \<noteq> [] \<and> s \<notin> set failed' \<and> s \<notin> set svc then svc @ [s] else svc) ps)) }"

definition covered :: "archive \<Rightarrow> string list" where
  "covered a = Fields (aList a)"

definition restore :: "env \<Rightarrow> string \<Rightarrow> bool \<Rightarrow> string list option prog" where
  "restore e snap stop = do {
     a \<leftarrow> peek (\<lambda>k. map_of (snaps k) (Base snap));
     (case a of None \<Rightarrow> ret None
      | Some ar \<Rightarrow> do {
          ok \<leftarrow> restoreEntries e (aFiles ar);
          (if \<not> ok then ret None
           else do { svc \<leftarrow> restoreCovered e stop (set (map fst (aFiles ar))) [] [] [] (covered ar);
                     ret (Some (sort_key (rank (modules e)) (iter e svc))) }) }) }"

definition clearRestoreListMarker :: "env \<Rightarrow> bool prog" where
  "clearRestoreListMarker e = act e (\<lambda>k. k\<lparr>listMarker := []\<rparr>)"

definition undoLists :: "env \<Rightarrow> string \<Rightarrow> unit prog" where
  "undoLists e snap =
     (if snap = [] then ret ()
      else do { r \<leftarrow> restore e (JoinP HistoryDir (Base snap)) True;
                (case r of None \<Rightarrow> ret () | Some _ \<Rightarrow> do { _ \<leftarrow> clearRestoreListMarker e; ret () }) })"

section \<open>The pending marker\<close>

text \<open>\<open>None\<close>: there is no marker; \<open>Some None\<close>: it cannot be read.\<close>

definition readPending :: "disk \<Rightarrow> pendingApply option option" where
  "readPending k =
     (case marker k of NoMarker \<Rightarrow> None | BadMarker \<Rightarrow> Some None
      | Marker p \<Rightarrow> if pSnapshot p = [] then Some None else Some (Some p))"

definition interrupted :: "env \<Rightarrow> pendingApply \<Rightarrow> bool" where
  "interrupted e p \<longleftrightarrow> pState p = stateApplying \<and> pPid p > 0 \<and> gone e (pPid p)"

definition left :: "pendingApply \<Rightarrow> int \<Rightarrow> int" where
  "left p t = (if pDeadline p - t > 0 then pDeadline p - t else 0)"

definition blockReason :: "env \<Rightarrow> int \<Rightarrow> pendingApply option option \<Rightarrow> applyError option" where
  "blockReason e t r =
     (case r of None \<Rightarrow> None
      | Some None \<Rightarrow> Some Unreadable
      | Some (Some p) \<Rightarrow>
          Some (if pState p = stateApplying
                then (if interrupted e p then Interrupted (pVia p) else Running (pVia p))
                else if pState p = stateReverting then BeingReverted (pVia p)
                else Waiting (pVia p) (left p t)))"

definition pendingBlocks :: "env \<Rightarrow> applyError option prog" where
  "pendingBlocks e = do { t \<leftarrow> sense (now e); r \<leftarrow> peek readPending; ret (blockReason e t r) }"

text \<open>The marker is created empty, only where there is none, and then written and synced.\<close>

definition claimPending :: "env \<Rightarrow> pendingApply \<Rightarrow> applyError option prog" where
  "claimPending e p = do {
     m \<leftarrow> peek marker;
     (if m \<noteq> NoMarker
      then do { b \<leftarrow> pendingBlocks e; ret (Some (case b of Some r \<Rightarrow> r | None \<Rightarrow> OtherPending)) }
      else do {
        created \<leftarrow> act e (\<lambda>k. k\<lparr>marker := BadMarker\<rparr>);
        (if \<not> created then ret (Some ClaimFailed)
         else do {
           written \<leftarrow> act e (\<lambda>k. k\<lparr>marker := Marker p\<rparr>);
           (if written then ret None
            else do { _ \<leftarrow> act e (\<lambda>k. k\<lparr>marker := NoMarker\<rparr>); ret (Some ClaimFailed) }) }) }) }"

definition setPending :: "env \<Rightarrow> pendingApply \<Rightarrow> bool prog" where
  "setPending e p = act e (\<lambda>k. k\<lparr>marker := Marker p\<rparr>)"

definition clearPending :: "env \<Rightarrow> string \<Rightarrow> unit prog" where
  "clearPending e snap = do {
     r \<leftarrow> peek readPending;
     (if snap \<noteq> [] \<and> (case r of Some (Some p) \<Rightarrow> pSnapshot p \<noteq> snap | _ \<Rightarrow> True) then ret ()
      else do { _ \<leftarrow> act e (\<lambda>k. k\<lparr>marker := NoMarker\<rparr>); ret () }) }"

section \<open>Revisions\<close>

definition lastRev :: "(string \<times> revision) list \<Rightarrow> int" where
  "lastRev rs = foldr max (map (rRev \<circ> snd) rs) 0"

definition newRevision :: "env \<Rightarrow> string \<Rightarrow> applyOpts \<Rightarrow> string list \<Rightarrow> bool prog" where
  "newRevision e snap o' changes = act e (\<lambda>k. k\<lparr>revs := AList.update (Base snap)
     \<lparr>rRev = lastRev (revs k) + 1, rVia = oVia o', rResult = ''applying'', rChanges = changes, rSnapshot = Base snap\<rparr> (revs k)\<rparr>)"

definition setResult :: "env \<Rightarrow> string \<Rightarrow> string \<Rightarrow> unit prog" where
  "setResult e snap result = do {
     r \<leftarrow> peek (\<lambda>k. map_of (revs k) (Base snap));
     (case r of None \<Rightarrow> ret ()
      | Some v \<Rightarrow> do { _ \<leftarrow> act e (\<lambda>k. k\<lparr>revs := AList.update (Base snap) (v\<lparr>rResult := result\<rparr>) (revs k)\<rparr>); ret () }) }"

section \<open>Services and the firewall\<close>

definition restartOne :: "env \<Rightarrow> string \<Rightarrow> string list prog" where
  "restartOne e s = do {
     _ \<leftarrow> (if HasPrefix s ''mr-pppoe.'' then run e [''mark-dial-start'', TrimPrefix s ''mr-pppoe.''] else ret True);
     (if s = ''mr-network'' then do {
        ok \<leftarrow> run e [''sh'', GenDir @ ''/network.sh''];
        c \<leftarrow> loadConfig e ConfigPath SecretsPath;
        _ \<leftarrow> (case c of None \<Rightarrow> ret True | Some _ \<Rightarrow> run e [''refresh-routes'']);
        ret (if ok then [] else [''network.sh'']) }
      else if s = ''sysctl'' then do { _ \<leftarrow> run e [''sysctl'']; ret [] }
      else do {
        x \<leftarrow> exists (JoinP initDir s);
        (if \<not> x then ret []
         else do { ok \<leftarrow> run e [''rc-service'', s, ''restart'']; ret (if ok then [] else [s]) }) }) }"

definition restartAll :: "env \<Rightarrow> string list \<Rightarrow> string list prog" where
  "restartAll e svcs = collect (restartOne e) svcs"

definition fwLoad :: "env \<Rightarrow> Config \<Rightarrow> bool prog" where
  "fwLoad e c = do {
     ok \<leftarrow> writeAtomic e (nftPath @ ''.new'') (nftRules c) 420;
     (if \<not> ok then ret False
      else do {
        chk \<leftarrow> run e [''nft'', ''-c'', ''-f'', nftPath @ ''.new''];
        (if \<not> chk then do { _ \<leftarrow> removeFile e (nftPath @ ''.new''); ret False }
         else do {
           ld \<leftarrow> run e [''nft'', ''-f'', nftPath @ ''.new''];
           (if \<not> ld then do { _ \<leftarrow> removeFile e (nftPath @ ''.new''); ret False }
            else do { mv \<leftarrow> renameFile e (nftPath @ ''.new'') nftPath;
                      (if mv then run e [''refresh-lan6''] else ret False) }) }) }) }"

definition startIfDown :: "env \<Rightarrow> string \<Rightarrow> bool prog" where
  "startIfDown e s = do { up \<leftarrow> run e [''rc-service'', s, ''status'']; (if up then ret True else run e [''rc-service'', s, ''start'']) }"

definition ensureStarted :: "env \<Rightarrow> Config \<Rightarrow> unit prog" where
  "ensureStarted e c = forEach (\<lambda>s. do { x \<leftarrow> exists (JoinP initDir s); (if x then startIfDown e s else ret True) })
     (enabledServices (modules e) c)"

definition verify :: "env \<Rightarrow> Config \<Rightarrow> string list \<Rightarrow> string list prog" where
  "verify e c restarted = do {
     es \<leftarrow> collect (\<lambda>s. if s = ''mr-network'' \<or> s = ''sysctl'' then ret []
            else do { x \<leftarrow> exists (JoinP initDir s);
                      (if \<not> x then ret []
                       else do { up \<leftarrow> run e [''rc-service'', s, ''status'']; ret (if up then [] else [s @ '' not running'']) }) })
          (dedup (restarted @ enabledServices (modules e) c));
     dev \<leftarrow> sense (netdev e);
     fw \<leftarrow> run e [''nft'', ''list'', ''table'', ''inet'', ''mr''];
     ret (es @ (if dev (Bridge c) then [] else [Bridge c @ '' missing'']) @ (if fw then [] else [''firewall table missing''])
          @ concat (map (\<lambda>m. case Verify m of None \<Rightarrow> [] | Some f \<Rightarrow> f c restarted) (modules e))) }"

definition removeLink :: "env \<Rightarrow> string \<Rightarrow> bool prog" where
  "removeLink e s = act e (\<lambda>k. k\<lparr>links := filter (\<lambda>l. l \<noteq> s) (links k)\<rparr>)"

definition addLink :: "env \<Rightarrow> string \<Rightarrow> bool prog" where
  "addLink e s = act e (\<lambda>k. if s \<in> set (links k) then k else k\<lparr>links := links k @ [s]\<rparr>)"

text \<open>Links in the runlevel whose init script is gone.\<close>

definition dangling :: "disk \<Rightarrow> string list" where
  "dangling k = filter (\<lambda>s. map_of (files k) (JoinP initDir s) = None) (links k)"

definition reconcileRunlevel :: "env \<Rightarrow> Config \<Rightarrow> unit prog" where
  "reconcileRunlevel e c = do {
     have \<leftarrow> peek links;
     ms \<leftarrow> peek (\<lambda>k. managedServices (modules e) (files k));
     _ \<leftarrow> forEach (\<lambda>s. if s \<in> set have \<and> s \<notin> set (enabledServices (modules e) c)
            then do { _ \<leftarrow> run e [''rc-service'', s, ''stop'']; run e [''rc-update'', ''del'', s, ''default''] } else ret True) ms;
     _ \<leftarrow> forEach (\<lambda>s. do { x \<leftarrow> exists (JoinP initDir s);
            (if \<not> x then ret True
             else do { _ \<leftarrow> (if s \<in> set have then ret True else run e [''rc-update'', ''add'', s, ''default'']); startIfDown e s }) })
          (enabledServices (modules e) c);
     ds \<leftarrow> peek (\<lambda>k. filter (managedRunlevelService (modules e) (files k) c) (dangling k));
     forEach (removeLink e) ds }"

definition linkRunlevel :: "env \<Rightarrow> Config \<Rightarrow> unit prog" where
  "linkRunlevel e c = do {
     ms \<leftarrow> peek (\<lambda>k. managedServices (modules e) (files k));
     _ \<leftarrow> forEach (\<lambda>s. if s \<in> set (enabledServices (modules e) c) then ret True else removeLink e s) ms;
     ds \<leftarrow> peek dangling;
     _ \<leftarrow> forEach (removeLink e) ds;
     forEach (\<lambda>s. do { x \<leftarrow> exists (JoinP initDir s); (if x then addLink e s else ret True) }) (iter e (enabledServices (modules e) c)) }"

section \<open>Rollback\<close>

definition afterRestore :: "env \<Rightarrow> string list \<Rightarrow> unit prog" where
  "afterRestore e svcs = do {
     _ \<leftarrow> restartAll e svcs;
     c \<leftarrow> loadConfig e ConfigPath SecretsPath;
     (case c of None \<Rightarrow> ret ()
      | Some c' \<Rightarrow> do { _ \<leftarrow> reconcileRunlevel e c'; _ \<leftarrow> run e [''refresh-routes'']; _ \<leftarrow> fwLoad e c'; ret () }) }"

definition listSnapOf :: "disk \<Rightarrow> string \<Rightarrow> string" where
  "listSnapOf k snap = (case readPending k of Some (Some p) \<Rightarrow> if pSnapshot p = snap then pListSnapshot p else [] | _ \<Rightarrow> [])"

definition rollback :: "env \<Rightarrow> string \<Rightarrow> string \<Rightarrow> applyError prog" where
  "rollback e snap cause = do {
     ls \<leftarrow> peek (\<lambda>k. listSnapOf k snap);
     _ \<leftarrow> keepRejected e snap;
     r \<leftarrow> restore e snap True;
     (case r of None \<Rightarrow> ret (RollbackFailed cause)
      | Some svcs \<Rightarrow> do {
          _ \<leftarrow> dropStaged e;
          _ \<leftarrow> undoLists e ls;
          _ \<leftarrow> afterRestore e svcs;
          _ \<leftarrow> clearPending e snap;
          _ \<leftarrow> setResult e snap (''rolled back: '' @ cause);
          _ \<leftarrow> appendChangeLog e (''mr apply: failed and rolled back: '' @ cause);
          ret (RolledBack cause) }) }"

section \<open>Apply\<close>

definition doInstall :: "env \<Rightarrow> string \<times> string \<Rightarrow> bool prog" where
  "doInstall e cand = (case cand of (cy, cs) \<Rightarrow> do {
     y \<leftarrow> ReadFile cy;
     s \<leftarrow> ReadFile cs;
     (case (y, s) of
        (Some y', Some s') \<Rightarrow> do { ok \<leftarrow> writeAtomic e ConfigPath y' 420; (if ok then writeAtomic e SecretsPath s' 384 else ret False) }
      | _ \<Rightarrow> ret False) })"

text \<open>The files of the plan; the first one that fails ends the loop.\<close>

fun writeChanged :: "env \<Rightarrow> File list \<Rightarrow> bool prog" where
  "writeChanged e [] = ret True"
| "writeChanged e (f # fs) = do { ok \<leftarrow> writeAtomic e (fPath f) (fData f) (fMode f); (if ok then writeChanged e fs else ret False) }"

definition cleanupModuleOrphans :: "env \<Rightarrow> Config \<Rightarrow> unit prog" where
  "cleanupModuleOrphans e c = do { ps \<leftarrow> peek (\<lambda>k. moduleOrphanPaths (modules e) c (files k)); forEach (removeFile e) ps }"

fun cleanupWAN :: "env \<Rightarrow> string list \<Rightarrow> string list \<Rightarrow> unit prog" where
  "cleanupWAN e stopped [] = ret ()"
| "cleanupWAN e stopped (p # ps) =
     (let s = removedWANService p; need = s \<noteq> [] \<and> s \<notin> set stopped in do {
        ok \<leftarrow> (if need then stopAndDisableService e s else ret True);
        (if need \<and> \<not> ok then cleanupWAN e stopped ps
         else do {
           _ \<leftarrow> removeFile e p;
           _ \<leftarrow> (if Dir p = initDir then removeLink e (Base p) else ret True);
           cleanupWAN e (if need then s # stopped else stopped) ps }) })"

definition cleanupOrphanWANFiles :: "env \<Rightarrow> Config \<Rightarrow> unit prog" where
  "cleanupOrphanWANFiles e c = do { ps \<leftarrow> peek (\<lambda>k. orphanWANPaths c (files k)); cleanupWAN e [] ps }"

definition tokenHash :: "env \<Rightarrow> string \<Rightarrow> string" where
  "tokenHash e token = (if token = [] then [] else sha256 e token)"

definition armConfirm :: "env \<Rightarrow> string \<Rightarrow> int \<Rightarrow> string \<Rightarrow> string \<Rightarrow> unit prog" where
  "armConfirm e snap secs via token = do {
     t \<leftarrow> sense (now e);
     ls \<leftarrow> peek (\<lambda>k. listSnapOf k snap);
     _ \<leftarrow> setPending e \<lparr>pSnapshot = snap, pListSnapshot = ls, pState = statePending, pDeadline = t + secs, pVia = via, pPid = 0,
            pConfirmHash = tokenHash e token\<rparr>;
     _ \<leftarrow> run e [''start-detached'', ''rollback-if-unconfirmed'', snap];
     ret () }"

definition applyPaths :: "Plan \<Rightarrow> string list" where
  "applyPaths p = map fPath (Changed p) @ [ConfigPath, SecretsPath, nftPath] @ Remove p"

text \<open>The end of an apply: settle the change, or leave it pending.\<close>

definition settle :: "env \<Rightarrow> string \<Rightarrow> int \<Rightarrow> applyOpts \<Rightarrow> (applyError + outcome) prog" where
  "settle e snap confirmSecs o' =
     (if confirmSecs > 0 then do {
        _ \<leftarrow> armConfirm e snap confirmSecs (oVia o') (oConfirmToken o');
        _ \<leftarrow> setResult e snap ''pending'';
        ret (Inr Applied) }
      else do {
        _ \<leftarrow> clearPending e snap;
        _ \<leftarrow> acceptStaged e;
        _ \<leftarrow> setResult e snap ''applied'';
        _ \<leftarrow> run e [''net-commit''];
        ret (Inr Applied) })"

text \<open>From the marker on: install, write, enable, restart, load, verify.\<close>

definition carryOut :: "env \<Rightarrow> Config \<Rightarrow> Plan \<Rightarrow> string \<Rightarrow> int \<Rightarrow> (string \<times> string) option \<Rightarrow> applyOpts \<Rightarrow> string list \<Rightarrow> (applyError + outcome) prog" where
  "carryOut e c p snap confirmSecs install o' changes = do {
     _ \<leftarrow> newRevision e snap o' changes;
     inst \<leftarrow> (case install of None \<Rightarrow> ret True | Some cand \<Rightarrow> doInstall e cand);
     (if \<not> inst then do { r \<leftarrow> rollback e snap ''install candidate''; ret (Inl r) }
      else do {
        _ \<leftarrow> stageAccepted e;
        wr \<leftarrow> writeChanged e (Changed p);
        (if \<not> wr then do { r \<leftarrow> rollback e snap ''write''; ret (Inl r) }
         else do {
           _ \<leftarrow> forEach (\<lambda>s. run e [''rc-update'', ''add'', s, ''default'']) (Enable p);
           _ \<leftarrow> forEach (\<lambda>s. do { _ \<leftarrow> run e [''rc-service'', s, ''stop'']; run e [''rc-update'', ''del'', s, ''default''] }) (Disable p);
           _ \<leftarrow> cleanupModuleOrphans e c;
           _ \<leftarrow> cleanupOrphanWANFiles e c;
           failed \<leftarrow> restartAll e (dedup (PServices p @ Enable p));
           (if failed \<noteq> [] then do { r \<leftarrow> rollback e snap ''service restart failed:''; ret (Inl r) }
            else do {
              _ \<leftarrow> ensureStarted e c;
              _ \<leftarrow> run e [''refresh-routes''];
              fw \<leftarrow> fwLoad e c;
              (if \<not> fw then do { r \<leftarrow> rollback e snap ''nft''; ret (Inl r) }
               else do {
                 errs \<leftarrow> verify e c (dedup (PServices p @ Enable p));
                 (if errs \<noteq> [] then do { r \<leftarrow> rollback e snap ''verification failed:''; ret (Inl r) }
                  else do {
                    _ \<leftarrow> appendChangeLog e (''mr apply: '' @ summary p);
                    settle e snap confirmSecs o' }) }) }) }) }) }"

text \<open>With the marker on disk: a candidate built from another router.yaml is refused before anything is written.\<close>

definition configRev :: "env \<Rightarrow> fsys \<Rightarrow> string" where
  "configRev e fs = (case readFile fs ConfigPath of None \<Rightarrow> [] | Some y \<Rightarrow> rev_of e y)"

definition afterClaim :: "env \<Rightarrow> Config \<Rightarrow> Plan \<Rightarrow> string \<Rightarrow> int \<Rightarrow> (string \<times> string) option \<Rightarrow> applyOpts \<Rightarrow> string list \<Rightarrow> (applyError + outcome) prog" where
  "afterClaim e c p snap confirmSecs install o' changes = do {
     _ \<leftarrow> (if oListSnapshot o' \<noteq> [] then clearRestoreListMarker e else ret True);
     rv \<leftarrow> peek (\<lambda>k. configRev e (files k));
     (if oBaseRev o' \<noteq> [] \<and> rv \<noteq> oBaseRev o'
      then do { _ \<leftarrow> clearPending e snap; _ \<leftarrow> removeSnap e (Base snap); ret (Inl Stale) }
      else carryOut e c p snap confirmSecs install o' changes) }"

definition claim_of :: "string \<Rightarrow> int \<Rightarrow> applyOpts \<Rightarrow> pendingApply" where
  "claim_of snap pid o' = \<lparr>pSnapshot = snap, pListSnapshot = oListSnapshot o', pState = stateApplying, pDeadline = 0,
     pVia = oVia o', pPid = pid, pConfirmHash = []\<rparr>"

text \<open>From the snapshot on. \<open>changes\<close>: the semantic diff the revision records (\<open>changesSinceApplied\<close>); \<open>pid\<close>: this
  process.\<close>

definition transact :: "env \<Rightarrow> int \<Rightarrow> string list \<Rightarrow> Config \<Rightarrow> Plan \<Rightarrow> int \<Rightarrow> (string \<times> string) option \<Rightarrow> applyOpts \<Rightarrow> (applyError + outcome) prog" where
  "transact e pid changes c p confirmSecs install o' = do {
     src \<leftarrow> peek (\<lambda>k. if install = None then acceptedSources (files k) else []);
     sn \<leftarrow> snapshotFrom e (applyPaths p) (historyKeep (Some c)) src;
     (case sn of None \<Rightarrow> ret (Inl SnapshotFailed)
      | Some snap \<Rightarrow> do {
          cl \<leftarrow> claimPending e (claim_of snap pid o');
          (case cl of Some r \<Rightarrow> do { _ \<leftarrow> removeSnap e (Base snap); ret (Inl r) }
           | None \<Rightarrow> afterClaim e c p snap confirmSecs install o' changes) }) }"

definition applyWith ::
  "env \<Rightarrow> int \<Rightarrow> string list \<Rightarrow> Config \<Rightarrow> bool \<Rightarrow> int \<Rightarrow> (string \<times> string) option \<Rightarrow> applyOpts \<Rightarrow> (applyError + outcome) prog" where
  "applyWith e pid changes c dryRun confirmSecs install o' = do {
     b \<leftarrow> (if dryRun then ret None else pendingBlocks e);
     (case b of Some r \<Rightarrow> ret (Inl r)
      | None \<Rightarrow>
         if validate e c \<noteq> [] then ret (Inl (Invalid (validate e c)))
         else do {
           pl \<leftarrow> peek (\<lambda>k. plan (iter e) (modules e) (applied e) (files k) (links k) c);
           (case pl of Inl m \<Rightarrow> ret (Inl (PlanFailed m))
            | Inr p \<Rightarrow>
               if Empty p \<and> install = None then ret (Inr NothingToDo)
               else if dryRun then ret (Inr DryRun)
               else transact e pid changes c p confirmSecs install o') }) }"

section \<open>At boot\<close>

definition rollbackAtBoot :: "env \<Rightarrow> unit prog" where
  "rollbackAtBoot e = do {
     r \<leftarrow> peek readPending;
     (case r of
        None \<Rightarrow> do {
          lm \<leftarrow> peek listMarker;
          (if lm \<noteq> [] then do { _ \<leftarrow> undoLists e lm; _ \<leftarrow> appendChangeLog e ''boot: restore list files rolled back before apply marker was written''; ret () }
           else ret ()) }
      | Some None \<Rightarrow> do {
          _ \<leftarrow> act e (\<lambda>k. k\<lparr>marker := NoMarker\<rparr>);
          _ \<leftarrow> appendChangeLog e ''boot: unreadable pending marker set aside'';
          ret () }
      | Some (Some p) \<Rightarrow> (let snap = JoinP HistoryDir (Base (pSnapshot p)) in do {
          _ \<leftarrow> keepRejected e snap;
          rs \<leftarrow> restore e snap False;
          (case rs of
             None \<Rightarrow> do { _ \<leftarrow> act e (\<lambda>k. k\<lparr>marker := NoMarker\<rparr>); _ \<leftarrow> appendChangeLog e ''boot: rolling back FAILED''; ret () }
           | Some _ \<Rightarrow> do {
               _ \<leftarrow> dropStaged e;
               _ \<leftarrow> undoLists e (pListSnapshot p);
               c \<leftarrow> loadConfig e ConfigPath SecretsPath;
               _ \<leftarrow> (case c of None \<Rightarrow> ret () | Some c' \<Rightarrow> linkRunlevel e c');
               _ \<leftarrow> clearPending e [];
               _ \<leftarrow> setResult e snap ''rolled back at boot: the router restarted before it was confirmed'';
               _ \<leftarrow> appendChangeLog e ''boot: rolled back'';
               ret () }) })) }"

end
