(* ===== verification/Apply_Safety.thy ===== *)
theory Apply_Safety
  imports Apply_Txn
begin

text \<open>
  The apply against power cuts. Shown: whenever the power goes during an apply, and as often as it goes again during the
  boots after it, the first boot that completes has put every file of the change back (\<open>crash_restores\<close>).

  The argument: programs that leave the marker and the snapshots alone keep \<open>at\<close>; from the claim of the marker on, the
  marker on the disk names a snapshot that is there (\<open>guard\<close>); restoring that snapshot puts the covered paths back, or
  the power is gone and the marker still there (\<open>or_dead\<close>).
\<close>

section \<open>Programs that leave the marker and the snapshots alone\<close>

definition at :: "markerFile \<Rightarrow> (string \<times> archive) list \<Rightarrow> world \<Rightarrow> bool" where
  "at M S w \<longleftrightarrow> marker (dsk w) = M \<and> snaps (dsk w) = S \<and> listMarker (dsk w) = []"

text \<open>Commands and daemons do not touch mr's marker and history.\<close>

definition good_env :: "env \<Rightarrow> bool" where
  "good_env e \<longleftrightarrow> (\<forall>n args d. marker (eff e n args d) = marker d \<and> snaps (eff e n args d) = snaps d
     \<and> listMarker (eff e n args d) = listMarker d)"

lemma at_act:
  assumes "\<And>d. marker (f d) = marker d \<and> snaps (f d) = snaps d \<and> listMarker (f d) \<in> {listMarker d, []}"
  shows "keeps (at M S) (act e f)"
proof (rule keepsI)
  fix w
  assume "at M S w"
  then show "at M S (snd (run_state (act e f) w))"
    using assms [of "dsk w"] by (auto simp: act_def at_def Let_def)
qed

lemma at_run [intro!]: "good_env e \<Longrightarrow> keeps (at M S) (run e args)"
  by (auto simp: keeps_def run_def at_def Let_def good_env_def)

lemma at_files [intro!]:
  "keeps (at M S) (writeAtomic e p d m)" "keeps (at M S) (removeFile e p)" "keeps (at M S) (renameFile e a b)"
  "keeps (at M S) (appendChangeLog e l)" "keeps (at M S) (removeLink e s)" "keeps (at M S) (addLink e s)"
  "keeps (at M S) (clearRestoreListMarker e)" "keeps (at M S) (newRevision e snap o' ch)"
  unfolding writeAtomic_def removeFile_def renameFile_def appendChangeLog_def removeLink_def addLink_def
    clearRestoreListMarker_def newRevision_def
  by (rule at_act; simp split: option.splits prod.splits)+

lemma keeps_reads [intro!]: "keeps I (ReadFile p)" "keeps I (exists p)" "keeps I (loadConfig e a b)"
  unfolding ReadFile_def exists_def loadConfig_def by auto

lemma at_stage [intro!]: "keeps (at M S) (stageAccepted e)" "keeps (at M S) (acceptStaged e)" "keeps (at M S) (dropStaged e)"
  "keeps (at M S) (keepRejected e snap)"
  unfolding stageAccepted_def stageOne_def acceptStaged_def dropStaged_def keepRejected_def
  by (auto split: prod.splits option.splits)

lemma at_restoreEntries [intro!]: "keeps (at M S) (restoreEntries e xs)"
  by (induction xs) (auto simp: restoreEntry_def split: prod.splits)

lemma at_stop [intro!]: "good_env e \<Longrightarrow> keeps (at M S) (stopAndDisableService e s)"
  unfolding stopAndDisableService_def by auto

lemma at_restoreCovered [intro!]: "good_env e \<Longrightarrow> keeps (at M S) (restoreCovered e stop pr st fl svc ps)"
  by (induction ps arbitrary: st fl svc) (auto simp: Let_def split: prod.splits)

lemma at_restore [intro!]: "good_env e \<Longrightarrow> keeps (at M S) (restore e snap stop)"
  unfolding restore_def by auto

lemma at_undoLists [intro!]: "good_env e \<Longrightarrow> keeps (at M S) (undoLists e snap)"
  unfolding undoLists_def by auto

lemma at_setResult [intro!]: "keeps (at M S) (setResult e snap r)"
  unfolding setResult_def by (auto intro!: at_act)

lemma at_restartAll [intro!]: "good_env e \<Longrightarrow> keeps (at M S) (restartAll e svcs)"
  unfolding restartAll_def restartOne_def by (auto split: option.splits)

lemma at_fwLoad [intro!]: "good_env e \<Longrightarrow> keeps (at M S) (fwLoad e c)"
  unfolding fwLoad_def by auto

lemma at_services [intro!]:
  "good_env e \<Longrightarrow> keeps (at M S) (ensureStarted e c)" "good_env e \<Longrightarrow> keeps (at M S) (verify e c rs)"
  "good_env e \<Longrightarrow> keeps (at M S) (reconcileRunlevel e c)" "keeps (at M S) (linkRunlevel e c)"
  unfolding ensureStarted_def verify_def reconcileRunlevel_def linkRunlevel_def startIfDown_def by auto

lemma at_afterRestore [intro!]: "good_env e \<Longrightarrow> keeps (at M S) (afterRestore e svcs)"
  unfolding afterRestore_def by auto

lemma at_writeChanged [intro!]: "keeps (at M S) (writeChanged e fs)"
  by (induction fs) auto

lemma at_install [intro!]: "keeps (at M S) (doInstall e cand)"
  unfolding doInstall_def by (auto split: prod.splits option.splits)

lemma at_cleanupWAN [intro!]: "good_env e \<Longrightarrow> keeps (at M S) (cleanupWAN e st ps)"
  by (induction ps arbitrary: st) (auto simp: Let_def)

lemma at_cleanup [intro!]:
  "keeps (at M S) (cleanupModuleOrphans e c)" "good_env e \<Longrightarrow> keeps (at M S) (cleanupOrphanWANFiles e c)"
  unfolding cleanupModuleOrphans_def cleanupOrphanWANFiles_def by auto

section \<open>The snapshot guards the change\<close>

text \<open>From the claim of the marker to its removal: the snapshot is there, and a marker names it.\<close>

definition guard :: "string \<Rightarrow> archive \<Rightarrow> world \<Rightarrow> bool" where
  "guard nm A w \<longleftrightarrow> map_of (snaps (dsk w)) nm = Some A \<and> marker (dsk w) \<noteq> BadMarker \<and> listMarker (dsk w) = []
     \<and> (\<forall>p. marker (dsk w) = Marker p \<longrightarrow> pSnapshot p = JoinP HistoryDir nm \<and> pListSnapshot p = [])"

lemma guard_at: "(\<And>M S. keeps (at M S) m) \<Longrightarrow> keeps (guard nm A) m"
  by (simp add: keeps_def at_def guard_def)

lemmas guard_leaves [intro!] =
  at_run [THEN guard_at] at_files [THEN guard_at] at_stage [THEN guard_at] at_restoreEntries [THEN guard_at]
  at_stop [THEN guard_at] at_restoreCovered [THEN guard_at] at_restore [THEN guard_at] at_undoLists [THEN guard_at]
  at_setResult [THEN guard_at] at_restartAll [THEN guard_at] at_fwLoad [THEN guard_at] at_services [THEN guard_at]
  at_afterRestore [THEN guard_at] at_writeChanged [THEN guard_at] at_install [THEN guard_at] at_cleanup [THEN guard_at]

lemma HistoryDir_nonempty [simp]: "JoinP HistoryDir nm \<noteq> []"
  by (simp add: JoinP_def HistoryDir_def)

lemma guard_clear [intro!]: "keeps (guard nm A) (clearPending e snap)"
  unfolding clearPending_def by (auto simp: keeps_def guard_def peek_def act_def Let_def split: option.splits)

lemma guard_rollback [intro!]: "good_env e \<Longrightarrow> keeps (guard nm A) (rollback e snap cause)"
  unfolding rollback_def by auto

lemma guard_setPending:
  "triple (guard nm A) (do { t \<leftarrow> sense f; ls \<leftarrow> peek (\<lambda>k. listSnapOf k (JoinP HistoryDir nm)); setPending e (g t ls) }) (\<lambda>_. guard nm A)"
  if "\<And>t ls. pSnapshot (g t ls) = JoinP HistoryDir nm \<and> pListSnapshot (g t ls) = ls"
  using that
  by (auto simp: triple_def guard_def peek_def sense_def setPending_def act_def Let_def listSnapOf_def readPending_def
      split: if_splits markerFile.splits)

lemma guard_arm [intro!]: "good_env e \<Longrightarrow> keeps (guard nm A) (armConfirm e (JoinP HistoryDir nm) secs via h)"
proof -
  assume g: "good_env e"
  have "armConfirm e (JoinP HistoryDir nm) secs via h =
     do { _ \<leftarrow> (do { t \<leftarrow> sense (now e); ls \<leftarrow> peek (\<lambda>k. listSnapOf k (JoinP HistoryDir nm));
                  setPending e \<lparr>pSnapshot = JoinP HistoryDir nm, pListSnapshot = ls, pState = statePending, pDeadline = t + secs,
                    pVia = via, pPid = 0, pConfirmHash = tokenHash e h\<rparr> });
          _ \<leftarrow> run e [''start-detached'', ''rollback-if-unconfirmed'', JoinP HistoryDir nm]; ret () }"
    by (simp add: armConfirm_def)
  then show ?thesis using g
    by (simp only:) (rule keeps_bind [OF keeps_triple [OF guard_setPending]]; auto)
qed

lemma guard_settle [intro!]: "good_env e \<Longrightarrow> keeps (guard nm A) (settle e (JoinP HistoryDir nm) secs o')"
  unfolding settle_def by auto

lemma guard_carryOut: "good_env e \<Longrightarrow> keeps (guard nm A) (carryOut e c p (JoinP HistoryDir nm) secs install o' ch)"
  unfolding carryOut_def by auto

section \<open>Taking the snapshot and the marker\<close>

definition quietly :: "fsys \<Rightarrow> markerFile \<Rightarrow> string \<Rightarrow> world \<Rightarrow> bool" where
  "quietly F M L w \<longleftrightarrow> files (dsk w) = F \<and> marker (dsk w) = M \<and> listMarker (dsk w) = L"

lemma quietly_act: "(\<And>d. files (f d) = files d \<and> marker (f d) = marker d \<and> listMarker (f d) = listMarker d) \<Longrightarrow> keeps (quietly F M L) (act e f)"
  by (auto simp: keeps_def act_def quietly_def Let_def)

lemma quietly_prune: "keeps (quietly F M L) (prune e kp nm)"
  unfolding prune_def removeSnap_def removeRev_def by (auto intro!: quietly_act)

lemma pruneLoop_subset: "set (pruneLoop k ns) \<subseteq> set ns"
  by (induction ns) auto

lemma prune_not_kept: "nm \<notin> set (pruneHistory kp nm names)"
  using pruneLoop_subset by (fastforce simp: pruneHistory_def)

lemma prune_keeps_snap: "keeps (\<lambda>w. map_of (snaps (dsk w)) nm = Some A) (prune e kp nm)"
  unfolding prune_def removeSnap_def removeRev_def
  using prune_not_kept [of nm kp]
  by (fastforce simp: keeps_def act_def Let_def delete_conv')

lemma snapNames_no_slash: "CHR ''/'' \<notin> set base \<Longrightarrow> n \<in> set (snapNames base) \<Longrightarrow> CHR ''/'' \<notin> set n"
  by (auto simp: snapNames_def)

lemma pickName_in: "pickName sn base \<in> set (snapNames base)"
  using last_in_set [of "snapNames base"]
  by (auto simp: pickName_def snapNames_def [of base] find_Some_iff in_set_conv_nth split: option.splits)

lemma snapshotFrom_spec:
  assumes st: "\<And>n. CHR ''/'' \<notin> set (stamp e n)"
    and run: "run_state (snapshotFrom e paths kp src) w = (r, w')"
  shows "files (dsk w') = files (dsk w) \<and> marker (dsk w') = marker (dsk w) \<and> listMarker (dsk w') = listMarker (dsk w)
    \<and> (\<forall>snap. r = Some snap \<longrightarrow> (\<exists>nm. CHR ''/'' \<notin> set nm \<and> snap = JoinP HistoryDir nm
        \<and> map_of (snaps (dsk w')) nm = Some (writeSnapshotFrom (files (dsk w)) src paths)))"
proof -
  define nm where "nm = pickName (snaps (dsk w)) (stamp e (ops w))"
  have ns: "CHR ''/'' \<notin> set nm" unfolding nm_def using pickName_in snapNames_no_slash st by blast
  let ?f = "\<lambda>k. k\<lparr>snaps := AList.update nm (writeSnapshotFrom (files k) src paths) (snaps k)\<rparr>"
  obtain ok w1 where w1: "run_state (act e ?f) w = (ok, w1)" by (cases "run_state (act e ?f) w")
  have q1: "files (dsk w1) = files (dsk w)" "marker (dsk w1) = marker (dsk w)" "listMarker (dsk w1) = listMarker (dsk w)"
    and s1: "ok \<Longrightarrow> map_of (snaps (dsk w1)) nm = Some (writeSnapshotFrom (files (dsk w)) src paths)"
    using w1 by (auto simp: act_def Let_def update_conv' split: if_splits)
  show ?thesis
  proof (cases ok)
    case False
    then have "r = None" "w' = w1"
      using run w1 by (auto simp: snapshotFrom_def sense_def peek_def nm_def)
    then show ?thesis using q1 by simp
  next
    case True
    have r: "r = Some (JoinP HistoryDir nm)" "w' = snd (run_state (prune e kp nm) w1)"
      using run w1 True by (auto simp: snapshotFrom_def sense_def peek_def nm_def split: prod.splits)
    have "quietly (files (dsk w1)) (marker (dsk w1)) (listMarker (dsk w1)) w'"
      unfolding r(2) by (rule keepsD [OF quietly_prune]) (simp add: quietly_def)
    moreover have "map_of (snaps (dsk w')) nm = Some (writeSnapshotFrom (files (dsk w)) src paths)"
      unfolding r(2) by (rule keepsD [OF prune_keeps_snap s1 [OF True]])
    ultimately show ?thesis using q1 r ns by (auto simp: quietly_def)
  qed
qed

lemma claimPending_spec:
  assumes run: "run_state (claimPending e p) w = (r, w')" and "marker (dsk w) = NoMarker"
  shows "files (dsk w') = files (dsk w) \<and> snaps (dsk w') = snaps (dsk w) \<and> listMarker (dsk w') = listMarker (dsk w)
    \<and> (r = None \<longrightarrow> marker (dsk w') = Marker p) \<and> (r \<noteq> None \<longrightarrow> marker (dsk w') \<in> {NoMarker, BadMarker})"
  using assms by (auto simp: claimPending_def peek_def act_def Let_def split: if_splits)

definition no_faults :: "env \<Rightarrow> bool" where
  "no_faults e \<longleftrightarrow> (\<forall>n. \<not> fails e n)"

text \<open>The stale path: where the marker could not be removed any more, the snapshot is not removed either.\<close>

lemma stale_safe:
  assumes "no_faults e" "guard nm A w" "CHR ''/'' \<notin> set nm"
    "run_state (do { _ \<leftarrow> clearPending e (JoinP HistoryDir nm); _ \<leftarrow> removeSnap e (Base (JoinP HistoryDir nm)); ret x }) w = (y, w')"
  shows "guard nm A w' \<or> (marker (dsk w') = NoMarker \<and> listMarker (dsk w') = [])"
  using assms
  by (auto simp: clearPending_def removeSnap_def guard_def peek_def act_def Let_def no_faults_def alive_def readPending_def
      Base_JoinP split: if_splits option.splits markerFile.splits)

text \<open>What an apply leaves on the disk, wherever the power goes: a marker only together with the snapshot it names.\<close>

definition guarded_by :: "archive \<Rightarrow> fsys \<Rightarrow> world \<Rightarrow> bool" where
  "guarded_by A F w \<longleftrightarrow> listMarker (dsk w) = [] \<and>
     (\<forall>m. marker (dsk w) = Marker m \<longrightarrow> (\<exists>nm. CHR ''/'' \<notin> set nm \<and> pSnapshot m = JoinP HistoryDir nm \<and> pListSnapshot m = []
        \<and> map_of (snaps (dsk w)) nm = Some A))
     \<and> (marker (dsk w) = BadMarker \<longrightarrow> files (dsk w) = F)"

lemma guard_guarded: "CHR ''/'' \<notin> set nm \<Longrightarrow> guard nm A w \<Longrightarrow> guarded_by A F w"
  by (auto simp: guard_def guarded_by_def)

lemma guarded_NoMarker: "marker (dsk w) = NoMarker \<Longrightarrow> listMarker (dsk w) = [] \<Longrightarrow> guarded_by A F w"
  by (simp add: guarded_by_def)

lemma quietly_removeSnap: "files (dsk (snd (run_state (removeSnap e nm) w))) = files (dsk w)
   \<and> marker (dsk (snd (run_state (removeSnap e nm) w))) = marker (dsk w)
   \<and> listMarker (dsk (snd (run_state (removeSnap e nm) w))) = listMarker (dsk w)"
  by (simp add: removeSnap_def act_def Let_def)

text \<open>From the claim on.\<close>

lemma afterClaim_guarded:
  assumes e: "good_env e" "no_faults e" and ns: "CHR ''/'' \<notin> set nm" and ls: "oListSnapshot o' = []" and g: "guard nm A w"
    and run: "run_state (afterClaim e c p (JoinP HistoryDir nm) secs install o' changes) w = (r, w')"
  shows "guarded_by A F w'"
proof -
  let ?stale = "oBaseRev o' \<noteq> [] \<and> configRev e (files (dsk w)) \<noteq> oBaseRev o'"
  let ?X = "do { _ \<leftarrow> clearPending e (JoinP HistoryDir nm); _ \<leftarrow> removeSnap e (Base (JoinP HistoryDir nm)); ret (Inl Stale) }"
  let ?Y = "carryOut e c p (JoinP HistoryDir nm) secs install o' changes"
  have run': "run_state (if ?stale then ?X else ?Y) w = (r, w')" using run ls by (simp add: afterClaim_def peek_def)
  show ?thesis
  proof (cases ?stale)
    case True
    have "run_state ?X w = (r, w')" using run' unfolding if_P [OF True] .
    from stale_safe [OF e(2) g ns this] show ?thesis using guard_guarded [OF ns] guarded_NoMarker by blast
  next
    case False
    have "run_state ?Y w = (r, w')" using run' unfolding if_not_P [OF False] .
    then have "guard nm A w'" using keepsD [OF guard_carryOut [OF e(1)] g] by (metis snd_conv)
    then show ?thesis by (rule guard_guarded [OF ns])
  qed
qed

lemma transact_guarded:
  assumes e: "good_env e" "no_faults e" "\<And>n. CHR ''/'' \<notin> set (stamp e n)" and ls: "oListSnapshot o' = []"
    and m: "marker (dsk w) = NoMarker" "listMarker (dsk w) = []"
    and run: "run_state (transact e pid changes c p secs install o') w = (r, w')"
  shows "guarded_by (writeSnapshotFrom (files (dsk w)) (if install = None then acceptedSources (files (dsk w)) else []) (applyPaths p))
    (files (dsk w)) w'"
proof -
  let ?src = "if install = None then acceptedSources (files (dsk w)) else []"
  let ?A = "writeSnapshotFrom (files (dsk w)) ?src (applyPaths p)"
  obtain sn w1 where s1: "run_state (snapshotFrom e (applyPaths p) (historyKeep (Some c)) ?src) w = (sn, w1)"
    by (cases "run_state (snapshotFrom e (applyPaths p) (historyKeep (Some c)) ?src) w")
  note sp = snapshotFrom_spec [OF e(3) s1]
  show ?thesis
  proof (cases sn)
    case None
    then have "w' = w1" using run s1 by (simp add: transact_def peek_def)
    then show ?thesis using sp m guarded_NoMarker by simp
  next
    case (Some snap)
    then obtain nm where nm: "CHR ''/'' \<notin> set nm" "snap = JoinP HistoryDir nm" "map_of (snaps (dsk w1)) nm = Some ?A"
      using sp by blast
    obtain cl w2 where s2: "run_state (claimPending e (claim_of snap pid o')) w1 = (cl, w2)"
      by (cases "run_state (claimPending e (claim_of snap pid o')) w1")
    have m1: "marker (dsk w1) = NoMarker" using sp m by simp
    note cp = claimPending_spec [OF s2 m1]
    show ?thesis
    proof (cases cl)
      case (Some r')
      then have "w' = snd (run_state (removeSnap e (Base snap)) w2)"
        using run s1 s2 \<open>sn = Some snap\<close> by (auto simp: transact_def peek_def split: prod.splits)
      then show ?thesis using quietly_removeSnap [of e "Base snap" w2] cp Some sp m by (auto simp: guarded_by_def)
    next
      case None
      then have "guard nm ?A w2" using cp nm ls sp m by (simp add: guard_def claim_of_def)
      moreover have "run_state (afterClaim e c p (JoinP HistoryDir nm) secs install o' changes) w2 = (r, w')"
        using run s1 s2 \<open>sn = Some snap\<close> None nm by (simp add: transact_def peek_def)
      ultimately show ?thesis by (rule afterClaim_guarded [OF e(1,2) nm(1) ls])
    qed
  qed
qed

lemma applyWith_transact:
  assumes m: "marker (dsk w) = NoMarker"
    and p: "plan (iter e) (modules e) (applied e) (files (dsk w)) (links (dsk w)) c = Inr p"
    and run: "run_state (applyWith e pid changes c False secs install o') w = (r, w')"
  shows "w' = w \<or> run_state (transact e pid changes c p secs install o') w = (r, w')"
proof -
  have "run_state (pendingBlocks e) w = (None, w)"
    by (simp add: pendingBlocks_def sense_def peek_def readPending_def m blockReason_def)
  then show ?thesis using run p by (auto simp: applyWith_def peek_def split: if_splits)
qed

lemma applyWith_guarded:
  assumes e: "good_env e" "no_faults e" "\<And>n. CHR ''/'' \<notin> set (stamp e n)" and ls: "oListSnapshot o' = []"
    and m: "marker (dsk w) = NoMarker" "listMarker (dsk w) = []"
    and p: "plan (iter e) (modules e) (applied e) (files (dsk w)) (links (dsk w)) c = Inr p"
    and run: "run_state (applyWith e pid changes c False secs install o') w = (r, w')"
  shows "guarded_by (writeSnapshotFrom (files (dsk w)) (if install = None then acceptedSources (files (dsk w)) else []) (applyPaths p))
    (files (dsk w)) w'"
  using applyWith_transact [OF m(1) p run] transact_guarded [OF e ls m] guarded_NoMarker [OF m] by blast

section \<open>Booting after a power cut\<close>

text \<open>Once the power is gone no program changes the disk; the steps only count up.\<close>

definition dead :: "env \<Rightarrow> world \<Rightarrow> bool" where
  "dead e w \<longleftrightarrow> \<not> alive e (ops w)"

lemma dead_Suc: "\<not> alive e n \<Longrightarrow> \<not> alive e (Suc n)"
  by (auto simp: alive_def split: option.splits)

lemma dead_act [intro!]: "keeps (dead e) (act e f)"
  by (auto simp: keeps_def dead_def act_def Let_def dest: dead_Suc)

lemma dead_basic [intro!]:
  "keeps (dead e) (writeAtomic e p d m)" "keeps (dead e) (removeFile e p)" "keeps (dead e) (appendChangeLog e l)"
  "keeps (dead e) (removeLink e s)" "keeps (dead e) (addLink e s)" "keeps (dead e) (clearRestoreListMarker e)"
  unfolding writeAtomic_def removeFile_def appendChangeLog_def removeLink_def addLink_def clearRestoreListMarker_def by auto

text \<open>What \<open>restore\<close> makes of one path.\<close>

definition holds :: "string \<Rightarrow> (string \<times> nat) option \<Rightarrow> world \<Rightarrow> bool" where
  "holds q v w \<longleftrightarrow> map_of (files (dsk w)) q = v"

text \<open>\<open>q\<close> holds \<open>v\<close>, or the power is gone.\<close>

definition or_dead :: "env \<Rightarrow> string \<Rightarrow> (string \<times> nat) option \<Rightarrow> world \<Rightarrow> bool" where
  "or_dead e q v w \<longleftrightarrow> dead e w \<or> holds q v w"

lemma od_act: "(\<And>d. map_of (files (f d)) q = map_of (files d) q) \<Longrightarrow> keeps (or_dead e q v) (act e f)"
  by (auto simp: keeps_def or_dead_def holds_def dead_def act_def Let_def dest: dead_Suc)

lemma od_write: "p \<noteq> q \<Longrightarrow> keeps (or_dead e q v) (writeAtomic e p d m)"
  unfolding writeAtomic_def by (rule od_act) (simp add: writeFile_def update_conv')

lemma od_remove: "p \<noteq> q \<or> v = None \<Longrightarrow> keeps (or_dead e q v) (removeFile e p)"
  by (auto simp: keeps_def removeFile_def or_dead_def holds_def dead_def act_def Let_def delete_conv' dest: dead_Suc)

lemma od_other [intro!]:
  "keeps (or_dead e q v) (removeLink e s)" "keeps (or_dead e q v) (addLink e s)" "keeps (or_dead e q v) (appendChangeLog e l)"
  "keeps (or_dead e q v) (linkRunlevel e c)" "keeps (or_dead e q v) (setResult e snap res)" "keeps (or_dead e q v) (clearPending e snap)"
  unfolding linkRunlevel_def setResult_def clearPending_def removeLink_def addLink_def appendChangeLog_def
  by (auto intro!: od_act)

lemma od_dropStaged: "q \<noteq> staged acceptedConfig \<Longrightarrow> q \<noteq> staged acceptedSecrets \<Longrightarrow> keeps (or_dead e q v) (dropStaged e)"
  unfolding dropStaged_def by (auto intro!: od_remove)

text \<open>The entries of a snapshot, written back.\<close>

definition entry_of :: "fsys \<Rightarrow> (string \<times> string) list \<Rightarrow> string \<Rightarrow> (string \<times> nat) option" where
  "entry_of F src q = map_of (archiveEntry F src q) q"

lemma archiveEntry_cases: "archiveEntry F src q = (case entry_of F src q of None \<Rightarrow> [] | Some x \<Rightarrow> [(q, x)])"
  by (auto simp: entry_of_def archiveEntry_def Let_def split: option.splits)

lemma restoreEntry_other: "p \<noteq> q \<Longrightarrow> keeps (or_dead e q v) (restoreEntry e (p, x))"
  by (cases x) (auto simp: restoreEntry_def intro!: od_write)

lemma restoreEntries_kept: "q \<notin> fst ` set xs \<or> (q \<noteq> SecretsPath \<and> (\<forall>y. (q, y) \<in> set xs \<longrightarrow> v = Some y)) \<Longrightarrow> keeps (or_dead e q v) (restoreEntries e xs)"
proof (induction xs)
  case (Cons x xs)
  obtain p d m where x: "x = (p, d, m)" by (cases x)
  have "keeps (or_dead e q v) (restoreEntry e x)"
  proof (cases "p = q")
    case True
    then have "q \<noteq> SecretsPath" "v = Some (d, m)" using Cons.prems x by auto
    then show ?thesis using True
      by (auto simp: x restoreEntry_def keeps_def peek_def writeAtomic_def act_def Let_def or_dead_def dead_def holds_def
          writeFile_def update_conv' dest: dead_Suc)
  qed (simp add: x restoreEntry_other)
  moreover have "keeps (or_dead e q v) (restoreEntries e xs)" using Cons by auto
  ultimately show ?case by auto
qed auto

lemma restoreEntry_ok: "p \<noteq> SecretsPath \<Longrightarrow> run_state (restoreEntry e (p, y)) w = (True, w') \<Longrightarrow> or_dead e p (Some y) w'"
  by (cases y) (auto simp: restoreEntry_def peek_def writeAtomic_def act_def Let_def or_dead_def dead_def holds_def
          writeFile_def update_conv' split: if_splits)

lemma restoreEntries_at:
  assumes "q \<noteq> SecretsPath" "\<forall>z. (q, z) \<in> set xs \<longrightarrow> z = y" "(q, y) \<in> set xs"
    "run_state (restoreEntries e xs) w = (True, w')"
  shows "or_dead e q (Some y) w'"
  using assms(2-)
proof (induction xs arbitrary: w)
  case (Cons x xs)
  obtain w1 where s: "run_state (restoreEntry e x) w = (True, w1)" "run_state (restoreEntries e xs) w1 = (True, w')"
    using Cons.prems(3) by (auto split: prod.splits if_splits)
  show ?case
  proof (cases "(q, y) \<in> set xs")
    case True
    then show ?thesis using Cons.IH [OF _ _ s(2)] Cons.prems by auto
  next
    case False
    then have x: "x = (q, y)" using Cons.prems by auto
    have "or_dead e q (Some y) w1" using s(1) assms(1) by (simp add: x restoreEntry_ok)
    moreover have "keeps (or_dead e q (Some y)) (restoreEntries e xs)"
      using Cons.prems(1) assms(1) by (intro restoreEntries_kept) auto
    ultimately show ?thesis using s(2) keepsD by (metis snd_conv)
  qed
qed simp

lemma restoreCovered_kept:
  "q \<in> present \<or> v = None \<or> q \<notin> set ps \<Longrightarrow> keeps (or_dead e q v) (restoreCovered e False present st fl svc ps)"
  by (induction ps arbitrary: st fl svc) (auto simp: Let_def split: prod.splits intro!: od_remove)

lemma restoreCovered_gone:
  assumes "q \<notin> present" "q \<in> set ps"
  shows "triple (\<lambda>_. no_faults e) (restoreCovered e False present st fl svc ps) (\<lambda>_. or_dead e q None)"
  using assms
proof (induction ps arbitrary: st fl svc)
  case (Cons p ps)
  show ?case
  proof (cases "q \<in> set ps")
    case True
    show ?thesis
      unfolding triple_def
    proof (intro allI impI)
      fix w x w'
      assume a: "no_faults e" "run_state (restoreCovered e False present st fl svc (p # ps)) w = (x, w')"
      then obtain st' fl' svc' w1 where "run_state (restoreCovered e False present st' fl' svc' ps) w1 = (x, w')"
        by (auto simp: Let_def split: prod.splits if_splits)
      then show "or_dead e q None w'" using tripleD [OF Cons.IH [OF Cons.prems(1) True]] a(1) by blast
    qed
  next
    case False
    then have p: "p = q" using Cons.prems by simp
    show ?thesis
      unfolding triple_def
    proof (intro allI impI)
      fix w x w'
      assume a: "no_faults e" "run_state (restoreCovered e False present st fl svc (p # ps)) w = (x, w')"
      obtain ok w1 where r: "run_state (removeFile e q) w = (ok, w1)" by (cases "run_state (removeFile e q) w")
      have "or_dead e q None w1" using r a(1)
        by (auto simp: removeFile_def act_def Let_def or_dead_def dead_def holds_def delete_conv' no_faults_def dest: dead_Suc split: if_splits)
      moreover obtain st' fl' svc' where "run_state (restoreCovered e False present st' fl' svc' ps) w1 = (x, w')"
        using a(2) r Cons.prems(1) p by (auto simp: Let_def)
      ultimately show "or_dead e q None w'"
        using keepsD [OF restoreCovered_kept, of q present None ps e w1 st' fl' svc'] by simp
    qed
  qed
qed simp

text \<open>A snapshot taken of \<open>paths\<close>, restored: every path but the secrets file is as it was archived.\<close>

lemma entries_of: "(q, y) \<in> set (aFiles (writeSnapshotFrom F src paths)) \<longleftrightarrow> q \<in> set paths \<and> entry_of F src q = Some y"
proof -
  have "(q, y) \<in> set (archiveEntry F src p) \<longleftrightarrow> p = q \<and> entry_of F src q = Some y" for p
    by (cases y) (auto simp: archiveEntry_cases split: option.splits)
  then show ?thesis by (simp add: writeSnapshotFrom_def)
qed

lemma present_iff: "q \<in> fst ` set (aFiles (writeSnapshotFrom F src paths)) \<longleftrightarrow> q \<in> set paths \<and> entry_of F src q \<noteq> None"
proof -
  have "q \<in> fst ` set xs \<longleftrightarrow> (\<exists>y. (q, y) \<in> set xs)" for xs :: fsys by force
  then show ?thesis by (simp only: entries_of) auto
qed

definition plain_paths :: "string list \<Rightarrow> bool" where
  "plain_paths ps \<longleftrightarrow> (\<forall>p \<in> set ps. p \<noteq> [] \<and> list_all (\<lambda>c. \<not> isSpace c) p)"

lemma covered_paths: "plain_paths paths \<Longrightarrow> covered (writeSnapshotFrom F src paths) = paths"
  by (simp add: covered_def writeSnapshotFrom_def Fields_lines plain_paths_def)

lemma restoreEntries_alive: "no_faults e \<Longrightarrow> run_state (restoreEntries e xs) w = (False, w') \<Longrightarrow> dead e w'"
  by (induction xs arbitrary: w)
    (auto simp: restoreEntry_def peek_def writeAtomic_def act_def Let_def no_faults_def dead_def split: prod.splits if_splits dest: dead_Suc)

lemma restore_spec:
  assumes e: "no_faults e" and pl: "plain_paths paths" and q: "q \<in> set paths" "q \<noteq> SecretsPath"
    and A: "map_of (snaps (dsk w)) (Base snap) = Some (writeSnapshotFrom F src paths)"
    and run: "run_state (restore e snap False) w = (r, w')"
  shows "if r = None then dead e w' else or_dead e q (entry_of F src q) w'"
proof -
  let ?A = "writeSnapshotFrom F src paths"
  obtain ok w1 where s1: "run_state (restoreEntries e (aFiles ?A)) w = (ok, w1)" by (cases "run_state (restoreEntries e (aFiles ?A)) w")
  show ?thesis
  proof (cases ok)
    case False
    then show ?thesis using run s1 A restoreEntries_alive [OF e] by (auto simp: restore_def peek_def)
  next
    case True
    let ?C = "restoreCovered e False (set (map fst (aFiles ?A))) [] [] [] paths"
    obtain svc where s2: "run_state ?C w1 = (svc, w')" "r \<noteq> None"
      using run s1 A True pl by (auto simp: restore_def peek_def covered_paths split: prod.splits)
    have "or_dead e q (entry_of F src q) w'"
    proof (cases "entry_of F src q")
      case None
      then have "q \<notin> set (map fst (aFiles ?A))" using present_iff by auto
      from tripleD [OF restoreCovered_gone [OF this q(1)] e s2(1)] show ?thesis by (simp add: None)
    next
      case (Some y)
      have en: "\<forall>z. (q, z) \<in> set (aFiles ?A) \<longrightarrow> z = y" "(q, y) \<in> set (aFiles ?A)"
        unfolding entries_of using q Some by simp_all
      have "or_dead e q (Some y) w1" by (rule restoreEntries_at [OF q(2) en]) (use s1 True in simp)
      moreover have "q \<in> set (map fst (aFiles ?A))" using Some q present_iff by auto
      ultimately have "or_dead e q (Some y) (snd (run_state ?C w1))"
        using keepsD [OF restoreCovered_kept] by blast
      then show ?thesis by (simp only: s2(1) Some snd_conv)
    qed
    then show ?thesis using s2(2) by auto
  qed
qed

text \<open>The end of a boot: the marker is gone and the files are back, or nothing has changed of the marker and the snapshots.\<close>

definition putBack :: "string set \<Rightarrow> (string \<Rightarrow> (string \<times> nat) option) \<Rightarrow> world \<Rightarrow> bool" where
  "putBack Q v w \<longleftrightarrow> marker (dsk w) = NoMarker \<and> listMarker (dsk w) = [] \<and> (\<forall>q \<in> Q. holds q (v q) w)"

lemma back_setResult: "keeps (\<lambda>w. putBack Q v w) (setResult e snap res)" "keeps (\<lambda>w. putBack Q v w) (appendChangeLog e l)"
  unfolding setResult_def appendChangeLog_def
  by (auto simp: keeps_def act_def Let_def putBack_def holds_def peek_def split: option.splits)

lemma clear_back:
  assumes "no_faults e" "at (Marker m) S w" "\<forall>q \<in> Q. or_dead e q (v q) w"
    "run_state (clearPending e []) w = (x, w')"
  shows "putBack Q v w' \<or> (dead e w' \<and> at (Marker m) S w')"
  using assms
  by (auto simp: clearPending_def peek_def act_def Let_def at_def putBack_def holds_def or_dead_def dead_def no_faults_def
      split: if_splits dest: dead_Suc)

text \<open>One boot.\<close>

lemma dead_at_more:
  "keeps (\<lambda>w. dead e w \<and> at M S w) (setResult e snap res)" "keeps (\<lambda>w. dead e w \<and> at M S w) (appendChangeLog e l)"
  unfolding setResult_def appendChangeLog_def
  by (auto simp: keeps_def act_def Let_def at_def dead_def peek_def split: option.splits dest: dead_Suc)

lemma at_dead_act: "keeps (\<lambda>w. dead e w \<and> at M S w) (act e f)"
  by (auto simp: keeps_def act_def Let_def at_def dead_def dest: dead_Suc)

lemma keeps_disj: "keeps I m \<Longrightarrow> keeps J m \<Longrightarrow> keeps (\<lambda>w. I w \<or> J w) m"
  by (auto simp: keeps_def)

lemma ends_kept: "keeps (\<lambda>w. putBack Q v w \<or> (dead e w \<and> at M S w)) (do { _ \<leftarrow> setResult e snap res; _ \<leftarrow> appendChangeLog e l; ret () })"
  by (intro keeps_bind keeps_return keeps_disj back_setResult dead_at_more)

definition rolled :: "env \<Rightarrow> string set \<Rightarrow> (string \<Rightarrow> (string \<times> nat) option) \<Rightarrow> markerFile \<Rightarrow> (string \<times> archive) list \<Rightarrow> world \<Rightarrow> bool" where
  "rolled e Q v M S w \<longleftrightarrow> at M S w \<and> (\<forall>q \<in> Q. or_dead e q (v q) w)"

lemma rolledI: "keeps (at M S) m \<Longrightarrow> (\<And>q. q \<in> Q \<Longrightarrow> keeps (or_dead e q (v q)) m) \<Longrightarrow> keeps (rolled e Q v M S) m"
  by (simp add: keeps_def rolled_def)

lemma rolled_rest:
  assumes "staged acceptedConfig \<notin> Q" "staged acceptedSecrets \<notin> Q"
  shows "keeps (rolled e Q v M S) (do { _ \<leftarrow> dropStaged e; _ \<leftarrow> undoLists e []; c \<leftarrow> loadConfig e ConfigPath SecretsPath;
           (case c of None \<Rightarrow> ret () | Some c' \<Rightarrow> linkRunlevel e c') })"
  using assms by (intro rolledI) (auto simp: undoLists_def intro!: od_dropStaged)

lemma restore_None:
  assumes "no_faults e" "map_of (snaps (dsk w)) (Base snap) = Some A" "run_state (restore e snap stop) w = (None, w')"
  shows "dead e w'"
  using assms restoreEntries_alive [OF assms(1)]
  by (auto simp: restore_def peek_def split: prod.splits if_splits)

lemma restore_rolled:
  assumes e: "no_faults e" "good_env e" and pl: "plain_paths paths" and ns: "CHR ''/'' \<notin> set nm"
    and S: "at M S w" "map_of S nm = Some (writeSnapshotFrom F src paths)"
    and run: "run_state (restore e (JoinP HistoryDir nm) False) w = (r, w')"
  shows "if r = None then dead e w' \<and> at M S w' else rolled e (set paths - {SecretsPath}) (entry_of F src) M S w'"
proof -
  have A: "map_of (snaps (dsk w)) (Base (JoinP HistoryDir nm)) = Some (writeSnapshotFrom F src paths)"
    using S by (simp add: at_def Base_JoinP ns)
  have at': "at M S w'" using keepsD [OF at_restore [OF e(2)] S(1)] run by (metis snd_conv)
  show ?thesis
  proof (cases r)
    case None
    then show ?thesis using restore_None [OF e(1) A] run at' by simp
  next
    case (Some svc)
    have "or_dead e q (entry_of F src q) w'" if "q \<in> set paths - {SecretsPath}" for q
      using restore_spec [OF e(1) pl _ _ A run, of q] that Some by simp
    then show ?thesis using at' Some by (simp add: rolled_def)
  qed
qed

lemma boot_step:
  assumes e: "no_faults e" "good_env e" and pl: "plain_paths paths" and ns: "CHR ''/'' \<notin> set nm"
    and st: "staged acceptedConfig \<notin> set paths" "staged acceptedSecrets \<notin> set paths"
    and S: "at (Marker m) S w" "map_of S nm = Some (writeSnapshotFrom F src paths)"
    and m: "pSnapshot m = JoinP HistoryDir nm" "pListSnapshot m = []"
    and run: "run_state (rollbackAtBoot e) w = (x, w')"
  shows "putBack (set paths - {SecretsPath}) (entry_of F src) w' \<or> (dead e w' \<and> at (Marker m) S w')"
proof -
  let ?snap = "JoinP HistoryDir nm" and ?Q = "set paths - {SecretsPath}" and ?v = "entry_of F src"
  have rp: "readPending (dsk w) = Some (Some m)" using S(1) m by (simp add: readPending_def at_def)
  obtain w1 where s1: "run_state (keepRejected e ?snap) w = ((), w1)" by (cases "run_state (keepRejected e ?snap) w") simp
  have a1: "at (Marker m) S w1" using keepsD [OF at_stage(4) S(1)] s1 by (metis snd_conv)
  obtain rs w2 where s2: "run_state (restore e ?snap False) w1 = (rs, w2)" by (cases "run_state (restore e ?snap False) w1")
  note rr = restore_rolled [OF e pl ns a1 S(2) s2]
  show ?thesis
  proof (cases rs)
    case None
    let ?F = "do { _ \<leftarrow> act e (\<lambda>k. k\<lparr>marker := NoMarker\<rparr>); _ \<leftarrow> appendChangeLog e ''boot: rolling back FAILED''; ret () }"
    have w': "w' = snd (run_state ?F w2)"
      using run rp s1 s2 None m ns by (simp add: rollbackAtBoot_def peek_def Let_def Base_JoinP)
    have "dead e w2 \<and> at (Marker m) S w2" using rr None by simp
    moreover have "keeps (\<lambda>w. dead e w \<and> at (Marker m) S w) ?F"
      by (intro keeps_bind keeps_return at_dead_act dead_at_more)
    ultimately have "dead e w' \<and> at (Marker m) S w'" unfolding w' by (rule keepsD [rotated])
    then show ?thesis ..
  next
    case (Some svc)
    let ?R = "do { _ \<leftarrow> dropStaged e; _ \<leftarrow> undoLists e []; c \<leftarrow> loadConfig e ConfigPath SecretsPath;
           (case c of None \<Rightarrow> ret () | Some c' \<Rightarrow> linkRunlevel e c') }"
    let ?E = "do { _ \<leftarrow> setResult e ?snap ''rolled back at boot: the router restarted before it was confirmed'';
                   _ \<leftarrow> appendChangeLog e ''boot: rolled back''; ret () }"
    obtain w3 where s3: "run_state ?R w2 = ((), w3)" by (cases "run_state ?R w2") simp
    obtain w4 where s4: "run_state (clearPending e []) w3 = ((), w4)" by (cases "run_state (clearPending e []) w3") simp
    have "rolled e ?Q ?v (Marker m) S w3"
    proof -
      have "rolled e ?Q ?v (Marker m) S w2" using rr Some by simp
      from keepsD [OF rolled_rest this] st show ?thesis by (simp only: s3 snd_conv) blast
    qed
    then have "putBack ?Q ?v w4 \<or> (dead e w4 \<and> at (Marker m) S w4)"
      using clear_back [OF e(1) _ _ s4] by (simp add: rolled_def)
    moreover have "w' = snd (run_state ?E w4)"
      using run rp s1 s2 s3 s4 Some m ns by (auto simp: rollbackAtBoot_def peek_def Let_def Base_JoinP split: prod.splits)
    ultimately show ?thesis using keepsD [OF ends_kept] by blast
  qed
qed

lemma not_dead_uncut: "cut e = None \<Longrightarrow> \<not> dead e w"
  by (simp add: dead_def alive_def)

text \<open>Reboots: a boot starts from what is on the disk.\<close>

definition powerUp :: "env \<Rightarrow> disk \<Rightarrow> disk" where
  "powerUp e d = dsk (snd (run_state (rollbackAtBoot e) \<lparr>dsk = d, ops = 0\<rparr>))"

definition sound :: "env \<Rightarrow> bool" where
  "sound e \<longleftrightarrow> good_env e \<and> no_faults e"

definition onDisk :: "disk \<Rightarrow> world" where
  "onDisk d = \<lparr>dsk = d, ops = 0\<rparr>"

text \<open>Where a boot starts and ends: the files are back, or the marker and the snapshot are there.\<close>

definition awaits :: "string list \<Rightarrow> archive \<Rightarrow> pendingApply \<Rightarrow> disk \<Rightarrow> bool" where
  "awaits paths A m d \<longleftrightarrow> marker d = Marker m \<and> listMarker d = [] \<and> pListSnapshot m = []
     \<and> (\<exists>nm. CHR ''/'' \<notin> set nm \<and> pSnapshot m = JoinP HistoryDir nm \<and> map_of (snaps d) nm = Some A)"

lemma powerUp_back: "putBack Q v (onDisk d) \<Longrightarrow> powerUp e d = d"
  by (simp add: powerUp_def rollbackAtBoot_def peek_def readPending_def putBack_def onDisk_def)

lemma powerUp_awaits:
  assumes "sound e" "plain_paths paths" "staged acceptedConfig \<notin> set paths" "staged acceptedSecrets \<notin> set paths"
    "awaits paths (writeSnapshotFrom F src paths) m d"
  shows "putBack (set paths - {SecretsPath}) (entry_of F src) (onDisk (powerUp e d))
    \<or> (cut e \<noteq> None \<and> awaits paths (writeSnapshotFrom F src paths) m (powerUp e d))"
proof -
  obtain nm where nm: "CHR ''/'' \<notin> set nm" "pSnapshot m = JoinP HistoryDir nm" "map_of (snaps d) nm = Some (writeSnapshotFrom F src paths)"
    using assms(5) by (auto simp: awaits_def)
  have at': "at (Marker m) (snaps d) (onDisk d)" "pListSnapshot m = []" using assms(5) by (auto simp: awaits_def at_def onDisk_def)
  obtain x w' where r: "run_state (rollbackAtBoot e) (onDisk d) = (x, w')" by (cases "run_state (rollbackAtBoot e) (onDisk d)")
  have pu: "powerUp e d = dsk w'" using r by (simp add: powerUp_def onDisk_def)
  have e: "no_faults e" "good_env e" using assms(1) by (auto simp: sound_def)
  from boot_step [OF e assms(2) nm(1) assms(3,4) at'(1) nm(3) nm(2) at'(2) r] show ?thesis
  proof
    assume "putBack (set paths - {SecretsPath}) (entry_of F src) w'"
    then show ?thesis by (simp add: putBack_def holds_def onDisk_def pu)
  next
    assume "dead e w' \<and> at (Marker m) (snaps d) w'"
    then show ?thesis using not_dead_uncut [of e w'] nm at'(2) by (auto simp: awaits_def at_def pu)
  qed
qed

lemma powerUps:
  assumes "\<forall>b \<in> set bs. sound b" "plain_paths paths" "staged acceptedConfig \<notin> set paths" "staged acceptedSecrets \<notin> set paths"
    "awaits paths (writeSnapshotFrom F src paths) m d \<or> putBack (set paths - {SecretsPath}) (entry_of F src) (onDisk d)"
  shows "awaits paths (writeSnapshotFrom F src paths) m (fold powerUp bs d)
    \<or> putBack (set paths - {SecretsPath}) (entry_of F src) (onDisk (fold powerUp bs d))"
  using assms(1,5)
proof (induction bs arbitrary: d)
  case (Cons b bs)
  have "awaits paths (writeSnapshotFrom F src paths) m (powerUp b d)
    \<or> putBack (set paths - {SecretsPath}) (entry_of F src) (onDisk (powerUp b d))"
    using Cons.prems powerUp_awaits [OF _ assms(2-4)] powerUp_back by (metis list.set_intros(1))
  then show ?case using Cons by simp
qed simp

lemma powerUp_bad: "marker d = BadMarker \<Longrightarrow> listMarker d = [] \<Longrightarrow> sound e \<Longrightarrow>
   files (powerUp e d) = files d \<and> listMarker (powerUp e d) = [] \<and> (marker (powerUp e d) = NoMarker \<or> (cut e \<noteq> None \<and> marker (powerUp e d) = BadMarker))"
  by (auto simp: powerUp_def rollbackAtBoot_def peek_def readPending_def act_def Let_def appendChangeLog_def sound_def no_faults_def
      alive_def split: option.splits)

lemma powerUp_none: "marker d = NoMarker \<Longrightarrow> listMarker d = [] \<Longrightarrow> powerUp e d = d"
  by (simp add: powerUp_def rollbackAtBoot_def peek_def readPending_def)

lemma powerUps_bad:
  assumes "\<forall>b \<in> set bs. sound b" "marker d \<in> {NoMarker, BadMarker}" "listMarker d = []"
  shows "files (fold powerUp bs d) = files d \<and> listMarker (fold powerUp bs d) = [] \<and> marker (fold powerUp bs d) \<in> {NoMarker, BadMarker}"
  using assms
proof (induction bs arbitrary: d)
  case (Cons b bs)
  have "files (powerUp b d) = files d \<and> listMarker (powerUp b d) = [] \<and> marker (powerUp b d) \<in> {NoMarker, BadMarker}"
    using Cons.prems powerUp_bad [of d b] powerUp_none [of d b] by auto
  then show ?case using Cons by simp
qed simp

lemma acceptedSources_dom: "q \<notin> {ConfigPath, SecretsPath} \<Longrightarrow> map_of (acceptedSources F) q = None"
  by (auto simp: acceptedSources_def)

lemma entry_of_plain: "map_of src q = None \<Longrightarrow> entry_of F src q = map_of F q"
  by (simp add: entry_of_def archiveEntry_def split: option.splits)

lemma entry_of_data: "map_option fst (entry_of F src q) = readFile F (case map_of src q of Some s \<Rightarrow> s | None \<Rightarrow> q)"
  by (auto simp: entry_of_def archiveEntry_def readFile_def Let_def split: option.splits)


text \<open>A small system: an old network script and a config, no modules.\<close>

definition demo_env :: "nat option \<Rightarrow> env" where
  "demo_env k = \<lparr>fails = \<lambda>_. False, cut = k, cmd = \<lambda>_ _. True, eff = \<lambda>_ _ d. d, now = \<lambda>_. 100, stamp = \<lambda>_. ''s'',
     gone = \<lambda>_. False, netdev = \<lambda>_ _. True, modules = [], iter = id, loadCfg = \<lambda>_ _. None, validate = \<lambda>_. [],
     applied = \<lambda>_. [], rev_of = id, sha256 = id, unmarshal = \<lambda>_. None, marshal = \<lambda>_. []\<rparr>"

definition demo_disk :: disk where
  "demo_disk = \<lparr>files = [(ConfigPath, ''old'', 420), (SecretsPath, ''s'', 384), (GenDir @ ''/network.sh'', ''old'', 493)], links = [],
     marker = NoMarker, snaps = [], revs = [], listMarker = [], changeLog = []\<rparr>"

definition demo_world :: world where
  "demo_world = \<lparr>dsk = demo_disk, ops = 0\<rparr>"

definition demo_opts :: applyOpts where
  "demo_opts = \<lparr>oVia = ''cli'', oBaseRev = [], oConfirmToken = [], oListSnapshot = []\<rparr>"

definition demo_crashed :: disk where
  "demo_crashed = dsk (snd (run_state (applyWith (demo_env (Some 8)) 7 [] demo_cfg False 60 None demo_opts) demo_world))"

definition demo_rebooted :: disk where
  "demo_rebooted = powerUp (demo_env None) (powerUp (demo_env (Some 1)) demo_crashed)"

lemma demo_sound: "sound (demo_env k)"
  by (simp add: sound_def good_env_def no_faults_def demo_env_def)

lemma demo_changed: "readFile (files demo_crashed) (GenDir @ ''/network.sh'') = Some (renderNetwork [] demo_cfg) \<and> marker demo_crashed \<noteq> NoMarker"
  by code_simp

lemma demo_plan: "\<exists>p. plan id [] (\<lambda>_. []) (files demo_disk) [] demo_cfg = Inr p \<and> applyPaths p =
    [GenDir @ ''/network.sh'', GenDir @ ''/services'', ConfigPath, SecretsPath, nftPath] "
proof -
  have "\<not> isl (plan id [] (\<lambda>_. []) (files demo_disk) [] demo_cfg)" 
   "applyPaths (projr (plan id [] (\<lambda>_. []) (files demo_disk) [] demo_cfg)) =
    [GenDir @ ''/network.sh'', GenDir @ ''/services'', ConfigPath, SecretsPath, nftPath]" by code_simp+
  then show ?thesis by (cases "plan id [] (\<lambda>_. []) (files demo_disk) [] demo_cfg") auto
qed



end
