(* ===== verification/Apply_Outcome.thy ===== *)
theory Apply_Outcome
  imports Apply_Safety
begin

text \<open>
  How an apply ends where the power stays on and the disk works, whatever commands fail. Shown: an apply that fails puts
  the files back itself and removes the marker (\<open>failed_apply_restores\<close>); an apply that succeeds has written its files
  and has either settled the change or left it pending with its deadline (\<open>applied_or_pending\<close>); where every command
  works it does succeed (\<open>apply_succeeds\<close>); a change that is not accepted keeps every other apply from touching the disk
  (\<open>pending_refuses\<close>).

  Values and states are followed by \<open>triple\<close>, \<open>keeps\<close>, and two rules for values alone: \<open>yields\<close> and \<open>never\<close>.
\<close>

section \<open>Applies that run to the end\<close>

text \<open>Commands do not touch the files mr writes.\<close>

definition tame :: "env \<Rightarrow> bool" where
  "tame e \<longleftrightarrow> sound e \<and> cut e = None \<and> (\<forall>n args d. files (eff e n args d) = files d)"

lemma tameD: "tame e \<Longrightarrow> good_env e" "tame e \<Longrightarrow> no_faults e" "tame e \<Longrightarrow> cut e = None" "tame e \<Longrightarrow> \<not> dead e w"
  "tame e \<Longrightarrow> or_dead e q v w \<longleftrightarrow> holds q v w"
  by (auto simp: tame_def sound_def not_dead_uncut or_dead_def)

lemma triple_seq: "keeps I m \<Longrightarrow> (\<And>x. triple I (f x) Q) \<Longrightarrow> triple I (m \<bind> f) Q"
  by (rule triple_bind [OF triple_keeps])

lemma keeps_after: "keeps I m \<Longrightarrow> I w \<Longrightarrow> run_state m w = (x, w') \<Longrightarrow> I w'"
  using keepsD by fastforce

lemma keeps_conj: "keeps I m \<Longrightarrow> keeps J m \<Longrightarrow> keeps (\<lambda>w. I w \<and> J w) m"
  by (simp add: keeps_def)

text \<open>The files mr itself writes during an apply, beside the ones of the plan.\<close>

definition own_paths :: "string set" where
  "own_paths = {nftPath, nftPath @ ''.new'', acceptedConfig, acceptedSecrets, staged acceptedConfig, staged acceptedSecrets}"

lemma h_act: "(\<And>d. map_of (files (f d)) q = map_of (files d) q) \<Longrightarrow> keeps (holds q v) (act e f)"
  by (auto simp: keeps_def holds_def act_def Let_def)

lemma h_run [intro!]: "tame e \<Longrightarrow> keeps (holds q v) (run e args)"
  by (auto simp: keeps_def holds_def run_def Let_def tame_def)

lemma h_write: "p \<noteq> q \<Longrightarrow> keeps (holds q v) (writeAtomic e p d m)"
  unfolding writeAtomic_def by (rule h_act) (simp add: writeFile_def update_conv')

lemma h_remove: "p \<noteq> q \<Longrightarrow> keeps (holds q v) (removeFile e p)"
  unfolding removeFile_def by (rule h_act) (simp add: delete_conv')

lemma h_rename: "a \<noteq> q \<Longrightarrow> b \<noteq> q \<Longrightarrow> keeps (holds q v) (renameFile e a b)"
  unfolding renameFile_def by (rule h_act) (simp add: delete_conv' writeFile_def update_conv' split: option.splits prod.splits)

lemma h_other [intro!]:
  "keeps (holds q v) (removeLink e s)" "keeps (holds q v) (appendChangeLog e l)"
  "keeps (holds q v) (setResult e snap res)" "keeps (holds q v) (clearPending e snap)" "keeps (holds q v) (setPending e pa)"
  unfolding setResult_def clearPending_def removeLink_def appendChangeLog_def setPending_def
  by (auto intro!: h_act)

lemma h_restartAll [intro!]: "tame e \<Longrightarrow> keeps (holds q v) (restartAll e svcs)"
  unfolding restartAll_def restartOne_def by (auto split: option.splits)

lemma h_services [intro!]:
  "tame e \<Longrightarrow> keeps (holds q v) (ensureStarted e c)" "tame e \<Longrightarrow> keeps (holds q v) (verify e c rs)"
  "tame e \<Longrightarrow> keeps (holds q v) (reconcileRunlevel e c)" "tame e \<Longrightarrow> keeps (holds q v) (stopAndDisableService e s)"
  unfolding ensureStarted_def verify_def reconcileRunlevel_def startIfDown_def stopAndDisableService_def by auto

lemma h_fwLoad: "tame e \<Longrightarrow> q \<notin> own_paths \<Longrightarrow> keeps (holds q v) (fwLoad e c)"
  unfolding fwLoad_def own_paths_def by (auto intro!: h_write h_remove h_rename)

lemma h_afterRestore: "tame e \<Longrightarrow> q \<notin> own_paths \<Longrightarrow> keeps (holds q v) (afterRestore e svcs)"
  unfolding afterRestore_def by (auto intro!: h_fwLoad)

lemma h_acceptStaged: "q \<notin> own_paths \<Longrightarrow> keeps (holds q v) (acceptStaged e)"
  unfolding acceptStaged_def own_paths_def by (auto intro!: h_rename)

lemma h_dropStaged: "q \<notin> own_paths \<Longrightarrow> keeps (holds q v) (dropStaged e)"
  unfolding dropStaged_def own_paths_def by (auto intro!: h_remove)

lemma nft_apart: "nftPath \<notin> {acceptedConfig, acceptedSecrets, staged acceptedConfig, staged acceptedSecrets, nftPath @ ''.new''}"
  by code_simp

lemma h_settle: "tame e \<Longrightarrow> q \<notin> own_paths \<or> q = nftPath \<Longrightarrow> keeps (holds q v) (settle e snap secs o')"
  using nft_apart unfolding settle_def armConfirm_def acceptStaged_def own_paths_def
  by (auto intro!: h_rename)

lemma h_cleanupWAN: "tame e \<Longrightarrow> q \<notin> set ps \<Longrightarrow> keeps (holds q v) (cleanupWAN e st ps)"
  by (induction ps arbitrary: st) (auto simp: Let_def intro!: h_remove)

lemma peek_dep: "(\<And>d. keeps I (f (g d))) \<Longrightarrow> keeps I (do { x \<leftarrow> peek g; f x })"
  by (simp add: keeps_def peek_def)

lemma h_cleanup:
  assumes "tame e" "\<And>fs. q \<notin> set (moduleOrphanPaths (modules e) c fs) \<union> set (orphanWANPaths c fs)"
  shows "keeps (holds q v) (cleanupModuleOrphans e c)" "keeps (holds q v) (cleanupOrphanWANFiles e c)"
  unfolding cleanupModuleOrphans_def cleanupOrphanWANFiles_def
  using assms by (auto intro!: peek_dep h_remove h_cleanupWAN)

lemma writeChanged_kept:
  "\<forall>f \<in> set fs. fPath f = q \<longrightarrow> v = Some (fData f, fMode f) \<Longrightarrow> keeps (holds q v) (writeChanged e fs)"
proof (induction fs)
  case (Cons f fs)
  have "keeps (holds q v) (writeAtomic e (fPath f) (fData f) (fMode f))"
    using Cons.prems
    by (auto simp: keeps_def writeAtomic_def act_def Let_def holds_def writeFile_def update_conv')
  moreover have "keeps (holds q v) (writeChanged e fs)" using Cons by simp
  ultimately show ?case by auto
qed auto

lemma writeChanged_ok:
  assumes "distinct (map fPath fs)" "f \<in> set fs" "run_state (writeChanged e fs) w = (True, w')"
  shows "holds (fPath f) (Some (fData f, fMode f)) w'"
  using assms
proof (induction fs arbitrary: w)
  case (Cons g fs)
  obtain w1 where s: "run_state (writeAtomic e (fPath g) (fData g) (fMode g)) w = (True, w1)" "run_state (writeChanged e fs) w1 = (True, w')"
    using Cons.prems(3) by (auto split: prod.splits if_splits)
  show ?case
  proof (cases "f \<in> set fs")
    case True
    then show ?thesis using Cons s by simp
  next
    case False
    then have f: "f = g" "fPath f \<notin> fPath ` set fs" using Cons.prems by auto
    have "holds (fPath f) (Some (fData f, fMode f)) w1"
      using s(1) by (auto simp: f writeAtomic_def act_def Let_def holds_def writeFile_def update_conv' split: if_splits)
    moreover have "keeps (holds (fPath f) (Some (fData f, fMode f))) (writeChanged e fs)"
      using f(2) by (intro writeChanged_kept) (metis image_eqI)
    ultimately show ?thesis using s(2) keepsD by (metis snd_conv)
  qed
qed simp

lemma fwLoad_ok:
  assumes "tame e" "run_state (fwLoad e c) w = (True, w')"
  shows "holds nftPath (Some (nftRules c, 420)) w'"
  using assms nft_apart
  by (auto simp: fwLoad_def writeAtomic_def removeFile_def renameFile_def run_def act_def Let_def holds_def writeFile_def
      update_conv' delete_conv' tame_def sound_def no_faults_def alive_def split: if_splits prod.splits option.splits)

definition wrote :: "Plan \<Rightarrow> world \<Rightarrow> bool" where
  "wrote p w \<longleftrightarrow> (\<forall>f \<in> set (Changed p). holds (fPath f) (Some (fData f, fMode f)) w)"

lemma wrote_kept: "(\<And>q v. q \<in> fPath ` set (Changed p) \<Longrightarrow> keeps (holds q v) m) \<Longrightarrow> keeps (wrote p) m"
  by (simp add: keeps_def wrote_def)

text \<open>The plan writes none of mr's own files, and no module or WAN calls one of its files an orphan.\<close>

definition clean_plan :: "env \<Rightarrow> Config \<Rightarrow> Plan \<Rightarrow> bool" where
  "clean_plan e c p \<longleftrightarrow> distinct (map fPath (Changed p))
     \<and> (\<forall>q \<in> fPath ` set (Changed p). q \<notin> own_paths
         \<and> (\<forall>fs. q \<notin> set (moduleOrphanPaths (modules e) c fs) \<union> set (orphanWANPaths c fs)))"

lemma writeChanged_stage:
  assumes "clean_plan e c p"
  shows "triple (at M S) (writeChanged e (Changed p)) (\<lambda>ok w. at M S w \<and> (ok \<longrightarrow> wrote p w))"
  unfolding triple_def
proof (intro allI impI conjI)
  fix w x w'
  assume a: "at M S w" "run_state (writeChanged e (Changed p)) w = (x, w')"
  show "at M S w'" using keeps_after [OF at_writeChanged a] .
  assume x
  then show "wrote p w'" using a(2) writeChanged_ok assms by (auto simp: wrote_def clean_plan_def)
qed

lemma fwLoad_stage:
  assumes e: "tame e" and p: "clean_plan e c p"
  shows "triple (\<lambda>w. at M S w \<and> wrote p w) (fwLoad e c)
    (\<lambda>ok w. (at M S w \<and> wrote p w) \<and> (ok \<longrightarrow> holds nftPath (Some (nftRules c, 420)) w))"
  unfolding triple_def
proof (intro allI impI conjI)
  fix w x w'
  assume a: "at M S w \<and> wrote p w" "run_state (fwLoad e c) w = (x, w')"
  have "keeps (\<lambda>w. at M S w \<and> wrote p w) (fwLoad e c)"
    using p e by (intro keeps_conj wrote_kept h_fwLoad at_fwLoad tameD(1)) (auto simp: clean_plan_def)
  from keeps_after [OF this a] show "at M S w'" "wrote p w'" by simp_all
  assume x
  then show "holds nftPath (Some (nftRules c, 420)) w'" using a(2) fwLoad_ok [OF e] by simp
qed

lemma carryOut_stages:
  assumes e: "tame e" and p: "clean_plan e c p"
    and Q: "\<And>cause w0 x w'. at M S w0 \<Longrightarrow> run_state (rollback e snap cause) w0 = (x, w') \<Longrightarrow> Q (Inl x) w'"
      "\<And>w0 r w'. at M S w0 \<Longrightarrow> wrote p w0 \<Longrightarrow> holds nftPath (Some (nftRules c, 420)) w0 \<Longrightarrow>
         run_state (settle e snap secs o') w0 = (r, w') \<Longrightarrow> Q r w'"
  shows "triple (at M S) (carryOut e c p snap secs install o' ch) Q"
proof -
  note g = tameD(1) [OF e]
  let ?J = "\<lambda>w. at M S w \<and> wrote p w" and ?K = "\<lambda>w. (at M S w \<and> wrote p w) \<and> holds nftPath (Some (nftRules c, 420)) w"
  let ?rb = "\<lambda>cause. do { r \<leftarrow> rollback e snap cause; ret (Inl r) }"
  have rb: "triple (at M S) (?rb cause) Q" for cause using Q(1) by (auto simp: triple_def split: prod.splits)
  have rbJ: "triple ?J (?rb cause) Q" "triple ?K (?rb cause) Q" for cause
    using rb [of cause] by (auto simp: triple_def)
  have st: "triple ?K (settle e snap secs o') Q" using Q(2) by (auto simp: triple_def)
  note wr = writeChanged_stage [OF p] and fw = fwLoad_stage [OF e p]
  have J: "keeps ?J m" if "keeps (at M S) m" "\<And>q v. q \<in> fPath ` set (Changed p) \<Longrightarrow> keeps (holds q v) m" for m :: "'a prog"
    using that by (intro keeps_conj wrote_kept)
  have K: "keeps ?K m" if "keeps (at M S) m" "\<And>q v. keeps (holds q v) m" for m :: "'a prog"
    using that by (intro keeps_conj wrote_kept)
  have co: "keeps (holds q v) (cleanupModuleOrphans e c)" "keeps (holds q v) (cleanupOrphanWANFiles e c)"
    if "q \<in> fPath ` set (Changed p)" for q v
    using that p e unfolding clean_plan_def by (blast intro: h_cleanup)+
  show ?thesis
    unfolding carryOut_def
    apply (rule triple_seq, (use g in auto)[1])
    apply (rule triple_seq, (use g in auto)[1])
    apply (rule triple_if, rule rb)
    apply (rule triple_seq, (use g in auto)[1])
    apply (rule triple_bind [OF wr])
    apply (rule triple_if, rule triple_conseq [OF rb], simp, simp)
    apply (rule triple_conseq [where P = ?J and Q = Q])
    apply (rule triple_seq, rule J, (use g e in auto)[1], (use g e in auto)[1])
    apply (rule triple_seq, rule J, (use g e in auto)[1], (use g e in auto)[1])
    apply (rule triple_seq, rule J, rule at_cleanup(1), rule co(1), assumption)
    apply (rule triple_seq, rule J, rule at_cleanup(2) [OF g], rule co(2), assumption)
    apply (rule triple_seq, rule J, (use g e in auto)[1], (use g e in auto)[1])
    apply (rule triple_if, rule rbJ(1))
    apply (rule triple_seq, rule J, (use g e in auto)[1], (use g e in auto)[1])
    apply (rule triple_seq, rule J, (use g e in auto)[1], (use g e in auto)[1])
    apply (rule triple_bind [OF fw])
    apply (rule triple_if, rule triple_conseq [OF rb], simp, simp)
    apply (rule triple_conseq [where P = ?K and Q = Q])
    apply (rule triple_seq, rule K, (use g e in auto)[1], (use g e in auto)[1])
    apply (rule triple_if, rule rbJ(2))
    apply (rule triple_seq, rule K, (use g e in auto)[1], (use g e in auto)[1])
    apply (rule st)
    apply auto
    done
qed

text \<open>Rolling back with the services running.\<close>

lemma h_remove_None: "p \<noteq> q \<or> v = None \<Longrightarrow> keeps (holds q v) (removeFile e p)"
  by (auto simp: keeps_def removeFile_def holds_def act_def Let_def delete_conv')

lemma h_restoreCovered:
  "tame e \<Longrightarrow> q \<in> present \<or> v = None \<or> q \<notin> set ps \<Longrightarrow> keeps (holds q v) (restoreCovered e stop present st fl svc ps)"
  by (induction ps arbitrary: st fl svc) (auto simp: Let_def split: prod.splits intro!: h_remove_None)

lemma removeFile_gone: "tame e \<Longrightarrow> run_state (removeFile e q) w = (x, w') \<Longrightarrow> holds q None w'"
  by (auto simp: removeFile_def act_def Let_def holds_def delete_conv' tame_def sound_def no_faults_def alive_def split: if_splits)

lemma restoreCovered_next:
  assumes "run_state (restoreCovered e stop present st fl svc (p # ps)) w = (x, w')"
  obtains st' fl' svc' w1 where "run_state (restoreCovered e stop present st' fl' svc' ps) w1 = (x, w')"
    "p \<notin> present \<Longrightarrow> removedWANService p = [] \<Longrightarrow> \<exists>y. run_state (removeFile e p) w = (y, w1)"
  using assms by (auto simp: Let_def split: prod.splits if_splits)

lemma restoreCovered_gone':
  assumes "tame e" "q \<notin> present" "removedWANService q = []" "q \<in> set ps"
    "run_state (restoreCovered e stop present st fl svc ps) w = (x, w')"
  shows "holds q None w'"
  using assms(4,5)
proof (induction ps arbitrary: st fl svc w)
  case (Cons p ps)
  from Cons.prems(2) show ?case
  proof (rule restoreCovered_next)
    fix st' fl' svc' w1
    assume n: "run_state (restoreCovered e stop present st' fl' svc' ps) w1 = (x, w')"
      "p \<notin> present \<Longrightarrow> removedWANService p = [] \<Longrightarrow> \<exists>y. run_state (removeFile e p) w = (y, w1)"
    show ?thesis
    proof (cases "q \<in> set ps")
      case True
      then show ?thesis using Cons.IH n(1) by blast
    next
      case False
      then have "p = q" using Cons.prems by simp
      then have "holds q None w1" using n(2) assms(2,3) removeFile_gone [OF assms(1)] by blast
      then show ?thesis using keeps_after [OF h_restoreCovered [OF assms(1)] _ n(1)] by blast
    qed
  qed
qed simp

lemma restore_running:
  assumes e: "tame e" and pl: "plain_paths paths" and ns: "CHR ''/'' \<notin> set nm"
    and A: "map_of (snaps (dsk w)) nm = Some (writeSnapshotFrom F src paths)"
    and run: "run_state (restore e (JoinP HistoryDir nm) stop) w = (r, w')"
  shows "r \<noteq> None \<and> (\<forall>q \<in> set paths. q \<noteq> SecretsPath \<longrightarrow> removedWANService q = [] \<longrightarrow> holds q (entry_of F src q) w')"
proof -
  let ?A = "writeSnapshotFrom F src paths"
  have A': "map_of (snaps (dsk w)) (Base (JoinP HistoryDir nm)) = Some ?A" using A by (simp add: Base_JoinP ns)
  obtain ok w1 where s1: "run_state (restoreEntries e (aFiles ?A)) w = (ok, w1)" by (cases "run_state (restoreEntries e (aFiles ?A)) w")
  have ok: ok
  proof (rule ccontr)
    assume "\<not> ok"
    then have "run_state (restoreEntries e (aFiles ?A)) w = (False, w1)" using s1 by simp
    from restoreEntries_alive [OF tameD(2) [OF e] this] show False using tameD(4) [OF e] by blast
  qed
  let ?C = "restoreCovered e stop (set (map fst (aFiles ?A))) [] [] [] paths"
  obtain svc where s2: "run_state ?C w1 = (svc, w')" "r \<noteq> None"
    using run s1 A' ok pl by (auto simp: restore_def peek_def covered_paths split: prod.splits)
  have "holds q (entry_of F src q) w'" if q: "q \<in> set paths" "q \<noteq> SecretsPath" "removedWANService q = []" for q
  proof (cases "entry_of F src q")
    case None
    then have "q \<notin> set (map fst (aFiles ?A))" using present_iff by auto
    from restoreCovered_gone' [OF e this q(3,1) s2(1)] show ?thesis by (simp add: None)
  next
    case (Some y)
    have en: "\<forall>z. (q, z) \<in> set (aFiles ?A) \<longrightarrow> z = y" "(q, y) \<in> set (aFiles ?A)"
      unfolding entries_of using q Some by simp_all
    have "or_dead e q (Some y) w1" by (rule restoreEntries_at [OF q(2) en]) (use s1 ok in simp)
    then have "holds q (Some y) w1" by (simp add: tameD(5) [OF e])
    moreover have "q \<in> set (map fst (aFiles ?A))" using Some q present_iff by auto
    ultimately show ?thesis using keeps_after [OF h_restoreCovered [OF e] _ s2(1)] Some by simp
  qed
  then show ?thesis using s2(2) by blast
qed

text \<open>The paths a rollback puts back: the secrets file is merged with the password of now, mr's own files are rewritten,
  and the file of a client that cannot be stopped stays.\<close>

definition restored_paths :: "string list \<Rightarrow> string set" where
  "restored_paths paths = {q \<in> set paths. q \<noteq> SecretsPath \<and> q \<notin> own_paths \<and> removedWANService q = []}"

definition kept_files :: "string set \<Rightarrow> (string \<Rightarrow> (string \<times> nat) option) \<Rightarrow> world \<Rightarrow> bool" where
  "kept_files Q v w \<longleftrightarrow> (\<forall>q \<in> Q. holds q (v q) w)"

lemma kept_filesI: "(\<And>q. q \<in> Q \<Longrightarrow> keeps (holds q (v q)) m) \<Longrightarrow> keeps (kept_files Q v) m"
  by (simp add: keeps_def kept_files_def)

lemma clearPending_tame:
  "tame e \<Longrightarrow> at (Marker m) S w \<Longrightarrow> pSnapshot m = snap \<Longrightarrow> snap \<noteq> [] \<Longrightarrow> run_state (clearPending e snap) w = (x, w')
   \<Longrightarrow> marker (dsk w') = NoMarker"
  by (auto simp: clearPending_def peek_def readPending_def at_def act_def Let_def tame_def sound_def no_faults_def alive_def
      split: if_splits)

lemma nm_setResult: "keeps (\<lambda>w. marker (dsk w) = M) (setResult e snap res)"
  and nm_log: "keeps (\<lambda>w. marker (dsk w) = M) (appendChangeLog e l)"
  unfolding setResult_def appendChangeLog_def by (auto simp: keeps_def act_def Let_def peek_def split: option.splits)

lemma rollback_restores:
  assumes e: "tame e" and pl: "plain_paths paths" and ns: "CHR ''/'' \<notin> set nm"
    and S: "at (Marker m) S w" "map_of S nm = Some (writeSnapshotFrom F src paths)"
    and m: "pSnapshot m = JoinP HistoryDir nm" "pListSnapshot m = []"
    and run: "run_state (rollback e (JoinP HistoryDir nm) cause) w = (x, w')"
  shows "x = RolledBack cause \<and> marker (dsk w') = NoMarker \<and> kept_files (restored_paths paths) (entry_of F src) w'"
proof -
  let ?snap = "JoinP HistoryDir nm" and ?Q = "restored_paths paths" and ?v = "entry_of F src"
  note g = tameD(1) [OF e]
  have ls: "listSnapOf (dsk w) ?snap = []" using S(1) m by (simp add: listSnapOf_def readPending_def at_def)
  obtain w1 where s1: "run_state (keepRejected e ?snap) w = ((), w1)" by (cases "run_state (keepRejected e ?snap) w") simp
  note a1 = keeps_after [OF at_stage(4) S(1) s1]
  obtain rs w2 where s2: "run_state (restore e ?snap True) w1 = (rs, w2)" by (cases "run_state (restore e ?snap True) w1")
  note a2 = keeps_after [OF at_restore [OF g] a1 s2]
  have "map_of (snaps (dsk w1)) nm = Some (writeSnapshotFrom F src paths)" using a1 S(2) by (simp add: at_def)
  note rr = restore_running [OF e pl ns this s2]
  then obtain svcs where rs: "rs = Some svcs" by blast
  have k2: "kept_files ?Q ?v w2" using rr by (auto simp: kept_files_def restored_paths_def)
  let ?R = "do { _ \<leftarrow> dropStaged e; _ \<leftarrow> undoLists e []; afterRestore e svcs }"
  let ?E = "do { _ \<leftarrow> setResult e ?snap (''rolled back: '' @ cause); _ \<leftarrow> appendChangeLog e (''mr apply: failed and rolled back: '' @ cause); ret (RolledBack cause) }"
  obtain w3 where s3: "run_state ?R w2 = ((), w3)" by (cases "run_state ?R w2") simp
  obtain w4 where s4: "run_state (clearPending e ?snap) w3 = ((), w4)" by (cases "run_state (clearPending e ?snap) w3") simp
  have s5: "run_state ?E w4 = (x, w')"
    using run ls s1 s2 s3 s4 rs by (auto simp: rollback_def peek_def split: prod.splits)
  have "keeps (at (Marker m) S) ?R" using g by auto
  from keeps_after [OF this a2 s3] have n4: "marker (dsk w4) = NoMarker" using clearPending_tame [OF e _ m(1) _ s4] by simp
  have "keeps (\<lambda>w. marker (dsk w) = NoMarker) ?E" by (intro keeps_bind keeps_return nm_setResult nm_log)
  then have nm: "marker (dsk w') = NoMarker" using n4 s5 by (rule keeps_after)
  have "keeps (kept_files ?Q ?v) ?R"
    using e by (intro kept_filesI keeps_bind h_dropStaged h_afterRestore) (auto simp: restored_paths_def undoLists_def)
  then have "kept_files ?Q ?v w3" using k2 s3 by (rule keeps_after)
  with kept_filesI [OF h_other(4)] have k4: "kept_files ?Q ?v w4" using s4 by (rule keeps_after)
  have "keeps (kept_files ?Q ?v) ?E" by (intro kept_filesI keeps_bind keeps_return h_other)
  then have "kept_files ?Q ?v w'" using k4 s5 by (rule keeps_after)
  moreover have "x = RolledBack cause" using s5 by (auto split: prod.splits)
  ultimately show ?thesis using nm by simp
qed

text \<open>How a change ends: settled, or pending with its deadline.\<close>

definition ends_as :: "env \<Rightarrow> string \<Rightarrow> int \<Rightarrow> applyOpts \<Rightarrow> markerFile \<Rightarrow> bool" where
  "ends_as e snap secs o' M \<longleftrightarrow>
     (if secs > 0 then \<exists>t. M = Marker \<lparr>pSnapshot = snap, pListSnapshot = [], pState = statePending, pDeadline = now e t + secs,
          pVia = oVia o', pPid = 0, pConfirmHash = tokenHash e (oConfirmToken o')\<rparr>
      else M = NoMarker)"

lemma nm_acceptStaged: "keeps (\<lambda>w. marker (dsk w) = M) (acceptStaged e)"
  and nm_run: "good_env e \<Longrightarrow> keeps (\<lambda>w. marker (dsk w) = M) (run e args)"
  unfolding acceptStaged_def renameFile_def exists_def
  by (auto simp: keeps_def act_def run_def peek_def Let_def good_env_def split: option.splits)

lemma settle_ends:
  assumes e: "tame e" and S: "at (Marker m) S w" and m: "pSnapshot m = snap" "pListSnapshot m = []" "snap \<noteq> []"
    and run: "run_state (settle e snap secs o') w = (r, w')"
  shows "r = Inr Applied \<and> ends_as e snap secs o' (marker (dsk w'))"
proof (cases "secs > 0")
  case True
  let ?m = "\<lparr>pSnapshot = snap, pListSnapshot = [], pState = statePending, pDeadline = now e (ops w) + secs, pVia = oVia o', pPid = 0,
     pConfirmHash = tokenHash e (oConfirmToken o')\<rparr>"
  obtain y w1 where s1: "run_state (setPending e ?m) w = (y, w1)" by (cases "run_state (setPending e ?m) w")
  have m1: "marker (dsk w1) = Marker ?m"
    using s1 e by (auto simp: setPending_def act_def Let_def tame_def sound_def no_faults_def alive_def split: if_splits)
  let ?E = "do { _ \<leftarrow> run e [''start-detached'', ''rollback-if-unconfirmed'', snap]; _ \<leftarrow> setResult e snap ''pending''; ret (Inr Applied) } :: (applyError + outcome) prog"
  have ls: "listSnapOf (dsk w) snap = []" using S m by (simp add: listSnapOf_def readPending_def at_def)
  have s2: "run_state ?E w1 = (r, w')"
    using run s1 True ls by (auto simp: settle_def armConfirm_def sense_def peek_def split: prod.splits)
  have "keeps (\<lambda>w. marker (dsk w) = Marker ?m) ?E" by (intro keeps_bind keeps_return nm_run tameD(1) e nm_setResult)
  then have "marker (dsk w') = Marker ?m" using m1 s2 by (rule keeps_after)
  then show ?thesis using s2 True by (auto simp: ends_as_def split: prod.splits)
next
  case False
  obtain y w1 where s1: "run_state (clearPending e snap) w = (y, w1)" by (cases "run_state (clearPending e snap) w")
  note m1 = clearPending_tame [OF e S m(1,3) s1]
  let ?E = "do { _ \<leftarrow> acceptStaged e; _ \<leftarrow> setResult e snap ''applied''; _ \<leftarrow> run e [''net-commit'']; ret (Inr Applied) } :: (applyError + outcome) prog"
  have s2: "run_state ?E w1 = (r, w')" using run s1 False by (simp add: settle_def)
  have "keeps (\<lambda>w. marker (dsk w) = NoMarker) ?E" by (intro keeps_bind keeps_return nm_run tameD(1) e nm_setResult nm_acceptStaged)
  then have "marker (dsk w') = NoMarker" using m1 s2 by (rule keeps_after)
  then show ?thesis using s2 False by (auto simp: ends_as_def split: prod.splits)
qed

definition done_well :: "env \<Rightarrow> Config \<Rightarrow> Plan \<Rightarrow> int \<Rightarrow> applyOpts \<Rightarrow> world \<Rightarrow> bool" where
  "done_well e c p secs o' w \<longleftrightarrow> wrote p w \<and> holds nftPath (Some (nftRules c, 420)) w
     \<and> (\<exists>nm. ends_as e (JoinP HistoryDir nm) secs o' (marker (dsk w)))"

lemma carryOut_ends:
  assumes e: "tame e" and p: "clean_plan e c p" "plain_paths paths" and ns: "CHR ''/'' \<notin> set nm"
    and S: "at (Marker m) S w" "map_of S nm = Some (writeSnapshotFrom F src paths)"
    and m: "pSnapshot m = JoinP HistoryDir nm" "pListSnapshot m = []"
    and run: "run_state (carryOut e c p (JoinP HistoryDir nm) secs install o' ch) w = (r, w')"
  shows "case r of
      Inl x \<Rightarrow> (\<exists>cause. x = RolledBack cause) \<and> marker (dsk w') = NoMarker \<and> kept_files (restored_paths paths) (entry_of F src) w'
    | Inr y \<Rightarrow> y = Applied \<and> done_well e c p secs o' w'"
    (is "?Q r w'")
proof -
  have "triple (at (Marker m) S) (carryOut e c p (JoinP HistoryDir nm) secs install o' ch) ?Q"
  proof (rule carryOut_stages [OF e p(1)])
    fix cause w0 x w'
    assume "at (Marker m) S w0" "run_state (rollback e (JoinP HistoryDir nm) cause) w0 = (x, w')"
    from rollback_restores [OF e p(2) ns this(1) S(2) m this(2)] show "?Q (Inl x) w'" by simp
  next
    fix w0 r w'
    assume a: "at (Marker m) S w0" "wrote p w0" "holds nftPath (Some (nftRules c, 420)) w0"
      "run_state (settle e (JoinP HistoryDir nm) secs o') w0 = (r, w')"
    have "keeps (wrote p) (settle e (JoinP HistoryDir nm) secs o')"
      using e p(1) by (intro wrote_kept h_settle) (auto simp: clean_plan_def)
    then have "wrote p w'" using a(2,4) by (rule keeps_after)
    moreover have "holds nftPath (Some (nftRules c, 420)) w'" using h_settle [OF e disjI2 [OF refl]] a(3,4) by (rule keeps_after)
    ultimately show "?Q r w'" using settle_ends [OF e a(1) m HistoryDir_nonempty a(4)] by (auto simp: done_well_def)
  qed
  from tripleD [OF this S(1) run] show ?thesis .
qed

lemma snapshotFrom_tame: "tame e \<Longrightarrow> fst (run_state (snapshotFrom e paths kp src) w) \<noteq> None"
  by (auto simp: snapshotFrom_def sense_def peek_def act_def Let_def tame_def sound_def no_faults_def alive_def split: prod.splits)

lemma claimPending_tame: "tame e \<Longrightarrow> marker (dsk w) = NoMarker \<Longrightarrow> fst (run_state (claimPending e p) w) = None"
  by (auto simp: claimPending_def peek_def act_def Let_def tame_def sound_def no_faults_def alive_def split: prod.splits)

text \<open>A transaction, to its end.\<close>

lemma transact_ends:
  assumes e: "tame e" "\<And>n. CHR ''/'' \<notin> set (stamp e n)" and ls: "oListSnapshot o' = []"
    and w: "marker (dsk w) = NoMarker" "listMarker (dsk w) = []"
    and p: "clean_plan e c p" "plain_paths (applyPaths p)"
    and src: "src = (if install = None then acceptedSources (files (dsk w)) else [])"
    and run: "run_state (transact e pid changes c p secs install o') w = (r, w')"
  shows "case r of
      Inl x \<Rightarrow> marker (dsk w') = NoMarker
        \<and> (if x = Stale then files (dsk w') = files (dsk w)
           else (\<exists>cause. x = RolledBack cause) \<and> kept_files (restored_paths (applyPaths p)) (entry_of (files (dsk w)) src) w')
    | Inr y \<Rightarrow> y = Applied \<and> done_well e c p secs o' w'"
proof -
  let ?A = "writeSnapshotFrom (files (dsk w)) src (applyPaths p)"
  obtain sn w1 where s1: "run_state (snapshotFrom e (applyPaths p) (historyKeep (Some c)) src) w = (sn, w1)"
    by (cases "run_state (snapshotFrom e (applyPaths p) (historyKeep (Some c)) src) w")
  note sp = snapshotFrom_spec [OF e(2) s1]
  obtain snap where sn: "sn = Some snap" using snapshotFrom_tame [OF e(1)] s1 by (metis fst_conv option.exhaust)
  then obtain nm where nm: "CHR ''/'' \<notin> set nm" "snap = JoinP HistoryDir nm" "map_of (snaps (dsk w1)) nm = Some ?A" using sp by blast
  obtain cl w2 where s2: "run_state (claimPending e (claim_of snap pid o')) w1 = (cl, w2)"
    by (cases "run_state (claimPending e (claim_of snap pid o')) w1")
  have m1: "marker (dsk w1) = NoMarker" using sp w by simp
  have cl: "cl = None" using claimPending_tame [OF e(1) m1] s2 by (metis fst_conv)
  let ?m = "claim_of snap pid o'"
  have m: "pSnapshot ?m = JoinP HistoryDir nm" "pListSnapshot ?m = []" by (simp_all add: claim_of_def nm ls)
  have f2: "files (dsk w2) = files (dsk w)" and at2: "at (Marker ?m) (snaps (dsk w1)) w2"
    using claimPending_spec [OF s2 m1] cl sp w by (auto simp: at_def)
  have s3: "run_state (afterClaim e c p snap secs install o' changes) w2 = (r, w')"
    using run s1 s2 sn cl src by (simp add: transact_def peek_def)
  show ?thesis
  proof (cases "oBaseRev o' \<noteq> [] \<and> configRev e (files (dsk w2)) \<noteq> oBaseRev o'")
    case True
    let ?X = "do { _ \<leftarrow> clearPending e snap; _ \<leftarrow> removeSnap e (Base snap); ret (Inl Stale) } :: (applyError + outcome) prog"
    have x: "run_state ?X w2 = (r, w')"
      using s3 ls True by (simp add: afterClaim_def peek_def)
    then have "r = Inl Stale" "files (dsk w') = files (dsk w2)" "marker (dsk w') = NoMarker"
      using e(1) at2 m nm(2)
      by (auto simp: clearPending_def removeSnap_def peek_def act_def Let_def readPending_def at_def tame_def sound_def no_faults_def
          alive_def split: prod.splits if_splits)
    then show ?thesis using f2 by simp
  next
    case False
    have "run_state (carryOut e c p (JoinP HistoryDir nm) secs install o' changes) w2 = (r, w')"
      using s3 ls False nm(2) by (auto simp: afterClaim_def peek_def)
    from carryOut_ends [OF e(1) p nm(1) at2 nm(3) m this] show ?thesis by (auto split: sum.splits)
  qed
qed

text \<open>Where every command works, an apply succeeds.\<close>

definition obliging :: "env \<Rightarrow> Config \<Rightarrow> bool" where
  "obliging e c \<longleftrightarrow> tame e \<and> (\<forall>n args. cmd e n args) \<and> (\<forall>n d. netdev e n d)
     \<and> (\<forall>m \<in> set (modules e). \<forall>f rs. Verify m = Some f \<longrightarrow> f c rs = [])"

definition yields :: "'a prog \<Rightarrow> 'a \<Rightarrow> bool" where
  "yields m v \<longleftrightarrow> (\<forall>w. fst (run_state m w) = v)"

lemma yieldsD: "yields m v \<Longrightarrow> run_state m w = (x, w') \<Longrightarrow> x = v"
  unfolding yields_def by (metis fst_conv)

lemma yields_ret [intro!]: "yields (ret x) x"
  by (simp add: yields_def)

lemma yields_bind: "(\<And>x. yields (f x) v) \<Longrightarrow> yields (m \<bind> f) v"
  by (simp add: yields_def split: prod.splits)

lemma yields_step: "yields m x \<Longrightarrow> yields (f x) v \<Longrightarrow> yields (m \<bind> f) v"
  by (auto simp: yields_def split: prod.splits) (metis fst_conv)

lemma yields_if: "(b \<Longrightarrow> yields m v) \<Longrightarrow> (\<not> b \<Longrightarrow> yields m' v) \<Longrightarrow> yields (if b then m else m') v"
  by simp

lemma yields_act: "tame e \<Longrightarrow> yields (act e f) True"
  by (simp add: yields_def act_def Let_def tame_def sound_def no_faults_def alive_def)

lemma yields_run: "obliging e c \<Longrightarrow> yields (run e args) True"
  by (simp add: yields_def run_def Let_def obliging_def tame_def alive_def)

lemma yields_files: "tame e \<Longrightarrow> yields (writeAtomic e p d m) True" "tame e \<Longrightarrow> yields (renameFile e a b) True"
  unfolding writeAtomic_def renameFile_def by (rule yields_act; assumption)+

lemma yields_collect: "(\<And>x. x \<in> set xs \<Longrightarrow> yields (f x) []) \<Longrightarrow> yields (collect f xs) []"
proof (induction xs)
  case (Cons x xs)
  have y: "yields (f x) []" "yields (collect f xs) []" using Cons by auto
  have "yields (do { zs \<leftarrow> collect f xs; ret ([] @ zs) }) []" by (rule yields_step [OF y(2)]) auto
  then show ?case by (simp only: collect.simps) (rule yields_step [OF y(1)])
qed auto

lemma yields_writeChanged: "tame e \<Longrightarrow> yields (writeChanged e fs) True"
  by (induction fs) (auto intro!: yields_step [OF yields_files(1)])

lemma run_obliging: "obliging e c \<Longrightarrow> run_state (run e args) w = (True, w\<lparr>ops := Suc (ops w), dsk := eff e (ops w) args (dsk w)\<rparr>)"
  by (simp add: run_def Let_def obliging_def tame_def alive_def)

lemma yields_restartOne: "obliging e c \<Longrightarrow> yields (restartOne e s) []"
  by (auto simp: yields_def restartOne_def run_obliging exists_def loadConfig_def peek_def split: option.splits)

lemma yields_restartAll: "obliging e c \<Longrightarrow> yields (restartAll e svcs) []"
  unfolding restartAll_def by (rule yields_collect) (rule yields_restartOne)

lemma yields_verify: "obliging e c \<Longrightarrow> yields (verify e c rs) []"
  unfolding verify_def
  apply (rule yields_step [OF yields_collect])
  apply (auto simp: yields_def run_obliging exists_def peek_def sense_def concat_eq_Nil_conv obliging_def split: option.splits)
  done

lemma yields_fwLoad: "obliging e c \<Longrightarrow> yields (fwLoad e c) True"
  unfolding fwLoad_def
  by (rule yields_step [OF yields_files(1)], simp add: obliging_def, simp, rule yields_step [OF yields_run], assumption, simp,
      rule yields_step [OF yields_run], assumption, simp, rule yields_step [OF yields_files(2)], simp add: obliging_def, simp,
      rule yields_run)

lemma yields_settle: "yields (settle e snap secs o') (Inr Applied)"
  unfolding settle_def by (rule yields_if) (rule yields_bind | rule yields_ret)+

lemma yields_carryOut:
  assumes o: "obliging e c"
  shows "yields (carryOut e c p snap secs None o' ch) (Inr Applied)"
proof -
  have t: "tame e" using o by (simp add: obliging_def)
  show ?thesis
    unfolding carryOut_def
    apply (rule yields_bind, simp only: option.case, rule yields_step [OF yields_ret], simp)
    apply (rule yields_bind, rule yields_step [OF yields_writeChanged [OF t]], simp)
    apply (rule yields_bind, rule yields_bind, rule yields_bind, rule yields_bind)
    apply (rule yields_step [OF yields_restartAll [OF o]], simp)
    apply (rule yields_bind, rule yields_bind)
    apply (rule yields_step [OF yields_fwLoad [OF o]], simp)
    apply (rule yields_step [OF yields_verify [OF o]], simp)
    apply (rule yields_bind, rule yields_settle)
    done
qed

lemma all_commands_work:
  assumes o: "obliging e c" "\<And>n. CHR ''/'' \<notin> set (stamp e n)" and opts: "oListSnapshot o' = []" "oBaseRev o' = []"
    and w: "marker (dsk w) = NoMarker" "validate e c = []"
    and p: "plan (iter e) (modules e) (applied e) (files (dsk w)) (links (dsk w)) c = Inr p" "\<not> Empty p"
  shows "fst (run_state (applyWith e pid changes c False secs None o') w) = Inr Applied"
proof -
  have t: "tame e" using o(1) by (simp add: obliging_def)
  let ?src = "acceptedSources (files (dsk w))"
  obtain sn w1 where s1: "run_state (snapshotFrom e (applyPaths p) (historyKeep (Some c)) ?src) w = (sn, w1)"
    by (cases "run_state (snapshotFrom e (applyPaths p) (historyKeep (Some c)) ?src) w")
  obtain snap where sn: "sn = Some snap" using snapshotFrom_tame [OF t] s1 by (metis fst_conv option.exhaust)
  have m1: "marker (dsk w1) = NoMarker" using snapshotFrom_spec [OF o(2) s1] w by simp
  obtain cl w2 where s2: "run_state (claimPending e (claim_of snap pid o')) w1 = (cl, w2)"
    by (cases "run_state (claimPending e (claim_of snap pid o')) w1")
  have cl: "cl = None" using claimPending_tame [OF t m1] s2 by (metis fst_conv)
  have "fst (run_state (transact e pid changes c p secs None o') w) = fst (run_state (carryOut e c p snap secs None o' changes) w2)"
    using s1 s2 sn cl opts by (simp add: transact_def peek_def afterClaim_def)
  moreover have "run_state (pendingBlocks e) w = (None, w)"
    by (simp add: pendingBlocks_def sense_def peek_def readPending_def w blockReason_def)
  ultimately show ?thesis using p w yields_carryOut [OF o(1)] by (simp add: applyWith_def peek_def yields_def)
qed

lemma applyWith_start:
  assumes m: "marker (dsk w) = NoMarker"
    and p: "plan (iter e) (modules e) (applied e) (files (dsk w)) (links (dsk w)) c = Inr p"
    and run: "run_state (applyWith e pid changes c False secs install o') w = (r, w')"
  shows "(w' = w \<and> r \<in> {Inl (Invalid (validate e c)), Inr NothingToDo}) \<or> run_state (transact e pid changes c p secs install o') w = (r, w')"
proof -
  have "run_state (pendingBlocks e) w = (None, w)"
    by (simp add: pendingBlocks_def sense_def peek_def readPending_def m blockReason_def)
  then show ?thesis using run p by (auto simp: applyWith_def peek_def split: if_splits)
qed


text \<open>The demo system again: every path of its plan is a file of the plan only.\<close>

definition demo_fail :: env where
  "demo_fail = (demo_env None)\<lparr>cmd := \<lambda>_ a. hd a \<noteq> ''sh''\<rparr>"

lemma demo_tame: "tame (demo_env None)" "tame demo_fail"
  by (simp_all add: tame_def sound_def good_env_def no_faults_def demo_env_def demo_fail_def)

lemma demo_clean:
  assumes "plan id [] (\<lambda>_. []) (files demo_disk) [] demo_cfg = Inr p" "modules e = []"
  shows "clean_plan e demo_cfg p"
proof -
  have "map fPath (Changed (projr (plan id [] (\<lambda>_. []) (files demo_disk) [] demo_cfg))) = [GenDir @ ''/network.sh'', GenDir @ ''/services'']"
    by code_simp
  then have c: "map fPath (Changed p) = [GenDir @ ''/network.sh'', GenDir @ ''/services'']" using assms by simp
  have gen: "GenDir \<noteq> initDir" "GenDir \<noteq> pppPeersDir" by (simp_all add: GenDir_def initDir_def pppPeersDir_def)
  have o: "q \<notin> set (orphanWANPaths demo_cfg fs)" if "Dir q = GenDir" for q fs
    using that gen readDir_no_slash Dir_JoinP unfolding orphanWANPaths_def set_append orphanInit_iff Un_iff
    by (metis orphanPeers_D orphanInit_iff)
  have d: "Dir (GenDir @ ''/network.sh'') = GenDir" "Dir (GenDir @ ''/services'') = GenDir" by code_simp+
  have n: "GenDir @ ''/network.sh'' \<notin> own_paths" "GenDir @ ''/services'' \<notin> own_paths"
    "distinct [GenDir @ ''/network.sh'', GenDir @ ''/services'']" by code_simp+
  have s: "fPath ` set (Changed p) = {GenDir @ ''/network.sh'', GenDir @ ''/services''}"
    using arg_cong [OF c, of set] by simp
  show ?thesis
    unfolding clean_plan_def s c using n o d assms(2) by (auto simp: moduleOrphanPaths_def dedup_def)
qed

lemma demo_fail_plan: "plan (iter demo_fail) (modules demo_fail) (applied demo_fail) (files (dsk demo_world)) (links (dsk demo_world)) demo_cfg
    = plan id [] (\<lambda>_. []) (files demo_disk) [] demo_cfg"
  "plan (iter (demo_env k)) (modules (demo_env k)) (applied (demo_env k)) (files (dsk demo_world)) (links (dsk demo_world)) demo_cfg
    = plan id [] (\<lambda>_. []) (files demo_disk) [] demo_cfg"
  by (simp_all add: demo_fail_def demo_env_def demo_world_def demo_disk_def)

lemma demo_start: "marker (dsk demo_world) = NoMarker" "listMarker (dsk demo_world) = []" "oListSnapshot demo_opts = []"
  "CHR ''/'' \<notin> set (stamp demo_fail n)" "CHR ''/'' \<notin> set (stamp (demo_env k) n)" "modules demo_fail = []" "modules (demo_env k) = []"
  by (simp_all add: demo_world_def demo_disk_def demo_opts_def demo_fail_def demo_env_def)

text \<open>A command that fails: the network script.\<close>

lemma collect_nonempty: "x \<in> set xs \<Longrightarrow> (\<And>w. fst (run_state (f x) w) \<noteq> []) \<Longrightarrow> fst (run_state (collect f xs) w) \<noteq> []"
proof (induction xs arbitrary: w)
  case (Cons y ys)
  obtain a w1 where s1: "run_state (f y) w = (a, w1)" by (cases "run_state (f y) w")
  obtain b w2 where s2: "run_state (collect f ys) w1 = (b, w2)" by (cases "run_state (collect f ys) w1")
  have "a \<noteq> [] \<or> b \<noteq> []" using Cons.IH [of w1] Cons.prems s1 s2 by (metis fst_conv set_ConsD)
  then show ?case using s1 s2 by simp
qed simp

definition never :: "('a \<Rightarrow> bool) \<Rightarrow> 'a prog \<Rightarrow> bool" where
  "never P m \<longleftrightarrow> (\<forall>w. \<not> P (fst (run_state m w)))"

lemma never_bind: "(\<And>x. never P (f x)) \<Longrightarrow> never P (m \<bind> f)"
  by (simp add: never_def split: prod.splits)

lemma never_step: "never N m \<Longrightarrow> (\<And>x. \<not> N x \<Longrightarrow> never P (f x)) \<Longrightarrow> never P (m \<bind> f)"
  by (auto simp: never_def split: prod.splits) (metis fst_conv)

lemma never_if: "(b \<Longrightarrow> never P m) \<Longrightarrow> (\<not> b \<Longrightarrow> never P m') \<Longrightarrow> never P (if b then m else m')"
  by simp

lemma never_ret: "\<not> P x \<Longrightarrow> never P (ret x)"
  by (simp add: never_def)

lemma restart_fails:
  assumes "\<And>n. \<not> cmd e n [''sh'', GenDir @ ''/network.sh'']" "''mr-network'' \<in> set svcs"
  shows "never (\<lambda>x. x = []) (restartAll e svcs)"
proof -
  have "fst (run_state (restartOne e ''mr-network'') w) \<noteq> []" for w
    using assms(1) by (auto simp: restartOne_def run_def Let_def loadConfig_def peek_def split: prod.splits option.splits)
  then show ?thesis unfolding never_def restartAll_def using collect_nonempty [OF assms(2)] by blast
qed

lemma carryOut_fails:
  assumes "\<And>n. \<not> cmd e n [''sh'', GenDir @ ''/network.sh'']" "''mr-network'' \<in> set (PServices p)"
  shows "never (\<lambda>r. \<not> isl r) (carryOut e c p snap secs install o' ch)"
proof -
  have rb: "never (\<lambda>r. \<not> isl r) (do { r \<leftarrow> rollback e snap cause; ret (Inl r) })" for cause
    by (rule never_bind) (simp add: never_def)
  have rs: "never (\<lambda>x. x = []) (restartAll e (dedup (PServices p @ Enable p)))" using assms by (intro restart_fails) auto
  show ?thesis
    unfolding carryOut_def
    apply (rule never_bind, rule never_bind, rule never_if, rule rb)
    apply (rule never_bind, rule never_bind, rule never_if, rule rb)
    apply (rule never_bind, rule never_bind, rule never_bind, rule never_bind)
    apply (rule never_step [OF rs], simp, rule rb)
    done
qed

lemma transact_fails:
  assumes "\<And>n. \<not> cmd e n [''sh'', GenDir @ ''/network.sh'']" "''mr-network'' \<in> set (PServices p)"
  shows "never (\<lambda>r. \<not> isl r) (transact e pid changes c p secs install o')"
proof -
  have "never (\<lambda>r. \<not> isl r) (afterClaim e c p snap secs install o' changes)" for snap
    unfolding afterClaim_def
    by (rule never_bind, rule never_bind, rule never_if, rule never_bind, rule never_bind, simp add: never_def,
        rule carryOut_fails [OF assms])
  then show ?thesis
    unfolding transact_def
    by (auto simp: never_def split: prod.splits option.splits)
qed

lemma applyWith_runs:
  assumes "marker (dsk w) = NoMarker" "validate e c = []"
    "plan (iter e) (modules e) (applied e) (files (dsk w)) (links (dsk w)) c = Inr p" "\<not> Empty p"
  shows "run_state (applyWith e pid changes c False secs install o') w = run_state (transact e pid changes c p secs install o') w"
proof -
  have "run_state (pendingBlocks e) w = (None, w)"
    by (simp add: pendingBlocks_def sense_def peek_def readPending_def assms blockReason_def)
  then show ?thesis using assms by (simp add: applyWith_def peek_def)
qed

lemma demo_plan_more:
  assumes "plan id [] (\<lambda>_. []) (files demo_disk) [] demo_cfg = Inr p"
  shows "\<not> Empty p" "''mr-network'' \<in> set (PServices p)"
proof -
  have "\<not> Empty (projr (plan id [] (\<lambda>_. []) (files demo_disk) [] demo_cfg))"
    "''mr-network'' \<in> set (PServices (projr (plan id [] (\<lambda>_. []) (files demo_disk) [] demo_cfg)))" by code_simp+
  then show "\<not> Empty p" "''mr-network'' \<in> set (PServices p)" using assms by simp_all
qed

definition demo_result :: "(applyError + outcome) \<times> world" where
  "demo_result = run_state (applyWith demo_fail 7 [] demo_cfg False 60 None demo_opts) demo_world"


text \<open>
  C9. Where every command works, an apply is carried out: with a valid config whose plan is not empty, no marker, working
  services and a firewall that loads, \<open>applyWith\<close> ends in success, whatever the confirm window.
\<close>

theorem apply_succeeds:
  assumes "obliging e c" "\<And>n. CHR ''/'' \<notin> set (stamp e n)" "oListSnapshot o' = []" "oBaseRev o' = []"
    "marker (dsk w) = NoMarker" "validate e c = []"
    "plan (iter e) (modules e) (applied e) (files (dsk w)) (links (dsk w)) c = Inr p" "\<not> Empty p"
  shows "fst (run_state (applyWith e pid changes c False secs None o') w) = Inr Applied"
  using assms by (rule all_commands_work)

lemma demo_obliging: "obliging (demo_env None) demo_cfg" "validate (demo_env None) demo_cfg = []" "oBaseRev demo_opts = []"
  using demo_tame(1) by (simp_all add: obliging_def demo_env_def demo_opts_def)

theorem apply_succeeds_witness:
  "fst (run_state (applyWith (demo_env None) 7 [] demo_cfg False 60 None demo_opts) demo_world) = Inr Applied"
proof -
  obtain p where p: "plan id [] (\<lambda>_. []) (files demo_disk) [] demo_cfg = Inr p" using demo_plan by blast
  show ?thesis
    by (rule apply_succeeds [OF demo_obliging(1) demo_start(5) demo_start(3) demo_obliging(3) demo_start(1) demo_obliging(2) _ demo_plan_more(1) [OF p]])
      (simp only: demo_fail_plan p)
qed

text \<open>
  C8. An apply that reports success has done its work: with no power cut and no failing disk, every file of the plan
  holds what was rendered, the rule file is the one loaded, and the change is settled with the marker gone, or, with a
  confirm window, the marker says pending with the deadline of that window and the hash of the token that may confirm it.
\<close>

theorem applied_or_pending:
  assumes e: "tame e" "\<And>n. CHR ''/'' \<notin> set (stamp e n)" and ls: "oListSnapshot o' = []"
    and w: "marker (dsk w) = NoMarker" "listMarker (dsk w) = []"
    and p: "plan (iter e) (modules e) (applied e) (files (dsk w)) (links (dsk w)) c = Inr p" "clean_plan e c p"
      "plain_paths (applyPaths p)"
    and run: "run_state (applyWith e pid changes c False secs install o') w = (Inr Applied, w')"
  shows "(\<forall>f \<in> set (Changed p). map_of (files (dsk w')) (fPath f) = Some (fData f, fMode f))
    \<and> readFile (files (dsk w')) nftPath = Some (nftRules c)
    \<and> (if secs > 0 then \<exists>m t. marker (dsk w') = Marker m \<and> pState m = statePending \<and> pDeadline m = now e t + secs
           \<and> pVia m = oVia o' \<and> pConfirmHash m = tokenHash e (oConfirmToken o')
       else marker (dsk w') = NoMarker)"
proof -
  have "run_state (transact e pid changes c p secs install o') w = (Inr Applied, w')"
    using applyWith_start [OF w(1) p(1) run] by simp
  from transact_ends [OF e ls w p(2,3) refl this] have "done_well e c p secs o' w'" by simp
  then show ?thesis
    by (auto simp: done_well_def wrote_def holds_def readFile_def ends_as_def) blast
qed

theorem applied_or_pending_witness:
  "let R = run_state (applyWith (demo_env None) 7 [] demo_cfg False 60 None demo_opts) demo_world in
   fst R = Inr Applied \<and> readFile (files (dsk (snd R))) nftPath = Some []
   \<and> (\<exists>m. marker (dsk (snd R)) = Marker m \<and> pState m = statePending \<and> pDeadline m = 160)"
proof -
  let ?R = "run_state (applyWith (demo_env None) 7 [] demo_cfg False 60 None demo_opts) demo_world"
  obtain p where p: "plan id [] (\<lambda>_. []) (files demo_disk) [] demo_cfg = Inr p"
    "applyPaths p = [GenDir @ ''/network.sh'', GenDir @ ''/services'', ConfigPath, SecretsPath, nftPath]"
    using demo_plan by blast
  have pl: "plan (iter (demo_env None)) (modules (demo_env None)) (applied (demo_env None)) (files (dsk demo_world)) (links (dsk demo_world)) demo_cfg = Inr p"
    unfolding demo_fail_plan by (rule p(1))
  have r: "fst ?R = Inr Applied"
    by (rule all_commands_work [OF demo_obliging(1) demo_start(5) demo_start(3) demo_obliging(3) demo_start(1) demo_obliging(2) pl demo_plan_more(1) [OF p(1)]])
  obtain w' where w': "?R = (Inr Applied, w')" using r by (cases ?R) simp
  have pp: "plain_paths (applyPaths p)" unfolding p(2) by code_simp
  note t = applied_or_pending [OF demo_tame(1) demo_start(5) demo_start(3) demo_start(1,2) pl demo_clean [OF p(1) demo_start(7)] pp(1) w']
  have "nftRules demo_cfg = []" "\<And>t. now (demo_env None) t = 100" by (simp_all add: demo_cfg_def demo_env_def)
  then show ?thesis using t unfolding w' Let_def fst_conv snd_conv by auto
qed

text \<open>
  C10. While a change is not accepted no other apply touches anything: with a marker on the disk, readable or not, an
  apply is refused before its first step and a claim of the marker fails, and neither changes the disk.
\<close>

theorem pending_refuses:
  assumes "marker (dsk w) \<noteq> NoMarker"
  shows "(\<exists>reason. run_state (applyWith e pid changes c False secs install o') w = (Inl reason, w))
    \<and> (\<exists>reason. run_state (claimPending e p) w = (Some reason, w))"
proof -
  obtain reason where "run_state (pendingBlocks e) w = (Some reason, w)"
    using assms
    by (cases "marker (dsk w)"; cases "pSnapshot (case marker (dsk w) of Marker m \<Rightarrow> m) = []")
      (auto simp: pendingBlocks_def sense_def peek_def readPending_def blockReason_def)
  then show ?thesis using assms by (auto simp: applyWith_def claimPending_def peek_def)
qed

theorem pending_refuses_witness:
  "\<exists>reason. run_state (applyWith (demo_env None) 7 [] demo_cfg False 60 None demo_opts) (onDisk demo_crashed) = (Inl reason, onDisk demo_crashed)"
proof -
  have "marker (dsk (onDisk demo_crashed)) \<noteq> NoMarker" using demo_changed by (simp add: onDisk_def)
  from pending_refuses [OF this, of "demo_env None" 7 "[]" demo_cfg 60 None demo_opts] show ?thesis by simp
qed

end
