(* ===== verification/Confirm_Race.thy ===== *)
theory Confirm_Race
  imports Apply_Outcome
begin

text \<open>
  Who settles a pending change: \<open>startRevert\<close>, \<open>rollbackIfUnconfirmed\<close>, \<open>confirmTransition\<close>, \<open>finishConfirm\<close>, \<open>confirm\<close>
  and \<open>rollbackCommand\<close> of \<open>mr/apply.go\<close>.

  The sections under \<open>lockPending\<close> run one at a time; between them the processes interleave freely. \<open>race\<close> is the step
  relation of any number of timers, confirmations and rollbacks on one disk: a locked section is one step, the rollback
  after it is any number of steps that leave the marker alone (as \<open>rollback_marker\<close> shows of the code) and a last one that
  removes it. Shown: of a confirmation and the rollbacks of a change exactly one side wins (\<open>one_winner\<close>), and when all
  have ended the change is settled (\<open>race_settles\<close>).
\<close>

section \<open>The operations\<close>

definition startRevert :: "env \<Rightarrow> string \<Rightarrow> pendingApply option prog" where
  "startRevert e snap = do {
     r \<leftarrow> peek readPending;
     (case r of
        Some (Some p) \<Rightarrow>
          if (snap \<noteq> [] \<and> pSnapshot p \<noteq> snap) \<or> pState p \<noteq> statePending then ret None
          else do {
            ok \<leftarrow> setPending e (p\<lparr>pState := stateReverting\<rparr>);
            ret (if ok then Some (p\<lparr>pState := stateReverting\<rparr>) else None) }
      | _ \<Rightarrow> ret None) }"

definition rollbackIfUnconfirmed :: "env \<Rightarrow> string \<Rightarrow> applyError option prog" where
  "rollbackIfUnconfirmed e snap = do {
     r \<leftarrow> startRevert e snap;
     (case r of None \<Rightarrow> ret None | Some _ \<Rightarrow> do { x \<leftarrow> rollback e snap ''not confirmed''; ret (Some x) }) }"

datatype confirmError = StillRunning | RollingBack

record confirmResult =
  crOk :: bool
  crErr :: "confirmError option"
  crCommit :: "Config option"
  crSnapshot :: string

definition noneToConfirm :: confirmResult where
  "noneToConfirm = \<lparr>crOk = False, crErr = None, crCommit = None, crSnapshot = []\<rparr>"

text \<open>The config to commit: the staged one, or the accepted one where nothing is staged.\<close>

definition commitConfig :: "env \<Rightarrow> Config option prog" where
  "commitConfig e = do {
     st \<leftarrow> exists (staged acceptedConfig);
     (if st then loadConfig e (staged acceptedConfig) (staged acceptedSecrets) else loadConfig e acceptedConfig acceptedSecrets) }"

definition confirmTransition :: "env \<Rightarrow> confirmResult prog" where
  "confirmTransition e = do {
     r \<leftarrow> peek readPending;
     (case r of
        None \<Rightarrow> ret noneToConfirm
      | Some q \<Rightarrow>
          (case q of
             Some p \<Rightarrow>
               if pState p = stateApplying then ret (noneToConfirm\<lparr>crErr := Some StillRunning\<rparr>)
               else if pState p = stateReverting then ret (noneToConfirm\<lparr>crErr := Some RollingBack\<rparr>)
               else do {
                 c \<leftarrow> commitConfig e;
                 _ \<leftarrow> clearPending e [];
                 _ \<leftarrow> clearRestoreListMarker e;
                 _ \<leftarrow> acceptStaged e;
                 ret \<lparr>crOk = True, crErr = None, crCommit = c, crSnapshot = pSnapshot p\<rparr> }
           | None \<Rightarrow> do {
                 _ \<leftarrow> clearPending e [];
                 _ \<leftarrow> clearRestoreListMarker e;
                 _ \<leftarrow> acceptStaged e;
                 ret \<lparr>crOk = True, crErr = None, crCommit = None, crSnapshot = []\<rparr> })) }"

definition finishConfirm :: "env \<Rightarrow> confirmResult \<Rightarrow> (confirmError + bool) prog" where
  "finishConfirm e r = do {
     _ \<leftarrow> (case crCommit r of None \<Rightarrow> ret True | Some _ \<Rightarrow> run e [''net-commit'']);
     _ \<leftarrow> (if crErr r = None \<and> crSnapshot r \<noteq> [] then setResult e (crSnapshot r) ''confirmed'' else ret ());
     ret (case crErr r of Some x \<Rightarrow> Inl x | None \<Rightarrow> Inr (crOk r)) }"

definition confirm :: "env \<Rightarrow> (confirmError + bool) prog" where
  "confirm e = do { r \<leftarrow> confirmTransition e; finishConfirm e r }"

text \<open>The files of the history directory, as \<open>os.ReadDir\<close> lists them.\<close>

definition revFile :: "string \<Rightarrow> string" where
  "revFile snap = TrimSuffix snap ''.tar.gz'' @ ''.json''"

definition historyEntries :: "disk \<Rightarrow> string list" where
  "historyEntries k = sort (map fst (snaps k) @ map (revFile \<circ> fst) (revs k) @ readDir (files k) HistoryDir)"

text \<open>The locked part of \<open>mr rollback [SNAPSHOT]\<close>: what to restore, and the marker as it was.\<close>

definition rollbackChoose :: "env \<Rightarrow> string option \<Rightarrow> (applyError + string \<times> pendingApply option) prog" where
  "rollbackChoose e arg = do {
     r \<leftarrow> peek readPending;
     names \<leftarrow> peek historyEntries;
     (let p = (case r of Some (Some q) \<Rightarrow> Some q | _ \<Rightarrow> None) in
      case p of
        Some q \<Rightarrow>
          if pState q = stateApplying \<and> \<not> interrupted e q then ret (Inl (Running (pVia q)))
          else do {
            _ \<leftarrow> (if pState q \<noteq> stateReverting then setPending e (q\<lparr>pState := stateReverting\<rparr>) else ret True);
            ret (Inr (JoinP HistoryDir (Base (case arg of Some a \<Rightarrow> a | None \<Rightarrow> pSnapshot q)), Some q)) }
      | None \<Rightarrow>
          (case arg of
             Some a \<Rightarrow> ret (Inr (JoinP HistoryDir (Base a), None))
           | None \<Rightarrow> if names = [] then ret (Inl NoSnapshots) else ret (Inr (JoinP HistoryDir (last names), None)))) }"

definition rollbackRest :: "env \<Rightarrow> string \<Rightarrow> pendingApply option \<Rightarrow> applyError option prog" where
  "rollbackRest e snap p = do {
     r \<leftarrow> restore e snap True;
     (case r of
        None \<Rightarrow> do {
          _ \<leftarrow> (case p of None \<Rightarrow> ret True
                | Some q \<Rightarrow> setPending e (q\<lparr>pState := if pState q = stateApplying then stateApplying else statePending\<rparr>));
          ret (Some RestoreFailed) }
      | Some svcs \<Rightarrow> do {
          _ \<leftarrow> (case p of None \<Rightarrow> ret () | Some q \<Rightarrow> undoLists e (pListSnapshot q));
          _ \<leftarrow> afterRestore e svcs;
          _ \<leftarrow> clearPending e [];
          _ \<leftarrow> (case p of None \<Rightarrow> ret () | Some q \<Rightarrow> setResult e (pSnapshot q) ''rolled back: reverted'');
          _ \<leftarrow> appendChangeLog e (''mr rollback: '' @ Base snap);
          ret None }) }"

definition rollbackCommand :: "env \<Rightarrow> string option \<Rightarrow> applyError option prog" where
  "rollbackCommand e arg = do {
     r \<leftarrow> rollbackChoose e arg;
     (case r of Inl x \<Rightarrow> ret (Some x) | Inr (snap, p) \<Rightarrow> rollbackRest e snap p) }"

section \<open>The locked sections, one by one\<close>

lemma state_names: "stateApplying \<noteq> statePending" "statePending \<noteq> stateReverting" "stateApplying \<noteq> stateReverting"
  by (simp_all add: stateApplying_def statePending_def stateReverting_def)

lemma act_tame: "tame e \<Longrightarrow> run_state (act e f) w = (True, w\<lparr>ops := Suc (ops w), dsk := f (dsk w)\<rparr>)"
  by (simp add: act_def Let_def tame_def sound_def no_faults_def alive_def)

definition awaiting :: "string \<Rightarrow> disk \<Rightarrow> bool" where
  "awaiting s d \<longleftrightarrow> (\<exists>p. marker d = Marker p \<and> pSnapshot p = s \<and> pState p = statePending)"

definition reverting :: "string \<Rightarrow> disk \<Rightarrow> bool" where
  "reverting s d \<longleftrightarrow> (\<exists>p. marker d = Marker p \<and> pSnapshot p = s \<and> pState p = stateReverting)"

definition settled :: "disk \<Rightarrow> bool" where
  "settled d \<longleftrightarrow> marker d = NoMarker"

lemma startRevert_cases:
  assumes "tame e" "s \<noteq> []" "run_state (startRevert e snap) w = (r, w')" "snap \<noteq> []"
  shows "awaiting s (dsk w) \<Longrightarrow> (if snap = s then r \<noteq> None \<and> reverting s (dsk w') else r = None \<and> w' = w)"
    "reverting s (dsk w) \<Longrightarrow> r = None \<and> w' = w" "settled (dsk w) \<Longrightarrow> r = None \<and> w' = w"
  using assms state_names
  by (auto simp: startRevert_def peek_def readPending_def awaiting_def reverting_def settled_def setPending_def act_tame split: if_splits)

lemma cleared:
  assumes "tame e"
  shows "marker (dsk (snd (run_state (do { _ \<leftarrow> clearPending e []; _ \<leftarrow> clearRestoreListMarker e; _ \<leftarrow> acceptStaged e; ret x }) w))) = NoMarker"
proof -
  obtain u w1 where s1: "run_state (clearPending e []) w = (u, w1)" by (cases "run_state (clearPending e []) w")
  have m1: "marker (dsk w1) = NoMarker" using s1 assms by (auto simp: clearPending_def peek_def act_tame)
  have "keeps (\<lambda>w. marker (dsk w) = NoMarker) (do { _ \<leftarrow> clearRestoreListMarker e; _ \<leftarrow> acceptStaged e; ret x })"
    by (intro keeps_bind keeps_return nm_acceptStaged) (auto simp: clearRestoreListMarker_def keeps_def act_def Let_def)
  from keepsD [OF this m1] show ?thesis by (simp add: s1)
qed

lemma confirmTransition_cases:
  assumes "tame e" "s \<noteq> []" "run_state (confirmTransition e) w = (r, w')"
  shows "awaiting s (dsk w) \<Longrightarrow> crOk r \<and> crErr r = None \<and> crSnapshot r = s \<and> settled (dsk w')"
    "reverting s (dsk w) \<Longrightarrow> \<not> crOk r \<and> crErr r = Some RollingBack \<and> w' = w"
    "settled (dsk w) \<Longrightarrow> r = noneToConfirm \<and> w' = w"
proof -
  show "reverting s (dsk w) \<Longrightarrow> \<not> crOk r \<and> crErr r = Some RollingBack \<and> w' = w" "settled (dsk w) \<Longrightarrow> r = noneToConfirm \<and> w' = w"
    using assms state_names by (auto simp: confirmTransition_def peek_def readPending_def reverting_def settled_def noneToConfirm_def)
  assume "awaiting s (dsk w)"
  then obtain p where p: "marker (dsk w) = Marker p" "pSnapshot p = s" "pState p = statePending" by (auto simp: awaiting_def)
  have "snd (run_state (commitConfig e) w) = w" by (simp add: commitConfig_def exists_def loadConfig_def peek_def)
  then obtain c where c: "run_state (commitConfig e) w = (c, w)" by (metis prod.collapse)
  let ?r = "\<lparr>crOk = True, crErr = None, crCommit = c, crSnapshot = pSnapshot p\<rparr>"
  let ?m = "do { _ \<leftarrow> clearPending e []; _ \<leftarrow> clearRestoreListMarker e; _ \<leftarrow> acceptStaged e; ret ?r }"
  have "run_state ?m w = (r, w')"
    using assms(2,3) p c state_names by (simp add: confirmTransition_def peek_def readPending_def)
  moreover have "fst (run_state ?m w) = ?r" by (simp split: prod.splits)
  ultimately show "crOk r \<and> crErr r = None \<and> crSnapshot r = s \<and> settled (dsk w')"
    using cleared [OF assms(1), of ?r w] p(2) by (auto simp: settled_def)
qed

lemma rollbackChoose_cases:
  assumes "tame e" "s \<noteq> []" "run_state (rollbackChoose e arg) w = (r, w')"
  shows "awaiting s (dsk w) \<Longrightarrow> \<exists>snap p. r = Inr (snap, Some p) \<and> reverting s (dsk w')"
    "reverting s (dsk w) \<Longrightarrow> \<exists>snap p. r = Inr (snap, Some p) \<and> w' = w"
    "settled (dsk w) \<Longrightarrow> w' = w \<and> (\<forall>snap p. r = Inr (snap, p) \<longrightarrow> p = None)"
  using assms state_names
  by (auto simp: rollbackChoose_def peek_def readPending_def awaiting_def reverting_def settled_def setPending_def act_tame Let_def
      split: if_splits option.splits)

section \<open>The rollback leaves the marker alone until it removes it\<close>

lemma rollback_marker:
  assumes "good_env e"
  shows "keeps (at M S) (do { _ \<leftarrow> keepRejected e snap; r \<leftarrow> restore e snap True; _ \<leftarrow> dropStaged e; undoLists e ls })"
    "keeps (at M S) (afterRestore e svcs)"
  using assms by auto

section \<open>Races\<close>

datatype verdict = Confirmed | NotConfirmed | Reverted | Lost | Refused | RestoredOld

text \<open>A process: before its locked section; rolling back (what it will clear, and whether a marker was there); or ended.\<close>

datatype job = Timer string | Confirm | Revert "string option" | Rolling string bool | Ended verdict

definition afterStart :: "string \<Rightarrow> pendingApply option \<Rightarrow> job" where
  "afterStart snap r = (case r of None \<Rightarrow> Ended Lost | Some _ \<Rightarrow> Rolling snap True)"

definition afterConfirm :: "confirmResult \<Rightarrow> job" where
  "afterConfirm r = Ended (if crOk r then Confirmed else NotConfirmed)"

definition afterChoose :: "applyError + string \<times> pendingApply option \<Rightarrow> job" where
  "afterChoose r = (case r of Inl _ \<Rightarrow> Ended Refused | Inr (snap, p) \<Rightarrow> Rolling [] (p \<noteq> None))"

inductive race :: "env \<Rightarrow> disk \<times> job list \<Rightarrow> disk \<times> job list \<Rightarrow> bool" for e where
  timer: "i < length js \<Longrightarrow> js ! i = Timer snap \<Longrightarrow> run_state (startRevert e snap) (onDisk d) = (r, w') \<Longrightarrow>
     race e (d, js) (dsk w', js[i := afterStart snap r])"
| confirmed: "i < length js \<Longrightarrow> js ! i = Confirm \<Longrightarrow> run_state (confirmTransition e) (onDisk d) = (r, w') \<Longrightarrow>
     race e (d, js) (dsk w', js[i := afterConfirm r])"
| choose: "i < length js \<Longrightarrow> js ! i = Revert arg \<Longrightarrow> run_state (rollbackChoose e arg) (onDisk d) = (r, w') \<Longrightarrow>
     race e (d, js) (dsk w', js[i := afterChoose r])"
| work: "i < length js \<Longrightarrow> js ! i = Rolling c b \<Longrightarrow> marker d' = marker d \<Longrightarrow> race e (d, js) (d', js)"
| finish: "i < length js \<Longrightarrow> js ! i = Rolling c b \<Longrightarrow> run_state (clearPending e c) (onDisk d) = (u, w') \<Longrightarrow>
     race e (d, js) (dsk w', js[i := Ended (if b then Reverted else RestoredOld)])"

inductive_cases raceE: "race e (d, js) t"

abbreviation races :: "env \<Rightarrow> disk \<times> job list \<Rightarrow> disk \<times> job list \<Rightarrow> bool" where
  "races e \<equiv> (race e)\<^sup>*\<^sup>*"

section \<open>The invariant of a race\<close>

definition rolling :: "job list \<Rightarrow> bool" where
  "rolling js \<longleftrightarrow> (\<exists>c. Rolling c True \<in> set js)"

definition raceInv :: "string \<Rightarrow> disk \<times> job list \<Rightarrow> bool" where
  "raceInv s t \<longleftrightarrow> (case t of (d, js) \<Rightarrow>
     (awaiting s d \<and> \<not> rolling js \<and> Ended Confirmed \<notin> set js \<and> Ended Reverted \<notin> set js
      \<or> reverting s d \<and> rolling js \<and> Ended Confirmed \<notin> set js \<and> Ended Reverted \<notin> set js
      \<or> settled d \<and> (if Ended Confirmed \<in> set js then \<not> rolling js \<and> Ended Reverted \<notin> set js else Ended Reverted \<in> set js))
     \<and> (\<forall>c. Rolling c True \<in> set js \<longrightarrow> c \<in> {[], s}) \<and> (\<forall>c. Rolling c False \<in> set js \<longrightarrow> settled d) \<and> Timer [] \<notin> set js)"

lemma in_update: "i < length js \<Longrightarrow> js ! i \<noteq> j \<Longrightarrow> j \<in> set (js[i := x]) \<longleftrightarrow> j = x \<or> j \<in> set js"
  by (metis in_set_conv_nth length_list_update nth_list_update_eq nth_list_update_neq set_update_memI)

lemma rolling_update: "i < length js \<Longrightarrow> (\<And>c. js ! i \<noteq> Rolling c True) \<Longrightarrow> rolling (js[i := x]) \<longleftrightarrow> (\<exists>c. x = Rolling c True) \<or> rolling js"
  by (auto simp: rolling_def in_update)

lemma apart: "awaiting s d \<Longrightarrow> \<not> reverting s d" "awaiting s d \<Longrightarrow> \<not> settled d" "reverting s d \<Longrightarrow> \<not> settled d"
  using state_names by (auto simp: awaiting_def reverting_def settled_def)

definition fresh :: "job \<Rightarrow> bool" where
  "fresh j \<longleftrightarrow> (case j of Rolling _ _ \<Rightarrow> False | Ended _ \<Rightarrow> False | _ \<Rightarrow> True)"

lemma fresh_update:
  assumes "i < length js" "fresh (js ! i)"
  shows "Ended v \<in> set (js[i := x]) \<longleftrightarrow> x = Ended v \<or> Ended v \<in> set js"
    "Rolling c b \<in> set (js[i := x]) \<longleftrightarrow> x = Rolling c b \<or> Rolling c b \<in> set js"
    "rolling (js[i := x]) \<longleftrightarrow> (\<exists>c. x = Rolling c True) \<or> rolling js"
    "\<not> fresh x \<Longrightarrow> Timer [] \<notin> set js \<Longrightarrow> Timer [] \<notin> set (js[i := x])"
proof -
  have ne: "js ! i \<noteq> Ended v" "js ! i \<noteq> Rolling c b" for v c b using assms(2) by (auto simp: fresh_def)
  show "Ended v \<in> set (js[i := x]) \<longleftrightarrow> x = Ended v \<or> Ended v \<in> set js" by (subst in_update [OF assms(1) ne(1)]) auto
  have rl: "Rolling c b \<in> set (js[i := x]) \<longleftrightarrow> Rolling c b = x \<or> Rolling c b \<in> set js" for c b
    by (rule in_update [OF assms(1) ne(2)])
  show "Rolling c b \<in> set (js[i := x]) \<longleftrightarrow> x = Rolling c b \<or> Rolling c b \<in> set js" by (subst rl) auto
  show "rolling (js[i := x]) \<longleftrightarrow> (\<exists>c. x = Rolling c True) \<or> rolling js" unfolding rolling_def rl by blast
  show "\<not> fresh x \<Longrightarrow> Timer [] \<notin> set js \<Longrightarrow> Timer [] \<notin> set (js[i := x])"
    using set_update_subset_insert [of js i x] by (auto simp: fresh_def)
qed

lemma fresh_job [simp]: "\<not> fresh (Ended v)" "\<not> fresh (Rolling c b)" "fresh (Timer t)" "fresh Confirm" "fresh (Revert a)" "\<not> fresh (afterStart snap r)" "\<not> fresh (afterConfirm cr)"
  "\<not> fresh (afterChoose x)"
  by (auto simp: fresh_def afterStart_def afterConfirm_def afterChoose_def split: option.splits sum.splits prod.splits)

lemma inv_timer:
  assumes e: "tame e" "s \<noteq> []" and i: "i < length js" "js ! i = Timer snap" and r: "run_state (startRevert e snap) (onDisk d) = (r, w')"
    and inv: "raceInv s (d, js)"
  shows "raceInv s (dsk w', js[i := afterStart snap r])"
proof -
  have f: "fresh (js ! i)" by (simp add: i)
  have "snap \<noteq> []" using inv i nth_mem by (fastforce simp: raceInv_def)
  note sc = startRevert_cases [OF e r this, unfolded onDisk_def world.simps]
  show ?thesis
    using inv sc apart [of s d] fresh_update(4) [OF i(1) f]
    by (auto simp: fresh_update(1-3) [OF i(1) f] raceInv_def afterStart_def split: option.splits if_splits)
qed

lemma inv_confirm:
  assumes e: "tame e" "s \<noteq> []" and i: "i < length js" "js ! i = Confirm" and r: "run_state (confirmTransition e) (onDisk d) = (r, w')"
    and inv: "raceInv s (d, js)"
  shows "raceInv s (dsk w', js[i := afterConfirm r])"
proof -
  have f: "fresh (js ! i)" by (simp add: i)
  note sc = confirmTransition_cases [OF e r, unfolded onDisk_def world.simps]
  show ?thesis
    using inv sc apart [of s d] fresh_update(4) [OF i(1) f]
    by (auto simp: fresh_update(1-3) [OF i(1) f] raceInv_def afterConfirm_def noneToConfirm_def split: option.splits if_splits)
qed

lemma inv_choose:
  assumes e: "tame e" "s \<noteq> []" and i: "i < length js" "js ! i = Revert arg" and r: "run_state (rollbackChoose e arg) (onDisk d) = (r, w')"
    and inv: "raceInv s (d, js)"
  shows "raceInv s (dsk w', js[i := afterChoose r])"
proof -
  have f: "fresh (js ! i)" by (simp add: i)
  note sc = rollbackChoose_cases [OF e r, unfolded onDisk_def world.simps]
  show ?thesis
    using inv sc apart [of s d] fresh_update(4) [OF i(1) f]
    by (auto simp: fresh_update(1-3) [OF i(1) f] raceInv_def afterChoose_def split: option.splits if_splits sum.splits prod.splits)
qed

lemma clear_cases:
  assumes "tame e" "s \<noteq> []" "run_state (clearPending e c) (onDisk d) = (u, w')"
  shows "reverting s d \<Longrightarrow> c \<in> {[], s} \<Longrightarrow> settled (dsk w')" "settled d \<Longrightarrow> settled (dsk w')"
  using assms by (auto simp: clearPending_def peek_def readPending_def reverting_def settled_def act_tame onDisk_def split: if_splits)

lemma inv_finish:
  assumes e: "tame e" "s \<noteq> []" and i: "i < length js" "js ! i = Rolling c b" and r: "run_state (clearPending e c) (onDisk d) = (u, w')"
    and inv: "raceInv s (d, js)"
  shows "raceInv s (dsk w', js[i := Ended (if b then Reverted else RestoredOld)])" (is "raceInv s (_, ?js)")
proof -
  define k where "k = (if b then Reverted else RestoredOld)"
  have mem: "Rolling c b \<in> set js" using i nth_mem by metis
  have v: "\<forall>v. Ended v \<in> set (js[i := Ended k]) \<longleftrightarrow> v = k \<or> Ended v \<in> set js"
    using in_update [OF i(1)] i(2) by auto
  have sub: "set (js[i := Ended k]) \<subseteq> insert (Ended k) (set js)" by (rule set_update_subset_insert)
  have rl: "rolling (js[i := Ended k]) \<Longrightarrow> rolling js" "Timer [] \<in> set (js[i := Ended k]) \<Longrightarrow> Timer [] \<in> set js"
    "\<forall>c b. Rolling c b \<in> set (js[i := Ended k]) \<longrightarrow> Rolling c b \<in> set js"
    using sub by (auto simp: rolling_def)
  have st: "settled (dsk w')"
    using inv mem clear_cases [OF e r] by (cases b) (auto simp: raceInv_def rolling_def)
  have b: "b \<Longrightarrow> rolling js \<and> k = Reverted" "\<not> b \<Longrightarrow> settled d \<and> k = RestoredOld"
    using mem inv by (auto simp: rolling_def raceInv_def k_def)
  show ?thesis
    using st inv rl apart [of s d] b v unfolding k_def [symmetric] raceInv_def by (cases b) auto
qed

lemma inv_race:
  assumes "tame e" "s \<noteq> []" "race e (d, js) t" "raceInv s (d, js)"
  shows "raceInv s t"
proof -
  have w: "raceInv s (d', js)" if "marker d' = marker d" for d'
    using that assms(4) by (simp add: raceInv_def awaiting_def reverting_def settled_def)
  from assms(3) show ?thesis
    by (rule raceE) (use w assms(1,2,4) in \<open>blast intro: inv_timer inv_confirm inv_choose inv_finish\<close>)+
qed

lemma inv_races: "races e t t' \<Longrightarrow> tame e \<Longrightarrow> s \<noteq> [] \<Longrightarrow> raceInv s t \<Longrightarrow> raceInv s t'"
proof (induction rule: rtranclp_induct)
  case (step y z)
  then show ?case using inv_race [of e s "fst y" "snd y" z] by simp
qed

lemma inv_start: "awaiting s d \<Longrightarrow> \<forall>j \<in> set js. fresh j \<and> j \<noteq> Timer [] \<Longrightarrow> raceInv s (d, js)"
  by (auto simp: raceInv_def rolling_def)


text \<open>A process that can settle the change of \<open>s\<close>.\<close>

definition settles :: "string \<Rightarrow> job \<Rightarrow> bool" where
  "settles s j \<longleftrightarrow> (case j of Timer t \<Rightarrow> t = s | Confirm \<Rightarrow> True | Revert _ \<Rightarrow> True | _ \<Rightarrow> False)"

lemma still_awaiting:
  assumes e: "tame e" "s \<noteq> []" and st: "race e (d, js) (d', js')" and inv: "raceInv s (d, js)" and a: "awaiting s d'"
  shows "awaiting s d \<and> (\<forall>j \<in> set js. settles s j \<longrightarrow> j \<in> set js')"
proof -
  note ap = apart [of s d'] apart [of s d]
  have keep: "j \<in> set (js[i := x])" if "i < length js" "js ! i \<noteq> j" "j \<in> set js" for i j x
    using in_update [OF that(1,2)] that(3) by blast
  have ph: "awaiting s d \<or> reverting s d \<or> settled d" using inv by (auto simp: raceInv_def)
  from st show ?thesis
  proof (rule raceE)
    fix i snap r w'
    assume h: "(d', js') = (dsk w', js[i := afterStart snap r])" "i < length js" "js ! i = Timer snap"
      "run_state (startRevert e snap) (onDisk d) = (r, w')"
    have "snap \<noteq> []" using inv h nth_mem by (fastforce simp: raceInv_def)
    note sc = startRevert_cases [OF e h(4) this, unfolded onDisk_def world.simps]
    have d: "awaiting s d" "snap \<noteq> s" using ph sc a h(1) ap by (auto split: if_splits)
    then have "\<not> settles s (js ! i)" by (simp add: h(3) settles_def)
    then have "j \<in> set js'" if "j \<in> set js" "settles s j" for j using keep [OF h(2) _ that(1)] that(2) h(1) by auto
    then show ?thesis using d(1) by blast
  next
    fix i r w'
    assume h: "(d', js') = (dsk w', js[i := afterConfirm r])" "i < length js" "js ! i = Confirm"
      "run_state (confirmTransition e) (onDisk d) = (r, w')"
    note confirmTransition_cases [OF e h(4), unfolded onDisk_def world.simps]
    then show ?thesis using ph a h(1) ap by auto
  next
    fix i arg r w'
    assume h: "(d', js') = (dsk w', js[i := afterChoose r])" "i < length js" "js ! i = Revert arg"
      "run_state (rollbackChoose e arg) (onDisk d) = (r, w')"
    note rollbackChoose_cases [OF e h(4), unfolded onDisk_def world.simps]
    then show ?thesis using ph a h(1) ap by auto
  next
    fix i c b d''
    assume "(d', js') = (d'', js)" "marker d'' = marker d"
    then show ?thesis using a by (simp add: awaiting_def)
  next
    fix i c b u w'
    assume h: "(d', js') = (dsk w', js[i := Ended (if b then Reverted else RestoredOld)])" "i < length js" "js ! i = Rolling c b"
      "run_state (clearPending e c) (onDisk d) = (u, w')"
    have mem: "Rolling c b \<in> set js" using h nth_mem by metis
    have "settled (dsk w')" using inv mem clear_cases [OF e h(4)] by (cases b) (auto simp: raceInv_def rolling_def)
    then show ?thesis using a h(1) ap by auto
  qed
qed

lemma awaiting_all:
  assumes "races e (d, js) t'" "tame e" "s \<noteq> []" "raceInv s (d, js)" "awaiting s (fst t')"
  shows "\<forall>j \<in> set js. settles s j \<longrightarrow> j \<in> set (snd t')"
  using assms(1,5)
proof (induction rule: rtranclp_induct)
  case (step y z)
  have "raceInv s (fst y, snd y)" using inv_races [OF step(1) assms(2-4)] by simp
  from still_awaiting [OF assms(2,3) _ this, of "fst z" "snd z"] step show ?case by auto
qed simp

text \<open>
  A race settles the change: when every process has ended and one of them was a confirmation, a rollback or the
  change's own timer, the marker is gone and the change is either confirmed or rolled back.
\<close>

theorem race_settles:
  assumes "tame e" "s \<noteq> []" "awaiting s d" "\<forall>j \<in> set js. fresh j \<and> j \<noteq> Timer []" "races e (d, js) (d', js')"
    "\<forall>j \<in> set js'. \<exists>v. j = Ended v" "j \<in> set js" "settles s j"
  shows "marker d' = NoMarker \<and> (Ended Confirmed \<in> set js' \<longleftrightarrow> Ended Reverted \<notin> set js')"
proof -
  have i0: "raceInv s (d, js)" by (rule inv_start [OF assms(3,4)])
  have inv: "raceInv s (d', js')" using inv_races [OF assms(5,1,2) i0] .
  have nr: "\<not> rolling js'" using assms(6) by (auto simp: rolling_def)
  have "\<not> awaiting s d'"
  proof
    assume "awaiting s d'"
    then have "j \<in> set js'" using awaiting_all [OF assms(5,1,2) i0] assms(7,8) by simp
    then obtain v where "j = Ended v" using assms(6) by blast
    then show False using assms(8) by (simp add: settles_def)
  qed
  then show ?thesis using inv nr by (auto simp: raceInv_def settled_def split: if_splits)
qed

text \<open>A confirmation before the timer.\<close>

definition demo_waiting :: disk where
  "demo_waiting = demo_disk\<lparr>marker := Marker \<lparr>pSnapshot = ''s'', pListSnapshot = [], pState = statePending, pDeadline = 9,
     pVia = ''cli'', pPid = 0, pConfirmHash = []\<rparr>\<rparr>"

lemma demo_awaiting: "awaiting ''s'' demo_waiting" "\<forall>j \<in> set [Timer ''s'', Confirm]. fresh j \<and> j \<noteq> Timer []"
  by (auto simp: awaiting_def demo_waiting_def)

lemma demo_race:
  "\<exists>d'. races (demo_env None) (demo_waiting, [Timer ''s'', Confirm]) (d', [Ended Lost, Ended Confirmed])"
proof -
  let ?e = "demo_env None"
  obtain r w1 where r: "run_state (confirmTransition ?e) (onDisk demo_waiting) = (r, w1)"
    by (cases "run_state (confirmTransition ?e) (onDisk demo_waiting)")
  have c: "crOk r" "settled (dsk w1)"
    using confirmTransition_cases(1) [OF demo_tame(1) _ r, of "''s''"] demo_awaiting(1) by (auto simp: onDisk_def)
  have 1: "race ?e (demo_waiting, [Timer ''s'', Confirm]) (dsk w1, [Timer ''s'', Ended Confirmed])"
    using race.confirmed [of 1 "[Timer ''s'', Confirm]" ?e demo_waiting r w1] r c by (simp add: afterConfirm_def)
  obtain q w2 where q: "run_state (startRevert ?e ''s'') (onDisk (dsk w1)) = (q, w2)"
    by (cases "run_state (startRevert ?e ''s'') (onDisk (dsk w1))")
  have "q = None" using startRevert_cases(3) [OF demo_tame(1) _ q, of "''s''"] c by (simp add: onDisk_def)
  then have 2: "race ?e (dsk w1, [Timer ''s'', Ended Confirmed]) (dsk w2, [Ended Lost, Ended Confirmed])"
    using race.timer [of 0 "[Timer ''s'', Ended Confirmed]" "''s''" ?e "dsk w1" q w2] q by (simp add: afterStart_def)
  show ?thesis using 1 2 by (meson converse_rtranclp_into_rtranclp rtranclp.rtrancl_refl)
qed


theorem race_settles_witness:
  "\<exists>d'. races (demo_env None) (demo_waiting, [Timer ''s'', Confirm]) (d', [Ended Lost, Ended Confirmed]) \<and> marker d' = NoMarker"
proof -
  obtain d' where d': "races (demo_env None) (demo_waiting, [Timer ''s'', Confirm]) (d', [Ended Lost, Ended Confirmed])"
    using demo_race by blast
  have "marker d' = NoMarker" using race_settles [OF demo_tame(1) _ demo_awaiting d', of Confirm] by (simp add: settles_def)
  then show ?thesis using d' by blast
qed

section \<open>\<open>mr rollback\<close> without a pending change\<close>

lemma sorted_last: "sorted xs \<Longrightarrow> x \<in> set xs \<Longrightarrow> x \<le> last xs"
  by (induction xs) (auto split: if_splits)

lemma accepted_name: "Dir acceptedConfig = HistoryDir" "Base acceptedConfig = ''accepted-router.yaml''" "HistoryDir \<noteq> []"
  "''accepted'' \<le> ''accepted-router.yaml''"
  by code_simp+

lemma accepted_listed: "map_of fs acceptedConfig \<noteq> None \<Longrightarrow> ''accepted-router.yaml'' \<in> set (readDir fs HistoryDir)"
  using accepted_name map_of_SomeD by (fastforce simp: readDir_def image_iff)

text \<open>
  C38. Once a config has been accepted, \<open>mr rollback\<close> without a pending change and without an argument never restores the
  latest snapshot: the last entry of the history directory is then not a snapshot, since the records of the accepted
  config sort after every name that begins with a date. The command fails and changes nothing.
\<close>

theorem rollback_latest_fails:
  assumes m: "marker (dsk w) = NoMarker" and acc: "map_of (files (dsk w)) acceptedConfig \<noteq> None"
    and old: "\<forall>n \<in> fst ` set (snaps (dsk w)). n < ''accepted''" "\<forall>n \<in> fst ` set (revs (dsk w)). revFile n < ''accepted''"
  shows "run_state (rollbackCommand e None) w = (Some RestoreFailed, w)"
proof -
  let ?names = "historyEntries (dsk w)"
  have in_names: "''accepted-router.yaml'' \<in> set ?names" using accepted_listed [OF acc] by (simp add: historyEntries_def)
  then have ne: "?names \<noteq> []" by auto
  have "sorted ?names" by (simp add: historyEntries_def)
  then have "''accepted-router.yaml'' \<le> last ?names"
    using in_names by (rule sorted_last)
  then have ge: "''accepted'' \<le> last ?names" using accepted_name(4) by (rule order_trans [rotated])
  have "last ?names \<in> set ?names" using ne by simp
  then have "last ?names \<in> set (readDir (files (dsk w)) HistoryDir)" "last ?names \<notin> fst ` set (snaps (dsk w))"
    using ge old by (auto simp: historyEntries_def)
  then have "Base (JoinP HistoryDir (last ?names)) = last ?names" "map_of (snaps (dsk w)) (last ?names) = None"
    using readDir_no_slash Base_JoinP by (auto simp: map_of_eq_None_iff)
  then show ?thesis using m ne
    by (simp add: rollbackCommand_def rollbackChoose_def rollbackRest_def restore_def peek_def readPending_def Let_def)
qed

theorem rollback_latest_fails_witness:
  "run_state (rollbackCommand (demo_env None) None)
     (onDisk (demo_disk\<lparr>files := [(acceptedConfig, ''x'', 384)], snaps := [(''20260101-120000.tar.gz'', \<lparr>aFiles = [], aList = []\<rparr>)]\<rparr>))
   = (Some RestoreFailed,
      onDisk (demo_disk\<lparr>files := [(acceptedConfig, ''x'', 384)], snaps := [(''20260101-120000.tar.gz'', \<lparr>aFiles = [], aList = []\<rparr>)]\<rparr>))"
proof (rule rollback_latest_fails)
  have "''20260101-120000.tar.gz'' < ''accepted''" by code_simp
  then show "\<forall>n \<in> fst ` set (snaps (dsk (onDisk (demo_disk\<lparr>files := [(acceptedConfig, ''x'', 384)],
      snaps := [(''20260101-120000.tar.gz'', \<lparr>aFiles = [], aList = []\<rparr>)]\<rparr>)))). n < ''accepted''" by (simp add: onDisk_def)
qed (simp_all add: onDisk_def demo_disk_def)

text \<open>A rollback that ends after another change has begun takes that change's marker with it: it clears whatever is there.\<close>

lemma late_rollback_clears:
  assumes "tame e" "run_state (restore e snap True) w = (Some svcs, w1)" "run_state (rollbackRest e snap None) w = (x, w')"
  shows "marker (dsk w') = NoMarker"
proof -
  obtain w2 where s2: "run_state (afterRestore e svcs) w1 = ((), w2)" by (cases "run_state (afterRestore e svcs) w1") simp
  obtain w3 where s3: "run_state (clearPending e []) w2 = ((), w3)" by (cases "run_state (clearPending e []) w2") simp
  let ?E = "do { _ \<leftarrow> appendChangeLog e (''mr rollback: '' @ Base snap); ret (None :: applyError option) }"
  have s4: "run_state ?E w3 = (x, w')" using assms(2,3) s2 s3 by (simp add: rollbackRest_def)
  have m: "marker (dsk w3) = NoMarker" using assms(1) s3 by (auto simp: clearPending_def peek_def act_tame)
  have "keeps (\<lambda>w. marker (dsk w) = NoMarker) ?E" by (intro keeps_bind keeps_return nm_log)
  then show ?thesis using m s4 by (rule keeps_after)
qed

end
