(* ===== verification/Ip_Addr.thy ===== *)
theory Ip_Addr
  imports Mr_Prelude "HOL-Library.Word"
begin

text \<open>
  Addresses and networks, as Go's \<open>net\<close> package has them (\<open>net.ParseIP\<close>, \<open>net.ParseCIDR\<close>, \<open>IP.To4\<close>, \<open>IP.Mask\<close>,
  \<open>IPNet.Contains\<close>, \<open>IP.String\<close> of an IPv4 address), and the functions of mr that read addresses: \<open>parseNet\<close> of
  \<open>mr/api_token.go\<close>, \<open>normalizeRemoteAddr\<close>, \<open>normalizedRemoteIP\<close> and \<open>lanIPv4Host\<close> of \<open>mr/api.go\<close>, \<open>isRouterAddr\<close> of
  \<open>mr/guard.go\<close>.

  An address is its list of bytes, 4 or 16 of them; \<open>net.ParseIP\<close> always gives 16, an IPv4 address in its mapped form.
  Shown: a network contains an address exactly when their first bits agree (\<open>contains_prefix\<close>), and reading back what an
  IPv4 address is written as gives the address (\<open>ipv4_roundtrip\<close>).
\<close>

unbundle bit_operations_syntax

type_synonym bytes = "8 word list"

section \<open>Parsing\<close>

text \<open>One field of a dotted address: 1 to 3 digits, no leading zero, at most 255.\<close>

definition octet :: "string \<Rightarrow> 8 word option" where
  "octet s =
     (if s \<noteq> [] \<and> list_all isDigit s \<and> (hd s = CHR ''0'' \<longrightarrow> s = ''0'') \<and> dec_val 0 s \<le> 255
      then Some (word_of_nat (dec_val 0 s)) else None)"

definition parseIPv4Fields :: "string \<Rightarrow> bytes option" where
  "parseIPv4Fields s =
     (let fs = map octet (SplitByte CHR ''.'' s) in
      if length fs = 4 \<and> None \<notin> set fs then Some (map the fs) else None)"

definition hexDigit :: "char \<Rightarrow> nat option" where
  "hexDigit c =
     (let n = (of_char c :: nat) in
      if 48 \<le> n \<and> n \<le> 57 then Some (n - 48)
      else if 97 \<le> n \<and> n \<le> 102 then Some (n - 87)
      else if 65 \<le> n \<and> n \<le> 70 then Some (n - 55)
      else None)"

text \<open>The hex digits at the start: their number, value and the rest.\<close>

fun hexGroup :: "nat \<Rightarrow> nat \<Rightarrow> string \<Rightarrow> nat \<times> nat \<times> string" where
  "hexGroup off acc [] = (off, acc, [])"
| "hexGroup off acc (c # cs) =
     (case hexDigit c of None \<Rightarrow> (off, acc, c # cs) | Some d \<Rightarrow> hexGroup (Suc off) (acc * 16 + d) cs)"

lemma hexGroup_length: "hexGroup off acc s = (o', a, r) \<Longrightarrow> length r + o' = length s + off"
  by (induction off acc s rule: hexGroup.induct) (auto split: option.splits)

text \<open>The loop over the groups: the bytes so far and where the ellipsis stands. The result: bytes, ellipsis, rest.\<close>

function v6Loop :: "bytes \<Rightarrow> nat option \<Rightarrow> string \<Rightarrow> (bytes \<times> nat option \<times> string) option" where
  "v6Loop ip ell s =
     (if length ip \<ge> 16 then Some (ip, ell, s)
      else (case hexGroup 0 0 s of (off, acc, r) \<Rightarrow>
        if off = 0 \<or> off > 4 then None
        else if r \<noteq> [] \<and> hd r = CHR ''.'' then
          (if ell = None \<and> length ip \<noteq> 12 \<or> length ip + 4 > 16 then None
           else map_option (\<lambda>b. (ip @ b, ell, [])) (parseIPv4Fields s))
        else (let ip' = ip @ [word_of_nat (acc div 256), word_of_nat (acc mod 256)] in
          (case r of
             [] \<Rightarrow> Some (ip', ell, [])
           | c # r1 \<Rightarrow>
               if c \<noteq> CHR '':'' \<or> r1 = [] then None
               else if hd r1 = CHR '':'' then
                 (if ell \<noteq> None then None
                  else if tl r1 = [] then Some (ip', Some (length ip'), [])
                  else v6Loop ip' (Some (length ip')) (tl r1))
               else v6Loop ip' ell r1))))"
  by pat_completeness auto
termination
proof (relation "measure (\<lambda>(ip, ell, s). 16 - length ip)")
qed auto

declare v6Loop.simps [simp del]

definition expand :: "bytes \<Rightarrow> nat option \<Rightarrow> bytes option" where
  "expand ip ell =
     (if length ip < 16
      then (case ell of None \<Rightarrow> None | Some k \<Rightarrow> Some (take k ip @ replicate (16 - length ip) 0 @ drop k ip))
      else if ell \<noteq> None then None else Some ip)"

definition parseIPv6 :: "string \<Rightarrow> bytes option" where
  "parseIPv6 s =
     (if HasPrefix s ''::'' then
        (if drop 2 s = [] then Some (replicate 16 0)
         else (case v6Loop [] (Some 0) (drop 2 s) of Some (ip, ell, []) \<Rightarrow> expand ip ell | _ \<Rightarrow> None))
      else (case v6Loop [] None s of Some (ip, ell, []) \<Rightarrow> expand ip ell | _ \<Rightarrow> None))"

definition v4InV6Prefix :: bytes where
  "v4InV6Prefix = replicate 10 0 @ [255, 255]"

text \<open>The first of \<open>.\<close>, \<open>:\<close> and \<open>%\<close> decides; an address with a zone is no \<open>net.IP\<close>.\<close>

fun firstOf :: "string \<Rightarrow> char option" where
  "firstOf [] = None"
| "firstOf (c # cs) = (if c = CHR ''.'' \<or> c = CHR '':'' \<or> c = CHR ''%'' then Some c else firstOf cs)"

datatype family = Fam4 | Fam6

definition ParseAddr :: "string \<Rightarrow> (family \<times> bytes) option" where
  "ParseAddr s =
     (if firstOf s = Some CHR ''.'' then map_option (\<lambda>b. (Fam4, v4InV6Prefix @ b)) (parseIPv4Fields s)
      else if firstOf s = Some CHR '':'' \<and> CHR ''%'' \<notin> set s then map_option (Pair Fam6) (parseIPv6 s)
      else None)"

definition ParseIP :: "string \<Rightarrow> bytes option" where
  "ParseIP s = map_option snd (ParseAddr s)"

definition To4 :: "bytes \<Rightarrow> bytes option" where
  "To4 ip = (if length ip = 4 then Some ip
             else if length ip = 16 \<and> take 12 ip = v4InV6Prefix then Some (drop 12 ip) else None)"

section \<open>Networks\<close>

text \<open>The byte with its first \<open>n\<close> bits set.\<close>

definition maskByte :: "nat \<Rightarrow> 8 word" where
  "maskByte n = NOT (mask (8 - n))"

definition CIDRMask :: "nat \<Rightarrow> nat \<Rightarrow> bytes" where
  "CIDRMask ones bits = map (\<lambda>i. maskByte (min 8 (ones - 8 * i))) [0 ..< bits div 8]"

record IPNet =
  nIP :: bytes
  nMask :: bytes

definition andBytes :: "bytes \<Rightarrow> bytes \<Rightarrow> bytes" where
  "andBytes a m = map2 (AND) a m"

text \<open>\<open>IP.Mask\<close>: a mask of 4 bytes takes the IPv4 form of the address.\<close>

definition maskIP :: "bytes \<Rightarrow> bytes \<Rightarrow> bytes" where
  "maskIP ip m =
     (let m' = (if length m = 16 \<and> length ip = 4 \<and> take 12 m = replicate 12 255 then drop 12 m else m);
          ip' = (if length m' = 4 \<and> length ip = 16 \<and> take 12 ip = v4InV6Prefix then drop 12 ip else ip)
      in if length ip' = length m' then andBytes ip' m' else [])"

definition dtoi :: "string \<Rightarrow> nat option" where
  "dtoi s = (if s \<noteq> [] \<and> list_all isDigit s \<and> int (dec_val 0 s) < 16777215 then Some (dec_val 0 s) else None)"

definition BitLen :: "family \<Rightarrow> nat" where
  "BitLen f = (case f of Fam4 \<Rightarrow> 32 | Fam6 \<Rightarrow> 128)"

definition ParseCIDR :: "string \<Rightarrow> (bytes \<times> IPNet) option" where
  "ParseCIDR s =
     (case CutByte CHR ''/'' s of (addr, ms, found) \<Rightarrow>
      if \<not> found then None
      else (case (ParseAddr addr, dtoi ms) of
              (Some (f, ip), Some n) \<Rightarrow>
                if n > BitLen f then None
                else (let m = CIDRMask n (BitLen f) in Some (ip, \<lparr>nIP = maskIP ip m, nMask = m\<rparr>))
            | _ \<Rightarrow> None))"

text \<open>\<open>IPNet.Contains\<close>: the network number and mask in their shortest form, then byte by byte.\<close>

definition networkNumberAndMask :: "IPNet \<Rightarrow> (bytes \<times> bytes) option" where
  "networkNumberAndMask n =
     (let ip = (case To4 (nIP n) of Some b \<Rightarrow> b | None \<Rightarrow> nIP n); m = nMask n in
      if length ip \<noteq> 4 \<and> length ip \<noteq> 16 then None
      else if length m = 4 then (if length ip = 4 then Some (ip, m) else None)
      else if length m = 16 then Some (ip, if length ip = 4 then drop 12 m else m)
      else None)"

definition Contains :: "IPNet \<Rightarrow> bytes \<Rightarrow> bool" where
  "Contains n ip =
     (case networkNumberAndMask n of None \<Rightarrow> False
      | Some (nn, m) \<Rightarrow>
          (let x = (case To4 ip of Some b \<Rightarrow> b | None \<Rightarrow> ip) in
           length x = length nn \<and> andBytes nn m = andBytes x m))"

text \<open>\<open>IP.Equal\<close>: an IPv4 address and its mapped form are equal.\<close>

definition Equal :: "bytes \<Rightarrow> bytes \<Rightarrow> bool" where
  "Equal a b =
     (if length a = length b then a = b
      else if length a = 4 \<and> length b = 16 then take 12 b = v4InV6Prefix \<and> a = drop 12 b
      else if length a = 16 \<and> length b = 4 then take 12 a = v4InV6Prefix \<and> drop 12 a = b
      else False)"

text \<open>\<open>IP.String\<close> of four bytes.\<close>

definition String4 :: "bytes \<Rightarrow> string" where
  "String4 b = Join (map (\<lambda>x. Itoa_nat (unat x)) b) ''.''"

text \<open>\<open>IP.String\<close> of 16 bytes: eight groups in hex, the longest run of two or more zero groups left out.\<close>

definition groups :: "bytes \<Rightarrow> nat list" where
  "groups b = map (\<lambda>i. 256 * unat (b ! (2 * i)) + unat (b ! (2 * i + 1))) [0 ..< length b div 2]"

definition hexChar :: "nat \<Rightarrow> char" where
  "hexChar d = (if d < 10 then char_of (48 + d) else char_of (87 + d))"

fun hexNat :: "nat \<Rightarrow> string" where
  "hexNat n = (if n < 16 then [hexChar n] else hexNat (n div 16) @ [hexChar (n mod 16)])"

declare hexNat.simps [simp del]

definition betterRun :: "nat list \<Rightarrow> nat \<Rightarrow> nat \<times> nat \<Rightarrow> nat \<times> nat" where
  "betterRun gs i z = (case z of (zs, ze) \<Rightarrow>
     let j = i + length (takeWhile (\<lambda>g. g = 0) (drop i gs)) in
     if j - i \<ge> 2 \<and> j - i > ze - zs then (i, j) else (zs, ze))"

definition zeroRun :: "nat list \<Rightarrow> nat \<times> nat" where
  "zeroRun gs = fold (betterRun gs) [0 ..< 8] (255, 255)"

definition String6 :: "bytes \<Rightarrow> string" where
  "String6 b =
     (let gs = groups b; hs = map hexNat gs in
      case zeroRun gs of (zs, ze) \<Rightarrow>
        if zs \<ge> 8 then Join hs '':'' else Join (take zs hs) '':'' @ ''::'' @ Join (drop ze hs) '':'')"

definition IPString :: "bytes \<Rightarrow> string" where
  "IPString b = (case To4 b of Some v4 \<Rightarrow> String4 v4 | None \<Rightarrow> String6 b)"

text \<open>\<open>IPNet.String\<close>: the prefix length of a mask of ones followed by zeros, else the mask in hex.\<close>

definition onesOf :: "8 word \<Rightarrow> nat" where
  "onesOf v = length (takeWhile (\<lambda>i. bit v (7 - i)) [0 ..< 8])"

fun simpleMaskLength :: "bytes \<Rightarrow> nat option" where
  "simpleMaskLength [] = Some 0"
| "simpleMaskLength (v # vs) =
     (if v = 255 then map_option ((+) 8) (simpleMaskLength vs)
      else if v = maskByte (onesOf v) \<and> list_all (\<lambda>b. b = 0) vs then Some (onesOf v) else None)"

definition hexString :: "bytes \<Rightarrow> string" where
  "hexString bs = concat (map (\<lambda>b. [hexChar (unat b div 16), hexChar (unat b mod 16)]) bs)"

definition IPNetString :: "IPNet \<Rightarrow> string" where
  "IPNetString n =
     (case networkNumberAndMask n of
        None \<Rightarrow> ''<nil>''
      | Some (nn, m) \<Rightarrow>
          (case simpleMaskLength m of
             None \<Rightarrow> IPString nn @ ''/'' @ hexString m
           | Some l \<Rightarrow> IPString nn @ ''/'' @ Itoa_nat l))"

section \<open>The functions of mr\<close>

definition parseNet :: "string \<Rightarrow> IPNet option" where
  "parseNet s =
     (case ParseCIDR s of
        Some (_, n) \<Rightarrow> Some n
      | None \<Rightarrow>
          (case ParseIP s of
             None \<Rightarrow> None
           | Some ip \<Rightarrow>
               (case To4 ip of
                  Some v4 \<Rightarrow> Some \<lparr>nIP = v4, nMask = CIDRMask 32 32\<rparr>
                | None \<Rightarrow> Some \<lparr>nIP = ip, nMask = CIDRMask 128 128\<rparr>)))"

definition lanIPv4Host :: "string \<Rightarrow> string" where
  "lanIPv4Host cidr =
     (case ParseCIDR cidr of None \<Rightarrow> [] | Some (ip, _) \<Rightarrow> (case To4 ip of None \<Rightarrow> [] | Some v4 \<Rightarrow> String4 v4))"

text \<open>\<open>isRouterAddr\<close> over the addresses of the LAN and the other networks.\<close>

definition isRouterAddr :: "string list \<Rightarrow> string \<Rightarrow> bool" where
  "isRouterAddr cidrs ip =
     (case ParseIP ip of None \<Rightarrow> False
      | Some a \<Rightarrow> (\<exists>cidr \<in> set cidrs. case ParseCIDR cidr of None \<Rightarrow> False | Some (r, _) \<Rightarrow> Equal r a))"

text \<open>The position of the last \<open>c\<close>, and \<open>REMOTE_ADDR\<close> without brackets, with its zone apart.\<close>

definition lastIndexByte :: "char \<Rightarrow> string \<Rightarrow> nat option" where
  "lastIndexByte c s =
     (if c \<in> set s then Some (length s - 1 - length (takeWhile (\<lambda>x. x \<noteq> c) (rev s))) else None)"

definition unbracket :: "string \<Rightarrow> string" where
  "unbracket s =
     (if HasPrefix s ''['' then
        (case lastIndexByte CHR '']'' s of Some e \<Rightarrow> if e > 0 then drop 1 (take e s) @ drop (e + 1) s else s | None \<Rightarrow> s)
      else s)"

definition splitZone :: "string \<Rightarrow> string \<times> string" where
  "splitZone s = (case lastIndexByte CHR ''%'' s of Some i \<Rightarrow> (take i s, drop i s) | None \<Rightarrow> (s, []))"

definition normalizeRemoteAddr :: "string \<Rightarrow> string" where
  "normalizeRemoteAddr raw =
     (case splitZone (unbracket (TrimSpace raw)) of (s, zone) \<Rightarrow>
      (case ParseIP s of
         None \<Rightarrow> s @ zone
       | Some ip \<Rightarrow> (case To4 ip of Some v4 \<Rightarrow> String4 v4 | None \<Rightarrow> String6 ip @ zone)))"

definition normalizedRemoteIP :: "string \<Rightarrow> bytes option" where
  "normalizedRemoteIP remote = ParseIP (fst (CutByte CHR ''%'' (normalizeRemoteAddr remote)))"

text \<open>The source an attempt counts against: the IPv4 address, or the /64 of an IPv6 address.\<close>

definition loginKey :: "string \<Rightarrow> string" where
  "loginKey remote =
     (case normalizedRemoteIP remote of
        None \<Rightarrow> ''unknown''
      | Some ip \<Rightarrow>
          (case To4 ip of
             Some v4 \<Rightarrow> String4 v4
           | None \<Rightarrow> (let m = CIDRMask 64 128 in IPNetString \<lparr>nIP = maskIP ip m, nMask = m\<rparr>)))"

section \<open>Prefixes\<close>

definition bits8 :: "8 word \<Rightarrow> bool list" where
  "bits8 b = map (\<lambda>i. bit b (7 - i)) [0 ..< 8]"

definition bits_of :: "bytes \<Rightarrow> bool list" where
  "bits_of bs = concat (map bits8 bs)"

lemma length_bits8 [simp]: "length (bits8 b) = 8"
  by (simp add: bits8_def)

lemma masked_byte_eq:
  assumes "m \<le> 8"
  shows "a AND maskByte m = b AND maskByte m \<longleftrightarrow> take m (bits8 a) = take m (bits8 b)"
proof -
  have "a AND maskByte m = b AND maskByte m \<longleftrightarrow> (\<forall>i < 8. 8 - m \<le> i \<longrightarrow> bit a i = bit b i)"
    unfolding bit_eq_iff by (auto simp: maskByte_def bit_simps)
  also have "\<dots> \<longleftrightarrow> (\<forall>i < m. bit a (7 - i) = bit b (7 - i))"
  proof safe
    fix i assume h: "\<forall>i < 8. 8 - m \<le> i \<longrightarrow> bit a i = bit b i" "i < m"
    have "7 - i < 8" "8 - m \<le> 7 - i" using h(2) assms by auto
    then show "bit a (7 - i) \<Longrightarrow> bit b (7 - i)" "bit b (7 - i) \<Longrightarrow> bit a (7 - i)" using h(1) by blast+
  next
    fix i assume h: "\<forall>i < m. bit a (7 - i) = bit b (7 - i)" "i < 8" "8 - m \<le> i"
    have "7 - i < m" "7 - (7 - i) = i" using h(2,3) assms by auto
    then show "bit a i \<Longrightarrow> bit b i" "bit b i \<Longrightarrow> bit a i" using h(1) by metis+
  qed
  also have "\<dots> \<longleftrightarrow> take m (bits8 a) = take m (bits8 b)"
    using assms by (auto simp: bits8_def take_map list_eq_iff_nth_eq min_def)
  finally show ?thesis .
qed

lemma CIDRMask_Suc: "CIDRMask k (8 * Suc n) = maskByte (min 8 k) # CIDRMask (k - 8) (8 * n)"
proof -
  have "[0 ..< Suc n] = 0 # map Suc [0 ..< n]" by (simp only: map_Suc_upt upt_conv_Cons zero_less_Suc)
  then show ?thesis by (simp add: CIDRMask_def del: upt_Suc)
qed

lemma length_CIDRMask [simp]: "length (CIDRMask k (8 * n)) = n"
  by (simp add: CIDRMask_def)

lemma masked_eq:
  "length a = n \<Longrightarrow> length b = n \<Longrightarrow>
   andBytes a (CIDRMask k (8 * n)) = andBytes b (CIDRMask k (8 * n)) \<longleftrightarrow> take k (bits_of a) = take k (bits_of b)"
proof (induction n arbitrary: a b k)
  case 0
  then show ?case by simp
next
  case (Suc n)
  obtain x xs y ys where a: "a = x # xs" "b = y # ys" using Suc.prems by (metis length_Suc_conv)
  have "andBytes a (CIDRMask k (8 * Suc n)) = andBytes b (CIDRMask k (8 * Suc n)) \<longleftrightarrow>
      x AND maskByte (min 8 k) = y AND maskByte (min 8 k) \<and> andBytes xs (CIDRMask (k - 8) (8 * n)) = andBytes ys (CIDRMask (k - 8) (8 * n))"
    by (simp only: CIDRMask_Suc a andBytes_def) simp
  also have "\<dots> \<longleftrightarrow> take (min 8 k) (bits8 x) = take (min 8 k) (bits8 y) \<and> take (k - 8) (bits_of xs) = take (k - 8) (bits_of ys)"
    using Suc by (simp add: a masked_byte_eq)
  also have "\<dots> \<longleftrightarrow> take k (bits_of a) = take k (bits_of b)"
    by (cases "k \<le> 8") (auto simp: a bits_of_def min_def)
  finally show ?case .
qed

lemma andBytes_idem: "length a = length m \<Longrightarrow> andBytes (andBytes a m) m = andBytes a m"
  by (induction a m rule: list_induct2) (auto simp: andBytes_def word_bw_assocs)

lemma length_andBytes [simp]: "length (andBytes a m) = min (length a) (length m)"
  by (simp add: andBytes_def)

lemma parse4_length: "parseIPv4Fields s = Some b \<Longrightarrow> length b = 4"
  by (auto simp: parseIPv4Fields_def Let_def split: if_splits)

lemma v6Loop_length:
  "v6Loop ip ell s = Some (ip', ell', r) \<Longrightarrow> even (length ip) \<Longrightarrow> length ip \<le> 16 \<Longrightarrow> length ip' \<le> 16"
proof (induction ip ell s rule: v6Loop.induct)
  case (1 ip ell s)
  obtain off acc rs where h: "hexGroup 0 0 s = (off, acc, rs)" by (cases "hexGroup 0 0 s")
  define ip1 where "ip1 = ip @ [word_of_nat (acc div 256), word_of_nat (acc mod 256) :: 8 word]"
  show ?case
  proof (cases "length ip \<ge> 16")
    case True
    then show ?thesis using 1(3,5) by (simp add: v6Loop.simps)
  next
    case False
    then have l1: "even (length ip1)" "length ip1 \<le> 16" using 1(4) by (auto simp: ip1_def elim!: evenE)
    have st: "(if off = 0 \<or> off > 4 then None
        else if rs \<noteq> [] \<and> hd rs = CHR ''.'' then
          (if ell = None \<and> length ip \<noteq> 12 \<or> length ip + 4 > 16 then None
           else map_option (\<lambda>b. (ip @ b, ell, [])) (parseIPv4Fields s))
        else (case rs of
             [] \<Rightarrow> Some (ip1, ell, [])
           | c # r1 \<Rightarrow>
               if c \<noteq> CHR '':'' \<or> r1 = [] then None
               else if hd r1 = CHR '':'' then
                 (if ell \<noteq> None then None
                  else if tl r1 = [] then Some (ip1, Some (length ip1), [])
                  else v6Loop ip1 (Some (length ip1)) (tl r1))
               else v6Loop ip1 ell r1)) = Some (ip', ell', r)"
      using 1(3) False by (subst (asm) v6Loop.simps) (simp only: h prod.case if_False ip1_def Let_def)
    note IH = 1(1,2) [OF False h [symmetric] refl, folded ip1_def]
    show ?thesis
      using st l1 parse4_length IH False
      by (auto simp: Let_def ip1_def split: if_splits list.splits)
  qed
qed

lemma expand_length: "expand ip ell = Some b \<Longrightarrow> length ip \<le> 16 \<Longrightarrow> length b = 16"
  by (auto simp: expand_def split: if_splits option.splits)

lemma parse6_length: "parseIPv6 s = Some b \<Longrightarrow> length b = 16"
  by (auto simp: parseIPv6_def split: if_splits option.splits list.splits
      dest!: expand_length dest: v6Loop_length)

lemma ParseAddr_length: "ParseAddr s = Some (f, b) \<Longrightarrow> length b = 16"
  by (auto simp: ParseAddr_def v4InV6Prefix_def split: if_splits dest: parse4_length parse6_length)

lemma ParseAddr_v4: "ParseAddr s = Some (Fam4, b) \<Longrightarrow> take 12 b = v4InV6Prefix"
  by (auto simp: ParseAddr_def v4InV6Prefix_def split: if_splits)

lemma byte_all_ones: "(255 :: 8 word) = - 1"
  by simp

lemma and_full: "a AND m = (255 :: 8 word) \<Longrightarrow> m = 255"
  unfolding byte_all_ones by (auto simp: bit_eq_iff bit_simps)

lemma maskByte_full: "j \<le> 8 \<Longrightarrow> maskByte j = 255 \<Longrightarrow> j = 8"
proof (rule ccontr)
  assume j: "j \<le> 8" "maskByte j = 255" "j \<noteq> 8"
  have "\<not> bit (maskByte j) 0" using j(1,3) by (simp add: maskByte_def bit_not_iff bit_mask_iff)
  then show False unfolding j(2) byte_all_ones by simp
qed

lemma maskByte_8: "maskByte 8 = 255"
  by (simp add: maskByte_def)

lemma mapped_by_mask:
  assumes l: "length a = 16" "length x = 16" and m: "m = CIDRMask k 128" and e: "andBytes a m = andBytes x m"
    and p: "take 12 (andBytes a m) = v4InV6Prefix"
  shows "take 12 x = v4InV6Prefix"
proof -
  have lm: "length m = 16" using m length_CIDRMask [of k 16] by simp
  have nth: "andBytes b m ! i = b ! i AND m ! i" if "length b = 16" "i < 16" for b i using that lm by (simp add: andBytes_def)
  have mi: "m ! i = maskByte (min 8 (k - 8 * i))" if "i < 16" for i using that by (simp add: m CIDRMask_def)
  have "take 12 (andBytes a m) ! 11 = v4InV6Prefix ! 11" using p by simp
  then have "andBytes a m ! 11 = v4InV6Prefix ! 11" by simp
  then have "m ! 11 = 255" using nth [OF l(1), of 11] and_full by (simp add: v4InV6Prefix_def nth_append)
  then have "min 8 (k - 88) = 8" using mi [of 11] maskByte_full [of "min 8 (k - 88)"] by simp
  then have "k \<ge> 96" by simp
  then have full: "m ! i = 255" if "i < 12" for i using mi [of i] that maskByte_8 by (simp add: min_absorb1)
  show ?thesis
  proof (rule nth_equalityI)
    show "length (take 12 x) = length v4InV6Prefix" using l by (simp add: v4InV6Prefix_def)
    fix i assume "i < length (take 12 x)"
    then have i: "i < 12" using l by simp
    have "x ! i = x ! i AND m ! i" unfolding full [OF i] byte_all_ones by simp
    also have "\<dots> = andBytes a m ! i" using nth [OF l(2), of i] i e by simp
    also have "\<dots> = take 12 (andBytes a m) ! i" using i by simp
    finally show "take 12 x ! i = v4InV6Prefix ! i" using i p by simp
  qed
qed

lemma CutByte_at: "c \<notin> set a \<Longrightarrow> CutByte c (a @ c # b) = (a, b, True)"
  by (induction a) auto

text \<open>
  A network contains an address exactly when their first bits agree: for the text of an address and a prefix length
  \<open>k\<close>, an IPv4 network contains an address iff the address is IPv4 (also in its mapped form) and shares the first \<open>k\<close> bits
  of the network's address; an IPv6 network contains an IPv6 address iff the two share their first \<open>k\<close> bits.
\<close>

theorem contains_prefix:
  assumes p: "ParseAddr addr = Some (f, a)" "CHR ''/'' \<notin> set addr" and k: "dtoi ms = Some k" "k \<le> BitLen f"
    and x: "length x = 16" "f = Fam6 \<Longrightarrow> To4 x = None"
  shows "\<exists>n. parseNet (addr @ ''/'' @ ms) = Some n \<and> (Contains n x \<longleftrightarrow>
     (if f = Fam4 then \<exists>x4. To4 x = Some x4 \<and> take k (bits_of x4) = take k (bits_of (drop 12 a))
      else take k (bits_of x) = take k (bits_of a)))"
proof -
  let ?m = "CIDRMask k (BitLen f)"
  let ?n = "\<lparr>nIP = maskIP a ?m, nMask = ?m\<rparr>"
  have la: "length a = 16" by (rule ParseAddr_length [OF p(1)])
  have pn: "parseNet (addr @ ''/'' @ ms) = Some ?n"
    using p k CutByte_at [OF p(2), of ms] by (simp add: parseNet_def ParseCIDR_def Let_def)
  show ?thesis
  proof (cases f)
    case Fam4
    let ?a4 = "drop 12 a"
    have m: "?m = CIDRMask k (8 * 4)" "length ?m = 4" using length_CIDRMask [of k 4] by (simp_all add: Fam4 BitLen_def)
    have mi: "maskIP a ?m = andBytes ?a4 ?m"
      using la m(2) ParseAddr_v4 [of addr a] p(1) Fam4 by (simp add: maskIP_def Let_def)
    have nn: "networkNumberAndMask ?n = Some (andBytes ?a4 ?m, ?m)"
      using la m(2) by (simp add: networkNumberAndMask_def mi To4_def Let_def)
    have eq: "andBytes (andBytes ?a4 ?m) ?m = andBytes x4 ?m \<longleftrightarrow> take k (bits_of x4) = take k (bits_of ?a4)" if "length x4 = 4" for x4
      using that la masked_eq [of ?a4 4 x4 k] andBytes_idem [of ?a4 ?m] m by auto
    have l4: "length x4 = 4" if "To4 x = Some x4" for x4 using that x(1) by (auto simp: To4_def split: if_splits)
    have "Contains ?n x \<longleftrightarrow> (\<exists>x4. To4 x = Some x4 \<and> take k (bits_of x4) = take k (bits_of ?a4))"
      using la m(2) x(1) eq l4 by (cases "To4 x") (auto simp: Contains_def nn)
    then show ?thesis using pn Fam4 by simp
  next
    case Fam6
    have m: "?m = CIDRMask k (8 * 16)" "length ?m = 16" using length_CIDRMask [of k 16] by (simp_all add: Fam6 BitLen_def)
    have mi: "maskIP a ?m = andBytes a ?m" using la m(2) by (simp add: maskIP_def Let_def)
    have x6: "To4 x = None" using x(2) Fam6 by simp
    have eq: "andBytes (andBytes a ?m) ?m = andBytes x ?m \<longleftrightarrow> take k (bits_of x) = take k (bits_of a)"
      using la x(1) masked_eq [of a 16 x k] andBytes_idem [of a ?m] m by auto
    have "Contains ?n x \<longleftrightarrow> take k (bits_of x) = take k (bits_of a)"
    proof (cases "To4 (andBytes a ?m)")
      case None
      then have "networkNumberAndMask ?n = Some (andBytes a ?m, ?m)"
        using la m(2) by (simp add: networkNumberAndMask_def mi Let_def)
      then show ?thesis using la m(2) x(1) eq x6 by (simp add: Contains_def)
    next
      case (Some b)
      then have t: "take 12 (andBytes a ?m) = v4InV6Prefix" "length b = 4" using la m(2) by (auto simp: To4_def split: if_splits)
      then have "networkNumberAndMask ?n = Some (b, drop 12 ?m)"
        using m(2) Some by (simp add: networkNumberAndMask_def mi Let_def)
      then have "\<not> Contains ?n x" using x6 x(1) t(2) by (simp add: Contains_def)
      moreover have "andBytes a ?m \<noteq> andBytes x ?m"
        using mapped_by_mask [OF la x(1) _ _ t(1)] x6 x(1) m by (auto simp: To4_def)
      moreover have "andBytes a ?m = andBytes x ?m \<longleftrightarrow> take k (bits_of x) = take k (bits_of a)"
        using la x(1) masked_eq [of a 16 x k] m by auto
      ultimately show ?thesis by simp
    qed
    then show ?thesis using pn Fam6 by simp
  qed
qed

theorem contains_prefix_witness:
  "\<exists>n x. parseNet (''10.20.0.0'' @ ''/'' @ ''12'') = Some n \<and> ParseIP ''10.31.0.1'' = Some x \<and> Contains n x"
proof -
  have a: "ParseAddr ''10.20.0.0'' = Some (Fam4, v4InV6Prefix @ [10, 20, 0, 0])" by code_simp
  have x: "ParseIP ''10.31.0.1'' = Some (v4InV6Prefix @ [10, 31, 0, 1])" by code_simp
  have k: "dtoi ''12'' = Some 12" "(12::nat) \<le> BitLen Fam4" by (simp_all add: dtoi_def isDigit_def BitLen_def)
  have t: "To4 (v4InV6Prefix @ [10, 31, 0, 1]) = Some [10, 31, 0, 1]" "length (v4InV6Prefix @ [10, 31, 0, 1 :: 8 word]) = 16" by code_simp+
  have b: "take 12 (bits_of [10, 31, 0, 1]) = take 12 (bits_of (drop 12 (v4InV6Prefix @ [10, 20, 0, 0])))" by code_simp
  show ?thesis using contains_prefix [OF a _ k t(2)] t(1) b x by auto
qed

section \<open>Writing addresses\<close>

lemma SplitByte_Join: "ps \<noteq> [] \<Longrightarrow> \<forall>p \<in> set ps. c \<notin> set p \<Longrightarrow> SplitByte c (Join ps [c]) = ps"
proof (induction ps rule: induct_list012)
  case (2 p)
  have "SplitByte c p = [p]" if "c \<notin> set p" for p using that by (induction p) auto
  then show ?case using 2 by simp
next
  case (3 p q ps)
  have "SplitByte c (p @ c # r) = p # SplitByte c r" if "c \<notin> set p" for p r using that by (induction p) auto
  then show ?case using 3 by simp
qed simp

lemma Itoa_hd: "n > 0 \<Longrightarrow> hd (Itoa_nat n) \<noteq> CHR ''0''"
proof (induction n rule: Itoa_nat.induct)
  case (1 n)
  show ?case
  proof (cases "n < 10")
    case True
    then have "(of_char (char_of (48 + n) :: char) :: nat) = 48 + n" by simp
    then show ?thesis using True 1(2) by (subst Itoa_nat.simps) (auto simp del: of_char_of dest!: arg_cong [of _ _ "of_char :: char \<Rightarrow> nat"])
  next
    case False
    then have "hd (Itoa_nat n) = hd (Itoa_nat (n div 10))" using Itoa_nat_digits [of "n div 10"] by (subst Itoa_nat.simps) simp
    then show ?thesis using 1(1) False by simp
  qed
qed

lemma octet_Itoa: "octet (Itoa_nat (unat b)) = Some b"
proof -
  have "unat b < 256" using unsigned_less [of b] by simp
  moreover have "unat b = 0 \<Longrightarrow> Itoa_nat (unat b) = ''0''" by (simp add: Itoa_nat.simps) code_simp
  ultimately show ?thesis
    using Itoa_hd [of "unat b"] Itoa_nat_digits [of "unat b"] dec_val_Itoa_nat [of "unat b"]
    by (cases "unat b = 0") (simp_all add: octet_def isDigit_def unat_eq_zero)
qed

lemma digits_no_dot: "list_all isDigit s \<Longrightarrow> CHR ''.'' \<notin> set s" "list_all isDigit s \<Longrightarrow> CHR '':'' \<notin> set s" "list_all isDigit s \<Longrightarrow> CHR ''%'' \<notin> set s"
  by (auto simp: list_all_iff isDigit_def)

lemma parse_String4:
  assumes "length b = 4"
  shows "parseIPv4Fields (String4 b) = Some b"
proof -
  let ?ps = "map (\<lambda>x. Itoa_nat (unat x)) b"
  have "?ps \<noteq> []" using assms by auto
  moreover have "\<forall>p \<in> set ?ps. CHR ''.'' \<notin> set p" using Itoa_nat_digits digits_no_dot(1) by auto
  ultimately have "SplitByte CHR ''.'' (String4 b) = ?ps" unfolding String4_def by (rule SplitByte_Join)
  then show ?thesis using assms by (simp add: parseIPv4Fields_def Let_def comp_def octet_Itoa image_iff)
qed

lemma firstOf_append: "\<forall>c \<in> set p. c \<noteq> CHR ''.'' \<and> c \<noteq> CHR '':'' \<and> c \<noteq> CHR ''%'' \<Longrightarrow> firstOf (p @ r) = firstOf r"
  by (induction p) auto

lemma firstOf_String4: "length b = 4 \<Longrightarrow> firstOf (String4 b) = Some CHR ''.''"
proof -
  assume "length b = 4"
  then obtain x y z u where b: "b = [x, y, z, u]" by (auto simp: numeral_eq_Suc length_Suc_conv)
  have "\<forall>c \<in> set (Itoa_nat (unat x)). c \<noteq> CHR ''.'' \<and> c \<noteq> CHR '':'' \<and> c \<noteq> CHR ''%''"
    using Itoa_nat_digits [of "unat x"] digits_no_dot by auto
  then show ?thesis by (simp add: b String4_def firstOf_append)
qed

text \<open>
  C0. An IPv4 address survives being written and read: \<open>net.ParseIP\<close> of its dotted form is the same address, in its mapped
  form, and taking the four bytes out gives back the address.
\<close>

theorem ipv4_roundtrip:
  assumes "length b = 4"
  shows "ParseIP (String4 b) = Some (v4InV6Prefix @ b) \<and> To4 (v4InV6Prefix @ b) = Some b"
proof -
  have "length v4InV6Prefix = 12" by (simp add: v4InV6Prefix_def)
  then show ?thesis using assms
    by (simp add: ParseIP_def ParseAddr_def firstOf_String4 parse_String4 To4_def)
qed

theorem ipv4_roundtrip_witness: "ParseIP (String4 [192, 168, 1, 254]) = Some (v4InV6Prefix @ [192, 168, 1, 254])"
  using ipv4_roundtrip [of "[192, 168, 1, 254]"] by simp

lemma zeroRun_ok:
  assumes "length gs = 8" "zeroRun gs = (zs, ze)" "zs < 8"
  shows "zs < ze" "ze \<le> 8" "\<forall>i. zs \<le> i \<and> i < ze \<longrightarrow> gs ! i = 0"
proof -
  let ?ok = "\<lambda>z. case z of (zs, ze) \<Rightarrow> zs \<ge> 8 \<or> zs < ze \<and> ze \<le> 8 \<and> (\<forall>i. zs \<le> i \<and> i < ze \<longrightarrow> gs ! i = 0)"
  have step: "?ok (betterRun gs i z)" if "?ok z" "i < 8" for i z
  proof -
    let ?t = "takeWhile (\<lambda>g. g = 0) (drop i gs)"
    have "gs ! k = 0" if "i \<le> k" "k < i + length ?t" for k
    proof -
      have "k - i < length ?t" using that by simp
      then have "?t ! (k - i) = 0" by (metis (mono_tags, lifting) nth_mem set_takeWhileD)
      then show ?thesis using takeWhile_nth [OF \<open>k - i < length ?t\<close>] that \<open>i < 8\<close> assms(1) by simp
    qed
    moreover have "i + length ?t \<le> 8" using length_takeWhile_le [of "\<lambda>g. g = 0" "drop i gs"] \<open>i < 8\<close> assms(1) by simp
    ultimately show ?thesis using that by (auto simp: betterRun_def Let_def split: prod.splits)
  qed
  have "?ok (fold (betterRun gs) is z)" if "?ok z" "\<forall>i \<in> set is. i < 8" for "is" z
    using that by (induction "is" arbitrary: z) (use step in auto)
  from this [of "(255, 255)" "[0 ..< 8]"] have "?ok (zeroRun gs)" by (simp add: zeroRun_def)
  then show "zs < ze" "ze \<le> 8" "\<forall>i. zs \<le> i \<and> i < ze \<longrightarrow> gs ! i = 0" using assms by auto
qed

lemma hexDigit_hexChar: "d < 16 \<Longrightarrow> hexDigit (hexChar d) = Some d"
  by (auto simp: hexDigit_def hexChar_def Let_def)

lemma hexGroup_append: "hexGroup off acc (hexNat n @ r) = hexGroup (off + length (hexNat n)) (acc * 16 ^ length (hexNat n) + n) r"
proof (induction n arbitrary: off acc r rule: hexNat.induct)
  case (1 n)
  show ?case
  proof (cases "n < 16")
    case True
    then show ?thesis by (simp add: hexNat.simps [of n] hexDigit_hexChar)
  next
    case False
    have "hexGroup off acc (hexNat n @ r) = hexGroup off acc (hexNat (n div 16) @ hexChar (n mod 16) # r)"
      using False by (simp add: hexNat.simps [of n])
    also have "\<dots> = hexGroup (off + length (hexNat (n div 16))) (acc * 16 ^ length (hexNat (n div 16)) + n div 16) (hexChar (n mod 16) # r)"
      using 1 False by simp
    also have "\<dots> = hexGroup (off + length (hexNat n)) (acc * 16 ^ length (hexNat n) + n) r"
      using False by (simp add: hexDigit_hexChar hexNat.simps [of n] algebra_simps)
    finally show ?thesis .
  qed
qed

lemma hexNat_length: "n < 16 ^ k \<Longrightarrow> k > 0 \<Longrightarrow> length (hexNat n) \<le> k \<and> length (hexNat n) > 0"
proof (induction n arbitrary: k rule: hexNat.induct)
  case (1 n)
  show ?case
  proof (cases "n < 16")
    case True
    then show ?thesis using 1(3) by (simp add: hexNat.simps [of n])
  next
    case False
    then obtain j where k: "k = Suc j" "j > 0" using 1(2,3) by (cases k; cases "k - 1") auto
    then have "n div 16 < 16 ^ j" using 1(2) by (simp add: less_mult_imp_div_less mult.commute)
    then show ?thesis using 1(1) [OF False, of j] k False by (simp add: hexNat.simps [of n])
  qed
qed


definition gbytes :: "nat \<Rightarrow> bytes" where
  "gbytes g = [word_of_nat (g div 256), word_of_nat (g mod 256)]"

definition hexes :: "nat list \<Rightarrow> string" where
  "hexes gs = Join (map hexNat gs) '':''"

lemma hexes_Nil [simp]: "hexes [] = []"
  by (simp add: hexes_def)

lemma length_gbytes [simp]: "length (concat (map gbytes gs)) = 2 * length gs"
  by (induction gs) (auto simp: gbytes_def)

lemma hexNat_not_Nil [simp]: "hexNat n \<noteq> []"
  by (subst hexNat.simps) simp

lemma hexNat_chars: "c \<in> set (hexNat n) \<Longrightarrow> hexDigit c \<noteq> None"
  by (induction n rule: hexNat.induct) (subst (asm) (2) hexNat.simps, auto simp: hexDigit_hexChar split: if_splits)

lemma hexDigit_sep [simp]: "hexDigit CHR '':'' = None" "hexDigit CHR ''.'' = None" "hexDigit CHR ''%'' = None"
  by (simp_all add: hexDigit_def)

lemma hd_hexNat: "hd (hexNat n) \<noteq> CHR '':''"
  using hexNat_chars [OF hd_in_set [OF hexNat_not_Nil], of n] by auto

lemma hexes_Cons: "hexes (g # gs) = hexNat g @ (if gs = [] then [] else CHR '':'' # hexes gs)"
  by (cases gs) (auto simp: hexes_def)

lemma hexes_hd: "gs \<noteq> [] \<Longrightarrow> hexes gs \<noteq> [] \<and> hd (hexes gs) \<noteq> CHR '':''"
  by (cases gs) (auto simp: hexes_Cons hd_hexNat)

lemma hexGroup_hexNat:
  assumes "r = [] \<or> hd r = CHR '':''"
  shows "hexGroup 0 0 (hexNat g @ r) = (length (hexNat g), g, r)"
  using assms hexGroup_append [of 0 0 g r] by (cases r) auto

text \<open>One group of the loop, with what follows it.\<close>

lemma v6Loop_group:
  assumes g: "g < 65536" and l: "length ip < 16"
  shows "v6Loop ip ell (hexNat g) = Some (ip @ gbytes g, ell, [])"
    and "t \<noteq> [] \<Longrightarrow> hd t \<noteq> CHR '':'' \<Longrightarrow> v6Loop ip ell (hexNat g @ CHR '':'' # t) = v6Loop (ip @ gbytes g) ell t"
    and "v6Loop ip None (hexNat g @ ''::'') = Some (ip @ gbytes g, Some (length ip + 2), [])"
    and "t \<noteq> [] \<Longrightarrow> v6Loop ip None (hexNat g @ ''::'' @ t) = v6Loop (ip @ gbytes g) (Some (length ip + 2)) t"
proof -
  have n: "length (hexNat g) \<le> 4" "\<not> length (hexNat g) > 4" using hexNat_length [of g 4] g by auto
  note step = v6Loop.simps [of ip] hexGroup_hexNat [of _ g] hexGroup_hexNat [of "[]" g, simplified]
  show "v6Loop ip ell (hexNat g) = Some (ip @ gbytes g, ell, [])"
    using l n by (simp add: step gbytes_def)
  show "t \<noteq> [] \<Longrightarrow> hd t \<noteq> CHR '':'' \<Longrightarrow> v6Loop ip ell (hexNat g @ CHR '':'' # t) = v6Loop (ip @ gbytes g) ell t"
    using l n by (simp add: step gbytes_def)
  show "v6Loop ip None (hexNat g @ ''::'') = Some (ip @ gbytes g, Some (length ip + 2), [])"
    using l n by (simp add: step gbytes_def)
  show "t \<noteq> [] \<Longrightarrow> v6Loop ip None (hexNat g @ ''::'' @ t) = v6Loop (ip @ gbytes g) (Some (length ip + 2)) t"
    using l n by (simp add: step gbytes_def)
qed

lemma v6Loop_hexes:
  "gs \<noteq> [] \<Longrightarrow> \<forall>g \<in> set gs. g < 65536 \<Longrightarrow> length ip + 2 * length gs \<le> 16 \<Longrightarrow>
     v6Loop ip ell (hexes gs) = Some (ip @ concat (map gbytes gs), ell, [])"
proof (induction gs arbitrary: ip)
  case (Cons g gs)
  have g: "g < 65536" "length ip < 16" using Cons.prems by auto
  show ?case
  proof (cases "gs = []")
    case True
    then show ?thesis using v6Loop_group(1) [OF g] by (simp add: hexes_Cons)
  next
    case False
    have "length (ip @ gbytes g) + 2 * length gs \<le> 16" using Cons.prems by (simp add: gbytes_def)
    then show ?thesis
      using Cons.IH [OF False, of "ip @ gbytes g"] Cons.prems v6Loop_group(2) [OF g, of "hexes gs" ell] hexes_hd [OF False] False
      by (simp add: hexes_Cons)
  qed
qed simp

lemma v6Loop_ellipsis:
  "gs \<noteq> [] \<Longrightarrow> \<forall>g \<in> set gs \<union> set hs. g < 65536 \<Longrightarrow> length ip + 2 * length gs + 2 * length hs \<le> 16 \<Longrightarrow>
     v6Loop ip None (hexes gs @ ''::'' @ hexes hs) =
       Some (ip @ concat (map gbytes gs) @ concat (map gbytes hs), Some (length ip + 2 * length gs), [])"
proof (induction gs arbitrary: ip)
  case (Cons g gs)
  have g: "g < 65536" "length ip < 16" using Cons.prems by auto
  have lg: "length (gbytes g) = 2" by (simp add: gbytes_def)
  show ?case
  proof (cases "gs = []")
    case True
    show ?thesis
    proof (cases "hs = []")
      case False
      then show ?thesis
        using True Cons.prems v6Loop_group(4) [OF g, of "hexes hs"] hexes_hd [OF False] v6Loop_hexes [OF False, of "ip @ gbytes g"] lg
        by (simp add: hexes_Cons)
    qed (use True v6Loop_group(3) [OF g] lg in \<open>simp add: hexes_Cons\<close>)
  next
    case False
    have "length (ip @ gbytes g) + 2 * length gs + 2 * length hs \<le> 16" using Cons.prems lg by simp
    then show ?thesis
      using Cons.IH [OF False, of "ip @ gbytes g"] Cons.prems hexes_hd [OF False] False lg
        v6Loop_group(2) [OF g, of "hexes gs @ ''::'' @ hexes hs" None]
      by (simp add: hexes_Cons)
  qed
qed simp

lemma groups_gbytes:
  assumes "length b = 2 * n"
  shows "concat (map gbytes (groups b)) = b" "\<forall>g \<in> set (groups b). g < 65536" "length (groups b) = n"
proof -
  have h: "concat (map gbytes (groups b)) = b" if "length b = 2 * n" for b n using that
  proof (induction n arbitrary: b)
    case (Suc n)
    then obtain x y c where b: "b = x # y # c" "length c = 2 * n" by (auto simp: length_Suc_conv)
    have "groups b = (256 * unat x + unat y) # groups c"
      by (simp add: groups_def b map_upt_Suc del: upt_Suc)
    moreover have "unat y < 256" using unsigned_less [of y] by simp
    ultimately show ?case using Suc.IH [OF b(2)] by (simp add: b gbytes_def)
  qed (simp add: groups_def)
  show "concat (map gbytes (groups b)) = b" using h assms by blast
  have "unat (x :: 8 word) < 256" for x using unsigned_less [of x] by simp
  then have "256 * unat x + unat y < 65536" for x y :: "8 word"
  proof -
    have "unat x < 256" "unat y < 256" using unsigned_less [of x] unsigned_less [of y] by simp_all
    then show ?thesis by linarith
  qed
  then show "\<forall>g \<in> set (groups b). g < 65536" by (auto simp: groups_def)
  show "length (groups b) = n" using assms by (simp add: groups_def)
qed

lemma firstOf_colon: "CHR '':'' \<in> set s \<Longrightarrow> CHR ''.'' \<notin> set s \<Longrightarrow> CHR ''%'' \<notin> set s \<Longrightarrow> firstOf s = Some CHR '':''"
  by (induction s) auto

lemma hexes_chars: "c \<in> set (hexes gs) \<Longrightarrow> hexDigit c \<noteq> None \<or> c = CHR '':''"
  by (induction gs) (auto simp: hexes_Cons dest: hexNat_chars split: if_splits)

lemma hexes_colon: "length gs > 1 \<Longrightarrow> CHR '':'' \<in> set (hexes gs)"
  by (cases gs) (auto simp: hexes_Cons)

lemma HasPrefix_hexes: "gs \<noteq> [] \<Longrightarrow> \<not> HasPrefix (hexes gs @ r) ''::''"
  using hexes_hd [of gs] by (cases "hexes gs") (auto simp: HasPrefix_def)

lemma parse_String6:
  assumes b: "length b = 16"
  shows "parseIPv6 (String6 b) = Some b"
proof -
  define gs where "gs = groups b"
  have gs: "concat (map gbytes gs) = b" "\<forall>g \<in> set gs. g < 65536" "length gs = 8"
    using groups_gbytes [of b 8] b by (simp_all add: gs_def)
  have ne: "gs \<noteq> []" using gs(3) by auto
  obtain zs ze where z: "zeroRun gs = (zs, ze)" by (cases "zeroRun gs")
  show ?thesis
  proof (cases "zs \<ge> 8")
    case True
    then have s: "String6 b = hexes gs" by (simp add: String6_def z Let_def hexes_def flip: gs_def)
    show ?thesis
      using v6Loop_hexes [OF ne gs(2), of "[]" None] HasPrefix_hexes [OF ne, of "[]"] gs b by (simp add: parseIPv6_def s expand_def)
  next
    case False
    then have zr: "zs < ze" "ze \<le> 8" "\<forall>i. zs \<le> i \<and> i < ze \<longrightarrow> gs ! i = 0" using zeroRun_ok [OF gs(3) z] by auto
    define l r where "l = take zs gs" and "r = drop ze gs"
    have s: "String6 b = hexes l @ ''::'' @ hexes r" using False by (simp add: String6_def z Let_def hexes_def l_def r_def take_map drop_map flip: gs_def)
    have len: "length l = zs" "length r = 8 - ze" using gs(3) zr False by (simp_all add: l_def r_def)
    have lr: "\<forall>g \<in> set l \<union> set r. g < 65536" using gs(2) by (auto simp: l_def r_def dest: in_set_takeD in_set_dropD)
    have mid: "drop zs (take ze gs) = replicate (ze - zs) 0"
      using zr gs(3) by (auto simp: list_eq_iff_nth_eq)
    have "gs = take ze gs @ r" by (simp add: r_def)
    also have "take ze gs = l @ drop zs (take ze gs)" using zr(1) by (metis append_take_drop_id l_def min.absorb1 nless_le take_take)
    finally have "b = concat (map gbytes l) @ concat (replicate (ze - zs) (gbytes 0)) @ concat (map gbytes r)"
      using gs(1) mid by (metis append.assoc concat_append map_append map_replicate)
    moreover have "concat (replicate k (gbytes 0)) = replicate (2 * k) 0" for k
      by (induction k) (simp_all add: gbytes_def)
    ultimately have bb: "b = concat (map gbytes l) @ replicate (2 * (ze - zs)) 0 @ concat (map gbytes r)" by simp
    have ex: "expand (concat (map gbytes l) @ concat (map gbytes r)) (Some (2 * length l)) = Some b"
      using len zr False by (simp add: expand_def bb diff_mult_distrib2)
    show ?thesis
    proof (cases "l = []")
      case True
      then have s1: "String6 b = CHR '':'' # CHR '':'' # hexes r" using s by simp
      show ?thesis
      proof (cases "r = []")
        case r: True
        have "parseIPv6 (String6 b) = Some (replicate 16 0)" by (simp add: parseIPv6_def s1 r HasPrefix_def)
        moreover have "b = replicate 16 0" using bb True r len zr by simp
        ultimately show ?thesis by simp
      next
        case False
        then show ?thesis
          using True ex lr len zr v6Loop_hexes [OF False, of "[]" "Some 0"] hexes_hd [OF False]
          by (simp add: parseIPv6_def s1 HasPrefix_def)
      qed
    next
      case False
      then show ?thesis
        using ex lr len zr v6Loop_ellipsis [OF False lr, of "[]"] HasPrefix_hexes [OF False, of "''::'' @ hexes r"]
        by (simp add: parseIPv6_def s)
    qed
  qed
qed

lemma String6_chars:
  assumes b: "length b = 16"
  shows "firstOf (String6 b) = Some CHR '':''" "CHR ''%'' \<notin> set (String6 b)"
proof -
  obtain zs ze where z: "zeroRun (groups b) = (zs, ze)" by (cases "zeroRun (groups b)")
  have c: "hexDigit c \<noteq> None \<or> c = CHR '':''" if "c \<in> set (String6 b)" for c
    using that hexes_chars by (auto simp: String6_def z Let_def take_map drop_map simp flip: hexes_def split: if_splits)
  then show "CHR ''%'' \<notin> set (String6 b)" by fastforce
  have "CHR '':'' \<in> set (String6 b)"
    using hexes_colon [of "groups b"] groups_gbytes(3) [of b 8] b by (auto simp: String6_def z Let_def simp flip: hexes_def)
  then show "firstOf (String6 b) = Some CHR '':''" using c by (intro firstOf_colon) fastforce+
qed

lemma ParseIP_String6: "length b = 16 \<Longrightarrow> ParseIP (String6 b) = Some b"
  by (simp add: ParseIP_def ParseAddr_def String6_chars parse_String6)

section \<open>Sources\<close>

interpretation v4text: codec String4 parseIPv4Fields "\<lambda>b. length b = 4"
  by unfold_locales (rule parse_String4)

interpretation v6text: codec String6 parseIPv6 "\<lambda>b. length b = 16"
  by unfold_locales (rule parse_String6)

lemma String4_chars: "length b = 4 \<Longrightarrow> c \<in> set (String4 b) \<Longrightarrow> isDigit c \<or> c = CHR ''.''"
proof -
  assume b: "length b = 4" and c: "c \<in> set (String4 b)"
  obtain x y z u where "b = [x, y, z, u]" using b by (auto simp: numeral_eq_Suc length_Suc_conv)
  then have "c = CHR ''.'' \<or> (\<exists>n. c \<in> set (Itoa_nat n))" using c by (auto simp: String4_def)
  then show ?thesis using Itoa_nat_digits by (auto simp: list_all_iff)
qed

definition mask64 :: bytes where
  "mask64 = replicate 8 255 @ replicate 8 0"

lemma CIDRMask_64: "CIDRMask 64 128 = mask64"
  by code_simp

lemma net64:
  assumes "length ip = 16" "To4 ip = None"
  shows "IPNetString \<lparr>nIP = maskIP ip (CIDRMask 64 128), nMask = CIDRMask 64 128\<rparr> =
    String6 (andBytes ip (CIDRMask 64 128)) @ ''/64''"
proof -
  have l: "length mask64 = 16" by (simp add: mask64_def)
  have m: "maskIP ip mask64 = andBytes ip mask64" using assms l by (simp add: maskIP_def Let_def)
  have "andBytes ip mask64 ! 10 = 0" using assms(1) l by (simp add: andBytes_def mask64_def nth_append)
  then have "take 12 (andBytes ip mask64) ! 10 \<noteq> v4InV6Prefix ! 10" by (simp add: v4InV6Prefix_def nth_append)
  then have "take 12 (andBytes ip mask64) \<noteq> v4InV6Prefix" by metis
  then have t: "To4 (andBytes ip mask64) = None" using assms(1) l by (simp add: To4_def andBytes_def)
  have s: "simpleMaskLength mask64 = Some 64" "Itoa_nat 64 = ''64''" by code_simp+
  show ?thesis using t l s assms(1)
    by (simp add: CIDRMask_64 m IPNetString_def networkNumberAndMask_def Let_def IPString_def andBytes_def)
qed

text \<open>What identifies a source: the 32 bits of an IPv4 address, the first 64 bits of an IPv6 address.\<close>

definition source :: "string \<Rightarrow> bool list option" where
  "source remote = map_option (\<lambda>ip. case To4 ip of Some v4 \<Rightarrow> bits_of v4 | None \<Rightarrow> take 64 (bits_of ip)) (normalizedRemoteIP remote)"

lemma length_bits_of [simp]: "length (bits_of b) = 8 * length b"
  by (induction b) (auto simp: bits_of_def)

lemma bits8_inj: "bits8 a = bits8 b \<Longrightarrow> a = b"
  using masked_byte_eq [of 8 a b] by (simp add: maskByte_def)

lemma bits_of_inj: "length a = length b \<Longrightarrow> bits_of a = bits_of b \<Longrightarrow> a = b"
  by (induction a b rule: list_induct2) (auto simp: bits_of_def dest: bits8_inj)

lemma normalizedRemoteIP_length: "normalizedRemoteIP r = Some ip \<Longrightarrow> length ip = 16"
  by (auto simp: normalizedRemoteIP_def ParseIP_def dest: ParseAddr_length)

lemma To4_length: "To4 ip = Some v4 \<Longrightarrow> length v4 = 4"
  by (auto simp: To4_def split: if_splits)

datatype origin = Nowhere | V4 bytes | V6 bytes

definition origin_of :: "string \<Rightarrow> origin" where
  "origin_of r = (case normalizedRemoteIP r of None \<Rightarrow> Nowhere
     | Some ip \<Rightarrow> (case To4 ip of Some v4 \<Rightarrow> V4 v4 | None \<Rightarrow> V6 (andBytes ip (CIDRMask 64 128))))"

definition origin_text :: "origin \<Rightarrow> string" where
  "origin_text z = (case z of Nowhere \<Rightarrow> ''unknown'' | V4 b \<Rightarrow> String4 b | V6 b \<Rightarrow> String6 b @ ''/64'')"

lemma loginKey_text: "loginKey r = origin_text (origin_of r)"
  using net64 normalizedRemoteIP_length
  by (auto simp: loginKey_def origin_of_def origin_text_def Let_def split: option.splits)

lemma origin_of_ok: "origin_of r = V4 b \<Longrightarrow> length b = 4" "origin_of r = V6 b \<Longrightarrow> length b = 16"
  using To4_length normalizedRemoteIP_length length_CIDRMask [of 64 16]
  by (auto simp: origin_of_def andBytes_def split: option.splits)

lemma origin_text_inj: "origin_text (origin_of r) = origin_text (origin_of s) \<longleftrightarrow> origin_of r = origin_of s"
proof -
  have v4: "CHR ''u'' \<notin> set (String4 b)" "CHR ''/'' \<notin> set (String4 b)" if "length b = 4" for b
    using String4_chars [OF that, of "CHR ''u''"] String4_chars [OF that, of "CHR ''/''"] by (auto simp: isDigit_def)
  have u6: "''unknown'' \<noteq> String6 b @ ''/64''" for b
  proof
    assume e: "''unknown'' = String6 b @ ''/64''"
    have "CHR ''/'' \<in> set (String6 b @ ''/64'')" by simp
    then show False unfolding e [symmetric] by simp
  qed
  have u4: "''unknown'' \<noteq> String4 b" if "length b = 4" for b
  proof
    assume e: "''unknown'' = String4 b"
    show False using v4(1) [OF that] unfolding e [symmetric] by simp
  qed
  have v46: "String4 b \<noteq> String6 c @ ''/64''" if "length b = 4" for b c
  proof
    assume "String4 b = String6 c @ ''/64''"
    then show False using v4(2) [OF that] by simp
  qed
  show ?thesis
  proof (cases "origin_of r"; cases "origin_of s")
    fix a b assume h: "origin_of r = V4 a" "origin_of s = V4 b"
    show ?thesis using origin_of_ok(1) [OF h(1)] origin_of_ok(1) [OF h(2)] v4text.enc_inj [of a b] by (auto simp: h origin_text_def)
  next
    fix a b assume h: "origin_of r = V6 a" "origin_of s = V6 b"
    show ?thesis using origin_of_ok(2) [OF h(1)] origin_of_ok(2) [OF h(2)] v6text.enc_inj [of a b] by (auto simp: h origin_text_def)
  qed (simp_all add: origin_text_def u6 u6 [symmetric] u4 u4 [symmetric] v46 v46 [symmetric] origin_of_ok)
qed

lemma same_source:
  assumes l: "length a = 16" "length b = 16"
  shows "(case To4 a of Some v4 \<Rightarrow> V4 v4 | None \<Rightarrow> V6 (andBytes a (CIDRMask 64 128))) =
         (case To4 b of Some v4 \<Rightarrow> V4 v4 | None \<Rightarrow> V6 (andBytes b (CIDRMask 64 128))) \<longleftrightarrow>
         (case To4 a of Some v4 \<Rightarrow> bits_of v4 | None \<Rightarrow> take 64 (bits_of a)) =
         (case To4 b of Some v4 \<Rightarrow> bits_of v4 | None \<Rightarrow> take 64 (bits_of b))"
proof -
  have m6: "andBytes a (CIDRMask 64 128) = andBytes b (CIDRMask 64 128) \<longleftrightarrow> take 64 (bits_of a) = take 64 (bits_of b)"
    using masked_eq [OF l, of 64] by simp
  have d: "bits_of v \<noteq> take 64 (bits_of x)" if "length v = 4" "length x = 16" for v x
  proof -
    have "length (bits_of v) \<noteq> length (take 64 (bits_of x))" using that by simp
    then show ?thesis by metis
  qed
  have bi: "bits_of v = bits_of w \<longleftrightarrow> v = w" if "length v = 4" "length w = 4" for v w
    using bits_of_inj [of v w] that by auto
  show ?thesis
  proof (cases "To4 a"; cases "To4 b")
    fix v w assume "To4 a = Some v" "To4 b = Some w"
    then show ?thesis using bi To4_length by simp
  qed (use m6 d d [symmetric] l To4_length in simp_all)
qed

lemma origin_source: "origin_of r = origin_of s \<longleftrightarrow> source r = source s"
proof (cases "normalizedRemoteIP r"; cases "normalizedRemoteIP s")
  fix a b assume ab: "normalizedRemoteIP r = Some a" "normalizedRemoteIP s = Some b"
  show ?thesis
    using same_source [OF normalizedRemoteIP_length [OF ab(1)] normalizedRemoteIP_length [OF ab(2)]] ab
    by (simp add: origin_of_def source_def)
qed (auto simp: origin_of_def source_def split: option.splits)

text \<open>
  Attempts share a record of the login throttle exactly when they come from the same source: one IPv4 address however
  it is written (also mapped into IPv6), or one IPv6 /64; remote addresses that do not parse share one record. So a host
  cannot start a new count by changing the address inside its /64, and no other /64 is ever locked with it.
\<close>

theorem login_key_source: "loginKey r = loginKey s \<longleftrightarrow> source r = source s"
  by (simp add: loginKey_text origin_text_inj origin_source)

end
