(* ===== verification/Api_Token.thy ===== *)
theory Api_Token
  imports Login_Throttle Ip_Addr Modules
begin

text \<open>
  API tokens: the config section, its validation, the check of a request's token and the records of last use, from
  \<open>mr/api_token.go\<close>. \<open>sha\<close> is SHA-256 (\<open>crypto/sha256\<close>), \<open>tm\<close> the time package's parsing, \<open>acts\<close> the table
  \<open>tokenActions\<close> that \<open>register\<close> of \<open>mr/module.go\<close> extends by the modules' \<open>TokenScope\<close>.

  Shown: what a token that is let in satisfies (\<open>token_auth_sound\<close>), that bad tokens lock their source also for good
  ones (\<open>bad_tokens_lock\<close>), what a valid token list is (\<open>tokens_valid\<close>), that no token reaches the password, logins,
  backups or the firmware (\<open>token_reach\<close>), and that the flash record is written at most once an hour per token while the
  last use shown is at most an hour old (\<open>token_uses_recent\<close>).
\<close>

section \<open>The config section\<close>

record APIToken =
  tName :: string
  tScope :: string
  tAllow :: "string list"
  tFrom :: "string list"
  tExpires :: string

record ApiConfig = Config +
  Tokens :: "APIToken list"
  secrets :: "(string \<times> string) list"

definition tokenPrefix :: string where "tokenPrefix = ''mrt_''"
definition tokenSecretPrefix :: string where "tokenSecretPrefix = ''api_token_''"
definition maxTokens :: nat where "maxTokens = 32"

text \<open>A map of Go: the value of a missing key is the empty string.\<close>

definition getS :: "(string \<times> string) list \<Rightarrow> string \<Rightarrow> string" where
  "getS m k = (case map_of m k of Some v \<Rightarrow> v | None \<Rightarrow> [])"

definition scopeLevel :: "string \<Rightarrow> int" where
  "scopeLevel s = (if s = ''read'' then 1 else if s = ''operate'' then 2 else if s = ''apply'' then 3 else 0)"

definition coreActions :: "(string \<times> string) list" where
  "coreActions =
     [(''status'', ''read''), (''config'', ''read''), (''config.raw'', ''read''), (''history'', ''read''),
      (''history.diff'', ''read''), (''job'', ''read''),
      (''validate'', ''apply''), (''apply'', ''apply''), (''confirm'', ''apply''), (''revert'', ''apply''), (''rollback'', ''apply'')]"

text \<open>The scopes the modules declare.\<close>

definition apiScope :: "(string \<times> string) list" where
  "apiScope = [(''plan'', ''apply''), (''schema'', ''read'')]"

definition devScope :: "(string \<times> string) list" where
  "devScope = [(''dev.paused'', ''read''), (''dev.pause'', ''operate''), (''dev.unpause'', ''operate'')]"

definition dnsScope :: "(string \<times> string) list" where
  "dnsScope = [(''dns.stats'', ''read''), (''dns.leases'', ''read''), (''dns.release'', ''operate''), (''dns.adblock'', ''operate''),
     (''dns.unblock.detect'', ''operate'')]"

definition fwScope :: "(string \<times> string) list" where
  "fwScope = [(''fw.stats'', ''read'')]"

definition monScope :: "(string \<times> string) list" where
  "monScope = [(''mon.traffic'', ''read''), (''mon.now'', ''read''), (''mon.history'', ''read''), (''mon.devices'', ''read''),
     (''mon.conns'', ''read''), (''mon.procs'', ''read''), (''mon.dmesg'', ''read'')]"

definition netScope :: "(string \<times> string) list" where
  "netScope = [(''net'', ''read''), (''net.ports'', ''read''), (''net.routes'', ''read''), (''net.wan'', ''read''),
     (''net.wan_detect'', ''operate''), (''net.redial'', ''operate''), (''net.dial_restore'', ''operate''), (''net.wan_mac'', ''operate'')]"

definition proxyScope :: "(string \<times> string) list" where
  "proxyScope = [(''proxy.status'', ''read''), (''proxy.routes'', ''read''), (''proxy.delay'', ''operate''),
     (''proxy.select'', ''operate''), (''proxy.check'', ''operate'')]"

definition sysScope :: "(string \<times> string) list" where
  "sysScope = [(''sys.speedtest'', ''operate''), (''sys.services'', ''read''), (''sys.time'', ''read''), (''sys.doctor'', ''read''),
     (''sys.events'', ''read''), (''sys.edge'', ''read''), (''sys.heal'', ''operate''), (''service'', ''operate''), (''diag'', ''operate'')]"

definition wifiScope :: "(string \<times> string) list" where
  "wifiScope = [(''wifi.status'', ''read''), (''wifi.stations'', ''read''), (''clients'', ''read''), (''wifi.survey'', ''read''),
     (''wifi.health'', ''read''), (''wifi.defaults'', ''read''), (''wifi.kick'', ''operate''), (''wifi.scan'', ''operate'')]"

text \<open>The table once every module is registered (\<open>mergeScopes\<close>: the part of \<open>register\<close> that adds the scopes).\<close>

definition mergeScopes :: "(string \<times> string) list list \<Rightarrow> (string \<times> string) list" where
  "mergeScopes new = fold (\<lambda>n acts. n @ acts) new coreActions"

definition tokenActions :: "(string \<times> string) list" where
  "tokenActions = mergeScopes [apiScope, devScope, dnsScope, fwScope, monScope, netScope, proxyScope, sysScope, wifiScope]"

section \<open>Patterns\<close>

text \<open>\<open>^sha256:[0-9a-f]{64}$\<close>\<close>

definition reTokenHash :: "string \<Rightarrow> bool" where
  "reTokenHash s \<longleftrightarrow> HasPrefix s ''sha256:'' \<and> length s = 71
     \<and> list_all (\<lambda>c. isDigit c \<or> 97 \<le> (of_char c :: nat) \<and> (of_char c :: nat) \<le> 102) (drop 7 s)"

text \<open>\<open>^(\*|[a-z][a-z0-9_]*(\.[a-z0-9_]+)*(\.\*)?)$\<close>: the parts between the dots.\<close>

definition actWord :: "string \<Rightarrow> bool" where
  "actWord w \<longleftrightarrow> w \<noteq> [] \<and> list_all (\<lambda>c. lower c \<or> isDigit c \<or> c = CHR ''_'') w"

definition reAllowEntry :: "string \<Rightarrow> bool" where
  "reAllowEntry s \<longleftrightarrow> s = ''*'' \<or>
     (let ws = SplitByte CHR ''.'' s in
      actWord (hd ws) \<and> lower (hd (hd ws)) \<and>
      (tl ws = [] \<or> list_all actWord (butlast (tl ws)) \<and> (actWord (last ws) \<or> last ws = ''*'')))"

definition actionMatch :: "string \<Rightarrow> string \<Rightarrow> bool" where
  "actionMatch pat act \<longleftrightarrow> pat = ''*'' \<or> pat = act \<or> (HasSuffix pat ''.*'' \<and> HasPrefix act (TrimSuffix pat ''*''))"

section \<open>Expiry, source and scope\<close>

text \<open>
  Instants are integers, 0 the zero \<open>time.Time\<close> (what \<open>IsZero\<close> tests); \<open>'l\<close> are the locations. The two parsers of the
  time package that \<open>expiry\<close> calls.
\<close>

record 'l timelib =
  ParseInLocation :: "string \<Rightarrow> 'l \<Rightarrow> int option"
  ParseRFC3339 :: "string \<Rightarrow> int option"
  UTC :: 'l

definition expiry :: "'l timelib \<Rightarrow> APIToken \<Rightarrow> 'l \<Rightarrow> int option" where
  "expiry tm t loc =
     (if tExpires t = [] then Some 0
      else (case ParseInLocation tm (tExpires t) loc of Some d \<Rightarrow> Some d | None \<Rightarrow> ParseRFC3339 tm (tExpires t)))"

definition fromOK :: "APIToken \<Rightarrow> string \<Rightarrow> bool" where
  "fromOK t remote \<longleftrightarrow> tFrom t = [] \<or>
     (\<exists>f \<in> set (tFrom t). case (parseNet f, normalizedRemoteIP remote) of (Some n, Some ip) \<Rightarrow> Contains n ip | _ \<Rightarrow> False)"

definition permits :: "(string \<times> string) list \<Rightarrow> APIToken \<Rightarrow> string \<Rightarrow> bool" where
  "permits acts t act =
     (case map_of acts act of
        None \<Rightarrow> False
      | Some need \<Rightarrow>
          if scopeLevel (tScope t) < scopeLevel need then False
          else tAllow t = [] \<or> (\<exists>a \<in> set (tAllow t). actionMatch a act))"

section \<open>Validation\<close>

datatype tokenProblem =
    TooManyTokens
  | BadTokenName string string
  | DuplicateName string
  | BadScope string string
  | BadAllow string string
  | AllowsNothing string string string
  | TooManyFrom string
  | BadFrom string string
  | BadExpires string string
  | NoTokenHash string string

definition tokenPath :: "nat \<Rightarrow> APIToken \<Rightarrow> string" where
  "tokenPath i t = (if reName (tName t) then ''api.tokens['' @ tName t @ '']'' else ''api.tokens['' @ Itoa_nat i @ '']'')"

definition checkAllow :: "(string \<times> string) list \<Rightarrow> string \<Rightarrow> APIToken \<Rightarrow> string \<Rightarrow> tokenProblem list" where
  "checkAllow acts p t a =
     (if \<not> reAllowEntry a then [BadAllow p a]
      else if \<not> (\<exists>act \<in> fst ` set acts. actionMatch a act \<and> scopeLevel (getS acts act) \<le> scopeLevel (tScope t))
              \<and> scopeLevel (tScope t) > 0 then [AllowsNothing p a (tScope t)]
      else [])"

definition checkToken ::
  "'l timelib \<Rightarrow> (string \<times> string) list \<Rightarrow> (string \<times> string) list \<Rightarrow> string list \<Rightarrow> nat \<Rightarrow> APIToken \<Rightarrow> tokenProblem list" where
  "checkToken tm acts secs seen i t =
     (let p = tokenPath i t in
      (if reName (tName t) then [] else [BadTokenName (''api.tokens['' @ Itoa_nat i @ '']'') (tName t)])
      @ (if tName t \<in> set seen then [DuplicateName p] else [])
      @ (if scopeLevel (tScope t) = 0 then [BadScope p (tScope t)] else [])
      @ concat (map (checkAllow acts p t) (tAllow t))
      @ (if length (tFrom t) > 16 then [TooManyFrom p] else [])
      @ concat (map (\<lambda>f. if parseNet f = None then [BadFrom p f] else []) (tFrom t))
      @ (if expiry tm t (UTC tm) = None then [BadExpires p (tExpires t)] else [])
      @ (if reTokenHash (getS secs (tokenSecretPrefix @ tName t)) then [] else [NoTokenHash p (tName t)]))"

fun checkTokens ::
  "'l timelib \<Rightarrow> (string \<times> string) list \<Rightarrow> (string \<times> string) list \<Rightarrow> string list \<Rightarrow> nat \<Rightarrow> APIToken list \<Rightarrow> tokenProblem list" where
  "checkTokens tm acts secs seen i [] = []"
| "checkTokens tm acts secs seen i (t # ts) =
     checkToken tm acts secs seen i t @ checkTokens tm acts secs (tName t # seen) (Suc i) ts"

definition tokensValidate :: "'l timelib \<Rightarrow> (string \<times> string) list \<Rightarrow> 'c ApiConfig_scheme \<Rightarrow> tokenProblem list" where
  "tokensValidate tm acts c =
     (if length (Tokens c) > maxTokens then [TooManyTokens] else [])
     @ checkTokens tm acts (secrets c) [] 0 (Tokens c)"

section \<open>The check of a request\<close>

record apiReq =
  qMethod :: string
  qAction :: string
  qBody :: string
  qCookie :: string
  qRemote :: string
  qHeader :: string
  qAuth :: string
  qVia :: string

definition apiTokenHash :: "(string \<Rightarrow> bytes) \<Rightarrow> string \<Rightarrow> string" where
  "apiTokenHash sha tok = ''sha256:'' @ hexString (sha tok)"

definition findToken :: "(string \<Rightarrow> bytes) \<Rightarrow> 'c ApiConfig_scheme \<Rightarrow> string \<Rightarrow> APIToken option" where
  "findToken sha c presented =
     (if \<not> HasPrefix presented tokenPrefix \<or> length presented > 256 then None
      else fold (\<lambda>t found. if apiTokenHash sha presented = getS (secrets c) (tokenSecretPrefix @ tName t) then Some t else found)
             (Tokens c) None)"

datatype refusal =
    TooManyAttempts int
  | InvalidToken
  | TokenExpired string string
  | FromNotAllowed string string
  | NotForTokens string
  | ScopeTooLow string string string

fun refusalCode :: "refusal \<Rightarrow> nat" where
  "refusalCode (TooManyAttempts w) = 429"
| "refusalCode InvalidToken = 401"
| "refusalCode (TokenExpired n e) = 401"
| "refusalCode (FromNotAllowed n r) = 403"
| "refusalCode (NotForTokens a) = 403"
| "refusalCode (ScopeTooLow n s a) = 403"

datatype tokenLog = BadTokensLocked string int | FirstBadToken string | FromOutside string string

definition CutPrefix :: "string \<Rightarrow> string \<Rightarrow> string option" where
  "CutPrefix s p = (if HasPrefix s p then Some (drop (length p) s) else None)"

definition presentedToken :: "(string \<Rightarrow> bytes) \<Rightarrow> 'c ApiConfig_scheme \<Rightarrow> string \<Rightarrow> APIToken option" where
  "presentedToken sha c auth =
     (case CutPrefix auth ''Bearer '' of None \<Rightarrow> None | Some p \<Rightarrow> findToken sha c (TrimSpace p))"

text \<open>
  \<open>tokenAuth\<close>: the throttle's records are read, and written only for a bad token. \<open>rd\<close>: their file can be read,
  \<open>io\<close>: what the file system answers to the write; \<open>unix\<close> the throttle's clock, \<open>now\<close> the instant the expiry is compared with.
\<close>

definition tokenAuth ::
  "bool \<Rightarrow> file_io \<Rightarrow> (string \<Rightarrow> bytes) \<Rightarrow> 'l timelib \<Rightarrow> 'l \<Rightarrow> (string \<times> string) list \<Rightarrow> 'c ApiConfig_scheme \<Rightarrow> int \<Rightarrow> int
    \<Rightarrow> apiReq \<Rightarrow> logins \<Rightarrow> logins \<times> (refusal + APIToken) \<times> tokenLog list" where
  "tokenAuth rd io sha tm loc acts c now unix r m =
     (let key = loginKey (qRemote r); wait = (if rd then loginWait key unix m else 0) in
      if wait > 0 then (m, Inl (TooManyAttempts wait), [])
      else (case presentedToken sha c (qAuth r) of
        None \<Rightarrow>
          (let (m', b) = loginBegin io key unix m in
           if \<not> b_ok b then (m', Inl (TooManyAttempts (b_wait b)), [])
           else (m', Inl InvalidToken,
                 if b_locked b > 0 then [BadTokensLocked (qRemote r) (b_locked b)]
                 else if b_fails b = 1 then [FirstBadToken (qRemote r)] else []))
      | Some t \<Rightarrow>
          (let exp = (case expiry tm t loc of Some e \<Rightarrow> e | None \<Rightarrow> 0) in
           if exp \<noteq> 0 \<and> \<not> now < exp then (m, Inl (TokenExpired (tName t) (tExpires t)), [])
           else if \<not> fromOK t (qRemote r)
             then (m, Inl (FromNotAllowed (tName t) (qRemote r)), [FromOutside (tName t) (qRemote r)])
           else if \<not> permits acts t (qAction r)
             then (m, Inl (if map_of acts (qAction r) = None then NotForTokens (qAction r)
                           else ScopeTooLow (tName t) (tScope t) (qAction r)), [])
           else (m, Inr t, []))))"

section \<open>Last use\<close>

record tokenUse =
  uTime :: int
  uFrom :: string

definition noUse :: tokenUse where
  "noUse = \<lparr>uTime = 0, uFrom = []\<rparr>"

type_synonym uses = "(string \<times> tokenUse) list"

definition useOf :: "uses \<Rightarrow> string \<Rightarrow> tokenUse" where
  "useOf m k = (case map_of m k of Some u \<Rightarrow> u | None \<Rightarrow> noUse)"

text \<open>The file changed under its lock; a failed write leaves it empty. \<open>None\<close>: \<open>f\<close> leaves it alone.\<close>

definition updateUses :: "file_io \<Rightarrow> (uses \<Rightarrow> uses option) \<Rightarrow> uses \<Rightarrow> uses" where
  "updateUses io f m =
     (case io of
        IoOpenFail \<Rightarrow> m
      | _ \<Rightarrow> (case f m of None \<Rightarrow> m
              | Some m' \<Rightarrow> (case io of IoTruncFail \<Rightarrow> m | IoWriteFail \<Rightarrow> [] | _ \<Rightarrow> m')))"

record useFiles =
  usedRun :: uses
  usedDisk :: uses

definition noteTokenUse :: "file_io \<Rightarrow> file_io \<Rightarrow> int \<Rightarrow> string \<Rightarrow> string \<Rightarrow> useFiles \<Rightarrow> useFiles" where
  "noteTokenUse io1 io2 now name remote fs =
     (let u = \<lparr>uTime = now, uFrom = remote\<rparr> in
      \<lparr>usedRun = updateUses io1 (\<lambda>m. Some (AList.update name u m)) (usedRun fs),
       usedDisk = updateUses io2 (\<lambda>m. if uTime u - uTime (useOf m name) < 3600 then None else Some (AList.update name u m)) (usedDisk fs)\<rparr>)"

text \<open>The later of both records, \<open>/run\<close> where they are equal; a file that cannot be read is the empty one.\<close>

definition mergeUses :: "uses \<Rightarrow> uses \<Rightarrow> uses" where
  "mergeUses m out = fold (\<lambda>(k, v) out. if uTime v \<ge> uTime (useOf out k) then AList.update k v out else out) m out"

definition tokenUses :: "useFiles \<Rightarrow> uses" where
  "tokenUses fs = mergeUses (usedRun fs) (mergeUses (usedDisk fs) [])"


section \<open>An example\<close>

definition demo_sha :: "string \<Rightarrow> bytes" where
  "demo_sha s = replicate 32 (if s = ''mrt_home'' then 1 else 2)"

definition demo_token :: APIToken where
  "demo_token = \<lparr>tName = ''ha'', tScope = ''read'', tAllow = [''mon.*''], tFrom = [''192.168.1.0/24''], tExpires = ''2030-01-01''\<rparr>"

definition demo_time :: "unit timelib" where
  "demo_time = \<lparr>ParseInLocation = (\<lambda>s l. if s = ''2030-01-01'' then Some 1000 else None), ParseRFC3339 = (\<lambda>s. None), UTC = ()\<rparr>"

definition demo_config :: ApiConfig where
  "demo_config = \<lparr>Watchdog = None, History = 0, Bridge = [], LanIPv4 = [], LanIPv6RA = False, Networks = [], WANs = [], nftRules = [],
     Tokens = [demo_token], secrets = [(''api_token_ha'', ''sha256:'' @ hexString (replicate 32 1))]\<rparr>"

definition demo_req :: apiReq where
  "demo_req = \<lparr>qMethod = ''GET'', qAction = ''mon.now'', qBody = [], qCookie = [], qRemote = ''192.168.1.20'', qHeader = [],
     qAuth = ''Bearer mrt_home'', qVia = []\<rparr>"

section \<open>A valid token list\<close>

text \<open>What a token list has to be, and the tokens it lets in: the specification of the validation and the check.\<close>

definition valid_token :: "'l timelib \<Rightarrow> (string \<times> string) list \<Rightarrow> (string \<times> string) list \<Rightarrow> APIToken \<Rightarrow> bool" where
  "valid_token tm acts secs t \<longleftrightarrow>
     reName (tName t) \<and> tScope t \<in> {''read'', ''operate'', ''apply''} \<and>
     (\<forall>a \<in> set (tAllow t). reAllowEntry a \<and>
        (\<exists>act need. map_of acts act = Some need \<and> actionMatch a act \<and> scopeLevel need \<le> scopeLevel (tScope t))) \<and>
     length (tFrom t) \<le> 16 \<and> (\<forall>f \<in> set (tFrom t). parseNet f \<noteq> None) \<and>
     (tExpires t = [] \<or> ParseInLocation tm (tExpires t) (UTC tm) \<noteq> None \<or> ParseRFC3339 tm (tExpires t) \<noteq> None) \<and>
     (\<exists>h. map_of secs (tokenSecretPrefix @ tName t) = Some h \<and> reTokenHash h)"

lemma scopeLevel_pos: "scopeLevel s = 0 \<longleftrightarrow> s \<notin> {''read'', ''operate'', ''apply''}" "scopeLevel s \<ge> 0"
  by (simp_all add: scopeLevel_def)

lemma checkAllow_Nil:
  "scopeLevel (tScope t) > 0 \<Longrightarrow> checkAllow acts p t a = [] \<longleftrightarrow> reAllowEntry a \<and>
     (\<exists>act need. map_of acts act = Some need \<and> actionMatch a act \<and> scopeLevel need \<le> scopeLevel (tScope t))"
proof -
  assume s: "scopeLevel (tScope t) > 0"
  have "(\<exists>act \<in> fst ` set acts. actionMatch a act \<and> scopeLevel (getS acts act) \<le> scopeLevel (tScope t)) \<longleftrightarrow>
    (\<exists>act need. map_of acts act = Some need \<and> actionMatch a act \<and> scopeLevel need \<le> scopeLevel (tScope t))"
    (is "?l \<longleftrightarrow> ?r")
  proof
    assume ?l
    then obtain act where a: "act \<in> fst ` set acts" "actionMatch a act" "scopeLevel (getS acts act) \<le> scopeLevel (tScope t)" by blast
    then obtain need where "map_of acts act = Some need" by (metis map_of_eq_None_iff not_Some_eq)
    then show ?r using a by (auto simp: getS_def)
  next
    assume ?r
    then obtain act need where h: "map_of acts act = Some need" "actionMatch a act" "scopeLevel need \<le> scopeLevel (tScope t)" by blast
    then have "act \<in> fst ` set acts" by (metis domI dom_map_of_conv_image_fst)
    then show ?l using h by (auto simp: getS_def)
  qed
  then show ?thesis unfolding checkAllow_def using s by auto
qed

lemma reTokenHash_Nil: "\<not> reTokenHash []"
  by (simp add: reTokenHash_def)

lemma hash_stored: "reTokenHash (getS secs k) \<longleftrightarrow> (\<exists>h. map_of secs k = Some h \<and> reTokenHash h)"
  by (auto simp: getS_def reTokenHash_Nil split: option.splits)

lemma if_Nil: "(if b then [] else [x]) = [] \<longleftrightarrow> b" "(if b then [x] else []) = [] \<longleftrightarrow> \<not> b"
  by simp_all

lemma concat_map_Nil_iff: "concat (map f xs) = [] \<longleftrightarrow> (\<forall>x \<in> set xs. f x = [])"
  by auto

lemma expiry_None:
  "expiry tm t l = None \<longleftrightarrow> \<not> (tExpires t = [] \<or> ParseInLocation tm (tExpires t) l \<noteq> None \<or> ParseRFC3339 tm (tExpires t) \<noteq> None)"
  by (auto simp: expiry_def split: option.splits)

lemma checkToken_Nil: "checkToken tm acts secs seen i t = [] \<longleftrightarrow> tName t \<notin> set seen \<and> valid_token tm acts secs t"
proof (cases "scopeLevel (tScope t) = 0")
  case True
  then show ?thesis by (simp add: checkToken_def Let_def valid_token_def scopeLevel_pos(1))
next
  case False
  then have s: "scopeLevel (tScope t) > 0" "tScope t \<in> {''read'', ''operate'', ''apply''}"
    using scopeLevel_pos [of "tScope t"] by auto
  show ?thesis using s(2) False
    unfolding checkToken_def Let_def append_is_Nil_conv if_Nil concat_map_Nil_iff checkAllow_Nil [OF s(1)] expiry_None hash_stored valid_token_def
    by (auto simp: not_less)
qed

lemma checkTokens_Nil:
  "checkTokens tm acts secs seen i ts = [] \<longleftrightarrow>
     distinct (map tName ts) \<and> set (map tName ts) \<inter> set seen = {} \<and> (\<forall>t \<in> set ts. valid_token tm acts secs t)"
  by (induction ts arbitrary: seen i) (auto simp: checkToken_Nil)

text \<open>
  The validation of \<open>api.tokens\<close> accepts exactly the well-formed lists: at most 32 tokens with different names of
  the documented form; a known scope; every \<open>allow\<close> entry well-formed and matching an action the scope covers; at most 16
  sources, each an address or a network; an expiry that parses; and a SHA-256 stored for the name.
\<close>

theorem tokens_valid:
  "tokensValidate tm acts c = [] \<longleftrightarrow>
     length (Tokens c) \<le> 32 \<and> distinct (map tName (Tokens c)) \<and> (\<forall>t \<in> set (Tokens c). valid_token tm acts (secrets c) t)"
  by (auto simp: tokensValidate_def maxTokens_def checkTokens_Nil)

lemma demo_valid: "tokensValidate demo_time tokenActions demo_config = []"
  by code_simp

theorem tokens_valid_witness:
  "valid_token demo_time tokenActions (secrets demo_config) demo_token
   \<and> \<not> valid_token demo_time tokenActions (secrets demo_config) (demo_token\<lparr>tName := ''HA''\<rparr>)"
proof -
  have "demo_token \<in> set (Tokens demo_config)" by (simp add: demo_config_def)
  moreover have "\<not> reName ''HA''" by code_simp
  ultimately show ?thesis
    using tokens_valid [of demo_time tokenActions demo_config] demo_valid by (simp add: valid_token_def)
qed

section \<open>The check\<close>

lemma fold_last:
  "fold (\<lambda>t f. if P t then Some t else f) ts f0 = (if filter P ts = [] then f0 else Some (last (filter P ts)))"
  by (induction ts arbitrary: f0) auto

lemma findToken_Some:
  assumes "findToken sha c p = Some t"
  shows "HasPrefix p tokenPrefix" "length p \<le> 256" "t \<in> set (Tokens c)"
    "apiTokenHash sha p = getS (secrets c) (tokenSecretPrefix @ tName t)"
proof -
  let ?P = "\<lambda>t. apiTokenHash sha p = getS (secrets c) (tokenSecretPrefix @ tName t)"
  have h: "HasPrefix p tokenPrefix \<and> length p \<le> 256 \<and> filter ?P (Tokens c) \<noteq> [] \<and> t = last (filter ?P (Tokens c))"
    using assms unfolding findToken_def fold_last by (auto split: if_splits)
  then have "t \<in> set (filter ?P (Tokens c))" using last_in_set by blast
  then show "HasPrefix p tokenPrefix" "length p \<le> 256" "t \<in> set (Tokens c)"
    "apiTokenHash sha p = getS (secrets c) (tokenSecretPrefix @ tName t)" using h by auto
qed

lemma findToken_complete:
  assumes "HasPrefix p tokenPrefix" "length p \<le> 256" "t \<in> set (Tokens c)"
    and "apiTokenHash sha p = getS (secrets c) (tokenSecretPrefix @ tName t)"
    and u: "\<forall>t' \<in> set (Tokens c). getS (secrets c) (tokenSecretPrefix @ tName t') = getS (secrets c) (tokenSecretPrefix @ tName t) \<longrightarrow> t' = t"
  shows "findToken sha c p = Some t"
proof -
  let ?P = "\<lambda>t. apiTokenHash sha p = getS (secrets c) (tokenSecretPrefix @ tName t)"
  have ne: "filter ?P (Tokens c) \<noteq> []" using assms(3,4) by (auto simp: filter_empty_conv)
  then have "last (filter ?P (Tokens c)) \<in> set (filter ?P (Tokens c))" by (rule last_in_set)
  then have "last (filter ?P (Tokens c)) = t" using u assms(4) by auto
  then show ?thesis using assms(1,2) ne unfolding findToken_def fold_last by simp
qed

text \<open>A token as the header of a request has to carry it.\<close>

definition carries :: "(string \<Rightarrow> bytes) \<Rightarrow> 'c ApiConfig_scheme \<Rightarrow> apiReq \<Rightarrow> APIToken \<Rightarrow> bool" where
  "carries sha c r t \<longleftrightarrow>
     (\<exists>p. qAuth r = ''Bearer '' @ p \<and> HasPrefix (TrimSpace p) ''mrt_'' \<and> length (TrimSpace p) \<le> 256
        \<and> ''sha256:'' @ hexString (sha (TrimSpace p)) = getS (secrets c) (''api_token_'' @ tName t))"

definition in_force :: "'l timelib \<Rightarrow> 'l \<Rightarrow> int \<Rightarrow> APIToken \<Rightarrow> bool" where
  "in_force tm loc now t \<longleftrightarrow> tExpires t = [] \<or> (\<exists>e. expiry tm t loc = Some e \<and> (e = 0 \<or> now < e))"

definition from_source :: "APIToken \<Rightarrow> string \<Rightarrow> bool" where
  "from_source t remote \<longleftrightarrow> tFrom t = [] \<or>
     (\<exists>f \<in> set (tFrom t). \<exists>n ip. parseNet f = Some n \<and> normalizedRemoteIP remote = Some ip \<and> Contains n ip)"

definition may_use :: "(string \<times> string) list \<Rightarrow> APIToken \<Rightarrow> string \<Rightarrow> bool" where
  "may_use acts t act \<longleftrightarrow> (\<exists>need. map_of acts act = Some need \<and> scopeLevel need \<le> scopeLevel (tScope t))
     \<and> (tAllow t = [] \<or> (\<exists>a \<in> set (tAllow t). actionMatch a act))"

lemma presentedToken_iff:
  assumes u: "\<forall>t' \<in> set (Tokens c). \<forall>t'' \<in> set (Tokens c).
      getS (secrets c) (tokenSecretPrefix @ tName t') = getS (secrets c) (tokenSecretPrefix @ tName t'') \<longrightarrow> t' = t''"
  shows "presentedToken sha c (qAuth r) = Some t \<longleftrightarrow> t \<in> set (Tokens c) \<and> carries sha c r t"
proof
  assume "presentedToken sha c (qAuth r) = Some t"
  then obtain p where "qAuth r = ''Bearer '' @ p" "findToken sha c (TrimSpace p) = Some t"
    by (auto simp: presentedToken_def CutPrefix_def HasPrefix_iff split: option.splits if_splits)
  then show "t \<in> set (Tokens c) \<and> carries sha c r t"
    using findToken_Some [of sha c "TrimSpace p" t] by (auto simp: carries_def tokenPrefix_def tokenSecretPrefix_def apiTokenHash_def)
next
  assume t: "t \<in> set (Tokens c) \<and> carries sha c r t"
  then obtain p where p: "qAuth r = ''Bearer '' @ p" "HasPrefix (TrimSpace p) tokenPrefix" "length (TrimSpace p) \<le> 256"
    "apiTokenHash sha (TrimSpace p) = getS (secrets c) (tokenSecretPrefix @ tName t)"
    by (auto simp: carries_def tokenPrefix_def tokenSecretPrefix_def apiTokenHash_def)
  have "findToken sha c (TrimSpace p) = Some t" using findToken_complete [OF p(2,3) _ p(4)] t u by blast
  moreover have "HasPrefix (qAuth r) ''Bearer ''" using p(1) by (simp add: HasPrefix_def)
  ultimately show "presentedToken sha c (qAuth r) = Some t" using p(1) by (simp add: presentedToken_def CutPrefix_def)
qed

lemma fromOK_iff: "fromOK t remote \<longleftrightarrow> from_source t remote"
  by (auto simp: fromOK_def from_source_def split: option.splits)

lemma permits_iff: "permits acts t act \<longleftrightarrow> may_use acts t act"
  by (auto simp: permits_def may_use_def not_less split: option.splits)

lemma loginWait_nonneg: "loginWait k n m \<ge> 0"
  by (auto simp: loginWait_def split: option.splits)

lemma tokenAuth_Inr:
  "tokenAuth rd io sha tm loc acts c now unix r m = (m', Inr t, logs) \<longleftrightarrow>
     m' = m \<and> logs = [] \<and> (rd \<longrightarrow> loginWait (loginKey (qRemote r)) unix m = 0) \<and> presentedToken sha c (qAuth r) = Some t
     \<and> \<not> (let e = (case expiry tm t loc of Some e \<Rightarrow> e | None \<Rightarrow> 0) in e \<noteq> 0 \<and> \<not> now < e)
     \<and> fromOK t (qRemote r) \<and> permits acts t (qAction r)"
  using loginWait_nonneg [of "loginKey (qRemote r)" unix m]
  by (auto simp: tokenAuth_def Let_def split: if_splits option.splits prod.splits)

text \<open>
  C11. A request is let in with a token exactly when all of this holds: its source is not locked by the throttle; the
  header is \<open>Bearer\<close> and a token of the right form whose SHA-256 is the one stored for a token of the config; the token
  has not expired; the source address lies in one of the token's networks, if it names any; and the action is one tokens
  may use, covered by the token's scope and its \<open>allow\<close> list. The throttle's records stay as they are.
\<close>

theorem token_auth_exact:
  assumes v: "tokensValidate tm acts' c = []"
    and loc: "\<And>s l l'. ParseInLocation tm s l = None \<longleftrightarrow> ParseInLocation tm s l' = None"
    and hashes: "inj_on (\<lambda>t. getS (secrets c) (''api_token_'' @ tName t)) (set (Tokens c))"
  shows "tokenAuth True io sha tm loc acts c now unix r m = (m', Inr t, logs) \<longleftrightarrow>
     m' = m \<and> logs = [] \<and> loginWait (loginKey (qRemote r)) unix m = 0 \<and> t \<in> set (Tokens c) \<and> carries sha c r t
     \<and> in_force tm loc now t \<and> from_source t (qRemote r) \<and> may_use acts t (qAction r)"
proof -
  have u: "\<forall>t' \<in> set (Tokens c). \<forall>t'' \<in> set (Tokens c).
      getS (secrets c) (tokenSecretPrefix @ tName t') = getS (secrets c) (tokenSecretPrefix @ tName t'') \<longrightarrow> t' = t''"
    using hashes by (auto simp: inj_on_def tokenSecretPrefix_def)
  have e: "(\<not> (let e = (case expiry tm t loc of Some e \<Rightarrow> e | None \<Rightarrow> 0) in e \<noteq> 0 \<and> \<not> now < e)) \<longleftrightarrow> in_force tm loc now t"
    if "t \<in> set (Tokens c)"
  proof -
    have "valid_token tm acts' (secrets c) t" using v that by (auto simp: tokensValidate_def checkTokens_Nil)
    then have "expiry tm t loc \<noteq> None" using loc [of "tExpires t" loc "UTC tm"] unfolding expiry_None valid_token_def by auto
    then obtain e where "expiry tm t loc = Some e" by blast
    moreover have "tExpires t = [] \<Longrightarrow> expiry tm t loc = Some 0" by (simp add: expiry_def)
    ultimately show ?thesis by (auto simp: in_force_def)
  qed
  show ?thesis unfolding tokenAuth_Inr presentedToken_iff [OF u] fromOK_iff permits_iff using e by blast
qed


theorem token_auth_exact_witness:
  "tokenAuth True IoOk demo_sha demo_time () tokenActions demo_config 999 5 demo_req [] = ([], Inr demo_token, [])"
proof -
  have "inj_on (\<lambda>t. getS (secrets demo_config) (''api_token_'' @ tName t)) (set (Tokens demo_config))"
    by (simp add: demo_config_def)
  moreover have "carries demo_sha demo_config demo_req demo_token"
    unfolding carries_def by (rule exI [of _ "''mrt_home''"]) code_simp
  moreover have "in_force demo_time () 999 demo_token"
    by (simp add: in_force_def expiry_def demo_time_def demo_token_def)
  moreover have "fromOK demo_token (qRemote demo_req)" "permits tokenActions demo_token (qAction demo_req)"
    "loginWait (loginKey (qRemote demo_req)) 5 [] = 0" by code_simp+
  moreover have "demo_token \<in> set (Tokens demo_config)" by (simp add: demo_config_def)
  ultimately show ?thesis using token_auth_exact [OF demo_valid, of IoOk demo_sha "()" tokenActions 999 5 demo_req "[]" "[]" demo_token "[]"]
    by (simp add: fromOK_iff permits_iff)
qed

section \<open>What tokens reach\<close>

text \<open>The actions of the API that only a session of the web UI may use.\<close>

definition sessionOnly :: "string list" where
  "sessionOnly = [''session'', ''login'', ''setup'', ''logout'', ''logs'', ''password'', ''setup.complete'', ''reboot'', ''tokens'',
     ''dnslist'', ''dns.files'', ''dns.querylog'', ''proxy.lists'', ''proxy.parse'', ''proxy.fetch'', ''sys.sshkeys'', ''sys.tslogin'', ''sys.logs'',
     ''sys.backup'', ''sys.restore'', ''sys.fw'', ''sys.fwupload'', ''sys.fwupgrade'', ''sys.factoryreset'', ''sys.schedulecheck'',
     ''sys.ddns'', ''sys.ddnsupdate'', ''sys.edgerenew'', ''sys.wol'', ''sys.notifytest'', ''sys.updatecheck'', ''sys.archivetest'']"

lemma table_scopes: "list_all (\<lambda>(a, s). scopeLevel s > 0 \<and> a \<notin> set sessionOnly) tokenActions"
  by code_simp

lemma table_distinct: "distinct (map fst tokenActions)"
  by code_simp

text \<open>
  No token, whatever its scope and \<open>allow\<close> list, may use an action outside the table: the password, logins and
  sessions, logs, reboot, backup, restore, firmware, factory reset, SSH keys and the token list stay with the sessions of
  the web UI. The scopes are ordered: what a token may use, the same token with a higher scope may use as well, and a
  token with an unknown scope may use nothing.
\<close>

theorem token_reach:
  "(permits tokenActions t act \<longrightarrow> act \<notin> set sessionOnly)
   \<and> (permits tokenActions t act \<and> scopeLevel (tScope t) \<le> scopeLevel s \<longrightarrow> permits tokenActions (t\<lparr>tScope := s\<rparr>) act)
   \<and> (tScope t \<notin> {''read'', ''operate'', ''apply''} \<longrightarrow> \<not> permits tokenActions t act)"
proof -
  have t: "scopeLevel need > 0 \<and> act \<notin> set sessionOnly" if "map_of tokenActions act = Some need" for need
    using table_scopes map_of_SomeD [OF that] unfolding list_all_iff by blast
  show ?thesis
    using t scopeLevel_pos(1) [of "tScope t"] unfolding permits_iff may_use_def by auto
qed

theorem token_reach_witness:
  "permits tokenActions demo_token ''mon.now'' \<and> permits tokenActions (demo_token\<lparr>tScope := ''apply''\<rparr>) ''mon.now''
   \<and> \<not> permits tokenActions (demo_token\<lparr>tScope := ''root''\<rparr>) ''mon.now''"
proof -
  have "permits tokenActions demo_token ''mon.now''" by code_simp
  moreover have "scopeLevel (tScope demo_token) \<le> scopeLevel ''apply''" by code_simp
  ultimately show ?thesis
    using token_reach [of demo_token "''mon.now''" "''apply''"] token_reach [of "demo_token\<lparr>tScope := ''root''\<rparr>" "''mon.now''"]
    by simp
qed

section \<open>Bad tokens\<close>

lemma tokenAuth_bad:
  assumes "presentedToken sha c (qAuth r) = None" "loginWait (loginKey (qRemote r)) unix m = 0"
    and "loginBegin io (loginKey (qRemote r)) unix m = (m', b)" "b_ok b"
  shows "tokenAuth rd io sha tm loc acts c now unix r m =
    (m', Inl InvalidToken, if b_locked b > 0 then [BadTokensLocked (qRemote r) (b_locked b)]
                           else if b_fails b = 1 then [FirstBadToken (qRemote r)] else [])"
  using assms by (simp add: tokenAuth_def Let_def)

lemma tokenAuth_locked:
  "loginWait (loginKey (qRemote r)) unix m > 0 \<Longrightarrow>
     tokenAuth True io sha tm loc acts c now unix r m = (m, Inl (TooManyAttempts (loginWait (loginKey (qRemote r)) unix m)), [])"
  by (simp add: tokenAuth_def Let_def)

text \<open>
  Bad tokens count like wrong passwords, in the same records: the fifth failure of a series locks the source for 30 s
  times two to the number of locks in a row (an hour at most), and until then every request with a token from that
  source, a valid one too, is answered 429 with the time left and no check.
\<close>

theorem bad_tokens_lock:
  assumes "logins_ok m" "length m < loginSources"
    and "key = loginKey (qRemote r)" "loginKey (qRemote r') = key"
    and "Fails (rec_of m key) = 4" "unix - Seen (rec_of m key) \<le> loginForget"
    and "Until (rec_of m key) \<le> unix" "unix - Until (rec_of m key) \<le> 3600 \<or> Until (rec_of m key) = 0"
    and "presentedToken sha c (qAuth r) = None"
    and "secs = min (30 * 2 ^ nat (Locks (rec_of m key))) 3600" "unix \<le> t" "t < unix + secs"
  shows "\<exists>m'. tokenAuth True IoOk sha tm loc acts c now unix r m
        = (m', Inl InvalidToken, [BadTokensLocked (qRemote r) (secs * 1000000000)])
     \<and> (\<forall>c' now'. tokenAuth True IoOk sha tm loc acts c' now' t r' m' = (m', Inl (TooManyAttempts (unix + secs - t)), []))"
proof -
  obtain m' b where mb: "loginBegin IoOk key unix m = (m', b)" by (cases "loginBegin IoOk key unix m")
  note f = fifth_failure [OF assms(1,2,5,6,7,8) mb assms(10-12)]
  have "loginWait key unix m = 0" using assms(7) by (auto simp: loginWait_def rec_of_def split: option.splits)
  moreover have "secs * 1000000000 > 0" using assms(11,12) by simp
  ultimately have "tokenAuth True IoOk sha tm loc acts c now unix r m
        = (m', Inl InvalidToken, [BadTokensLocked (qRemote r) (secs * 1000000000)])"
    using tokenAuth_bad [OF assms(9), of unix m IoOk m' b True tm loc acts now] mb f assms(3) by simp
  moreover have w: "loginWait (loginKey (qRemote r')) t m' = unix + secs - t" using f assms(4) by simp
  have "tokenAuth True IoOk sha tm loc acts c' now' t r' m' = (m', Inl (TooManyAttempts (unix + secs - t)), [])" for c' now'
    using tokenAuth_locked [of r' t m'] w assms(12) by simp
  ultimately show ?thesis by blast
qed

theorem bad_tokens_lock_witness:
  "\<exists>m'. snd (tokenAuth True IoOk demo_sha demo_time () tokenActions demo_config 999 20 demo_req m') = (Inl (TooManyAttempts 110), [])"
proof -
  let ?m = "[(''192.168.1.20'', \<lparr>Fails = 4, Until = 0, Locks = 2, Seen = 9\<rparr>)]"
  let ?r = "demo_req\<lparr>qAuth := ''Bearer mrt_guess''\<rparr>"
  have k: "loginKey (qRemote demo_req) = ''192.168.1.20''" "loginKey (qRemote ?r) = ''192.168.1.20''" by code_simp+
  have p: "presentedToken demo_sha demo_config (qAuth ?r) = None" by code_simp
  have "\<exists>m'. tokenAuth True IoOk demo_sha demo_time () tokenActions demo_config 999 10 ?r ?m
        = (m', Inl InvalidToken, [BadTokensLocked (qRemote ?r) (120 * 1000000000)])
     \<and> (\<forall>(c' :: ApiConfig) now'. tokenAuth True IoOk demo_sha demo_time () tokenActions c' now' 20 demo_req m' = (m', Inl (TooManyAttempts (10 + 120 - 20)), []))"
    by (rule bad_tokens_lock [where key = "''192.168.1.20''"])
      (simp_all add: k p [simplified] logins_ok_def rec_ok_def loginMax_def loginSources_def loginForget_def rec_of_def)
  then obtain m' where "tokenAuth True IoOk demo_sha demo_time () tokenActions demo_config 999 20 demo_req m' = (m', Inl (TooManyAttempts (10 + 120 - 20)), [])"
    by blast
  then have "snd (tokenAuth True IoOk demo_sha demo_time () tokenActions demo_config 999 20 demo_req m') = (Inl (TooManyAttempts 110), [])" by simp
  then show ?thesis by (rule exI)
qed

section \<open>The records of last use\<close>

datatype useEvent = Used string int string | Rebooted

text \<open>A use of a token, and a reboot: \<open>/run\<close> starts empty.\<close>

fun useStep :: "useEvent \<Rightarrow> useFiles \<Rightarrow> useFiles" where
  "useStep (Used name t remote) fs = noteTokenUse IoOk IoOk t name remote fs"
| "useStep Rebooted fs = fs\<lparr>usedRun := []\<rparr>"

text \<open>The times of the uses of a token, and the times its record on flash was written.\<close>

fun usesOf :: "string \<Rightarrow> useEvent list \<Rightarrow> int list" where
  "usesOf name [] = []"
| "usesOf name (Used n t r # es) = (if n = name then t # usesOf name es else usesOf name es)"
| "usesOf name (Rebooted # es) = usesOf name es"

fun flashWrites :: "string \<Rightarrow> useFiles \<Rightarrow> useEvent list \<Rightarrow> int list" where
  "flashWrites name fs [] = []"
| "flashWrites name fs (e # es) =
     (if usedDisk (useStep e fs) \<noteq> usedDisk fs \<and> (case e of Used n t r \<Rightarrow> n = name | Rebooted \<Rightarrow> False)
      then [case e of Used n t r \<Rightarrow> t | Rebooted \<Rightarrow> 0] else [])
     @ flashWrites name (useStep e fs) es"

fun endsRunning :: "string \<Rightarrow> bool \<Rightarrow> useEvent list \<Rightarrow> bool" where
  "endsRunning name b [] = b"
| "endsRunning name b (Used n t r # es) = endsRunning name (b \<or> n = name) es"
| "endsRunning name b (Rebooted # es) = endsRunning name False es"

lemma useOf_update: "useOf (AList.update k u m) k' = (if k' = k then u else useOf m k')"
  by (simp add: useOf_def update_conv)

lemma useOf_merge:
  "distinct (map fst m) \<Longrightarrow> useOf (mergeUses m out) k =
     (case map_of m k of Some v \<Rightarrow> if uTime v \<ge> uTime (useOf out k) then v else useOf out k | None \<Rightarrow> useOf out k)"
proof (induction m arbitrary: out)
  case (Cons e m)
  obtain a v where e: "e = (a, v)" by (cases e)
  let ?out = "if uTime v \<ge> uTime (useOf out a) then AList.update a v out else out"
  have "useOf (mergeUses (e # m) out) k = useOf (mergeUses m ?out) k" by (simp add: mergeUses_def e)
  also have "\<dots> = (case map_of m k of Some v \<Rightarrow> if uTime v \<ge> uTime (useOf ?out k) then v else useOf ?out k | None \<Rightarrow> useOf ?out k)"
    using Cons by simp
  finally have m: "useOf (mergeUses (e # m) out) k = \<dots>" .
  show ?case
  proof (cases "k = a")
    case True
    then have "map_of m k = None" using Cons.prems by (simp add: e map_of_eq_None_iff)
    then show ?thesis unfolding m by (simp add: e True useOf_update)
  next
    case False
    then have "useOf ?out k = useOf out k" by (simp add: useOf_update)
    then show ?thesis unfolding m by (simp only:) (simp add: e False)
  qed
qed (simp add: mergeUses_def)

text \<open>The invariant: the record on flash is less than an hour behind the last use, the one in \<open>/run\<close> is the last use
  unless the router was rebooted since.\<close>

definition usesInv :: "string \<Rightarrow> int \<Rightarrow> bool \<Rightarrow> useFiles \<Rightarrow> bool" where
  "usesInv name l b fs \<longleftrightarrow> distinct (map fst (usedRun fs)) \<and> distinct (map fst (usedDisk fs))
     \<and> 0 \<le> uTime (useOf (usedDisk fs) name) \<and> uTime (useOf (usedDisk fs) name) \<le> l \<and> l - uTime (useOf (usedDisk fs) name) < 3600
     \<and> uTime (useOf (usedRun fs) name) \<le> l \<and> (b \<longrightarrow> uTime (useOf (usedRun fs) name) = l)"

lemma usesInv_step:
  assumes "usesInv name l b fs" "0 \<le> l" "case e of Used n t r \<Rightarrow> l \<le> t \<and> 3600 \<le> t | Rebooted \<Rightarrow> True"
  shows "usesInv name (case e of Used n t r \<Rightarrow> if n = name then t else l | Rebooted \<Rightarrow> l)
           (case e of Used n t r \<Rightarrow> b \<or> n = name | Rebooted \<Rightarrow> False) (useStep e fs)"
proof (cases e)
  case (Used n t r)
  then show ?thesis using assms
    by (auto simp: usesInv_def noteTokenUse_def Let_def updateUses_def useOf_update distinct_update split: if_splits)
next
  case Rebooted
  then show ?thesis using assms by (auto simp: usesInv_def useOf_def noUse_def)
qed

fun lastUse :: "string \<Rightarrow> int \<Rightarrow> useEvent list \<Rightarrow> int" where
  "lastUse name l [] = l"
| "lastUse name l (Used n t r # es) = lastUse name (if n = name then t else l) es"
| "lastUse name l (Rebooted # es) = lastUse name l es"

fun inOrder :: "int \<Rightarrow> useEvent list \<Rightarrow> bool" where
  "inOrder l [] = True"
| "inOrder l (Used n t r # es) = (l \<le> t \<and> inOrder t es)"
| "inOrder l (Rebooted # es) = inOrder l es"


lemma usesInv_run:
  "usesInv name l b fs \<Longrightarrow> 0 \<le> l \<Longrightarrow> l \<le> l0 \<Longrightarrow> 3600 \<le> l0 \<Longrightarrow> inOrder l0 es \<Longrightarrow>
     usesInv name (lastUse name l es) (endsRunning name b es) (fold useStep es fs)
     \<and> sorted_wrt (\<lambda>a b. a + 3600 \<le> b) (flashWrites name fs es)
     \<and> (\<forall>w \<in> set (flashWrites name fs es). uTime (useOf (usedDisk fs) name) + 3600 \<le> w)"
proof (induction es arbitrary: l l0 b fs)
  case (Cons e es)
  show ?case
  proof (cases e)
    case Rebooted
    have "usesInv name l False (useStep e fs)" using usesInv_step [OF Cons.prems(1,2), of e] by (simp add: Rebooted)
    from Cons.IH [OF this Cons.prems(2-4)] show ?thesis using Cons.prems(5) by (simp add: Rebooted)
  next
    case (Used n t r)
    let ?l = "if n = name then t else l" and ?fs = "useStep e fs"
    have t: "l0 \<le> t" "inOrder t es" using Cons.prems(5) by (simp_all add: Used)
    have "usesInv name ?l (b \<or> n = name) ?fs" using usesInv_step [OF Cons.prems(1,2), of e] t Cons.prems(3,4) by (simp add: Used)
    from Cons.IH [OF this _ _ _ t(2)] have
      ih: "usesInv name (lastUse name ?l es) (endsRunning name (b \<or> n = name) es) (fold useStep es ?fs)"
      "sorted_wrt (\<lambda>a b. a + 3600 \<le> b) (flashWrites name ?fs es)"
      "\<forall>w \<in> set (flashWrites name ?fs es). uTime (useOf (usedDisk ?fs) name) + 3600 \<le> w"
      using t Cons.prems(2-4) by simp_all
    have d: "usedDisk ?fs = (if t - uTime (useOf (usedDisk fs) n) < 3600 then usedDisk fs
       else AList.update n \<lparr>uTime = t, uFrom = r\<rparr> (usedDisk fs))"
      by (simp add: Used noteTokenUse_def Let_def updateUses_def)
    show ?thesis
    proof (cases "n = name \<and> usedDisk ?fs \<noteq> usedDisk fs")
      case True
      then have "uTime (useOf (usedDisk fs) name) + 3600 \<le> t" "uTime (useOf (usedDisk ?fs) name) = t"
        using d by (auto simp: useOf_update split: if_splits)
      then show ?thesis using ih True by (auto simp: Used)
    next
      case False
      then have "uTime (useOf (usedDisk ?fs) name) = uTime (useOf (usedDisk fs) name)"
        using d by (cases "n = name") (simp_all add: useOf_update)
      then show ?thesis using ih False by (auto simp: Used)
    qed
  qed
qed simp

text \<open>
  The record of last use is cheap and recent: over any uses and reboots (the clock never running backwards) two
  writes of a token's record to flash are at least an hour apart; the last use that is shown is never later than the
  real one and less than an hour earlier, and it is exact unless the router was rebooted since.
\<close>

theorem token_uses_recent:
  assumes "inOrder 3600 es" and "usesOf name es \<noteq> []"
    and "fs = fold useStep es \<lparr>usedRun = [], usedDisk = []\<rparr>" and "shown = uTime (useOf (tokenUses fs) name)"
  shows "sorted_wrt (\<lambda>a b. a + 3600 \<le> b) (flashWrites name \<lparr>usedRun = [], usedDisk = []\<rparr> es)
     \<and> last (usesOf name es) - 3600 < shown \<and> shown \<le> last (usesOf name es)
     \<and> (endsRunning name False es \<longrightarrow> shown = last (usesOf name es))"
proof -
  have i0: "usesInv name 0 False \<lparr>usedRun = [], usedDisk = []\<rparr>" by (simp add: usesInv_def useOf_def noUse_def)
  note r = usesInv_run [OF i0 _ _ _ assms(1), simplified]
  have ll: "lastUse name l es' = (if usesOf name es' = [] then l else last (usesOf name es'))" for l es'
    by (induction es' arbitrary: l rule: usesOf.induct) auto
  have inv: "usesInv name (last (usesOf name es)) (endsRunning name False es) fs"
    using r ll [of 0 es] assms(2,3) by simp
  let ?d = "uTime (useOf (usedDisk fs) name)" and ?r = "uTime (useOf (usedRun fs) name)"
  have dist: "distinct (map fst (usedRun fs))" "distinct (map fst (usedDisk fs))" and pos: "0 \<le> ?d"
    using inv by (simp_all add: usesInv_def)
  have e: "useOf [] name = noUse" "uTime noUse = 0" by (simp_all add: useOf_def noUse_def)
  have dk: "uTime (useOf (mergeUses (usedDisk fs) []) name) = ?d"
    using pos unfolding useOf_merge [OF dist(2)] e by (cases "map_of (usedDisk fs) name") (simp_all add: useOf_def e)
  have sh: "shown = max ?d ?r"
    using pos dk unfolding assms(4) tokenUses_def useOf_merge [OF dist(1)]
    by (cases "map_of (usedRun fs) name") (auto simp: useOf_def e max_def)
  have g: "?d \<le> last (usesOf name es)" "last (usesOf name es) - ?d < 3600" "?r \<le> last (usesOf name es)"
    "endsRunning name False es \<Longrightarrow> ?r = last (usesOf name es)" using inv by (simp_all add: usesInv_def)
  have "last (usesOf name es) - 3600 < shown" "shown \<le> last (usesOf name es)" using g sh by linarith+
  moreover have "endsRunning name False es \<Longrightarrow> shown = last (usesOf name es)" using g sh by simp
  ultimately show ?thesis using r by simp
qed

theorem token_uses_recent_witness:
  "uTime (useOf (tokenUses (fold useStep [Used ''ha'' 4000 ''a'', Used ''ha'' 5000 ''b'', Rebooted] \<lparr>usedRun = [], usedDisk = []\<rparr>)) ''ha'') \<in> {1401..5000}"
proof -
  let ?es = "[Used ''ha'' 4000 ''a'', Used ''ha'' 5000 ''b'', Rebooted]"
  have "inOrder 3600 ?es" "usesOf ''ha'' ?es \<noteq> []" "last (usesOf ''ha'' ?es) = 5000" by simp_all
  then show ?thesis using token_uses_recent [of ?es "''ha''", OF _ _ refl refl] by auto
qed

end
