(* ===== verification/Token_Guard.thy ===== *)
theory Token_Guard
  imports Api_Token Cfg_Path Apply_Txn
begin

text \<open>
  What a token may not do even within its scope (\<open>tokenGuard\<close>, \<open>lockedChanges\<close>, \<open>handleToken\<close> of \<open>mr/api_token.go\<close>), the
  config a request submits (\<open>candidate\<close> of \<open>mr/api.go\<close>), the snapshot a rollback stages (\<open>stageSnapshot\<close> of
  \<open>mr/history.go\<close>), and the creation and revocation of tokens (\<open>tokenEdit\<close>, \<open>tokenCreate\<close>, \<open>tokenRevoke\<close>,
  \<open>pruneTokenSecrets\<close>).

  JSON and YAML decoding and the edit of a text (\<open>editYAML\<close>) are functions of the environment \<open>e\<close>; \<open>canon e\<close> is
  \<open>canonNode\<close>, the config as a tree. A map a function returns is the list of its assignments in order: the last one to a
  key counts.

  Shown: a candidate without locked changes has the locked sections of the live config, no new local file and no new or
  changed item with a secret (\<open>locked_changes_complete\<close>); a token's apply leaves the tokens and their hashes alone
  (\<open>token_cannot_change_tokens\<close>), but its rollback can bring old hashes back (\<open>rollback_restores_hashes\<close>); after an edit of
  the token list the hashes are exactly those of its tokens (\<open>token_edit_secrets\<close>) and a revoked token is not let in
  (\<open>revoked_token_refused\<close>).
\<close>

section \<open>Paths to files and secrets\<close>

definition subPath :: "string \<Rightarrow> string \<Rightarrow> string" where
  "subPath path k = (if path \<noteq> [] then path @ ''.'' @ fmtKey k else fmtKey k)"

definition itemPath :: "string \<Rightarrow> nat \<Rightarrow> node \<Rightarrow> string \<Rightarrow> string" where
  "itemPath k i it path = path @ ''['' @ itemSel k i it @ '']''"

definition namesValue :: "string \<Rightarrow> node \<times> node \<Rightarrow> bool" where
  "namesValue sfx e \<longleftrightarrow> HasSuffix (kval (fst e)) sfx \<and> isScalar (snd e) \<and> kval (snd e) \<noteq> []"

function (sequential) secretHolders :: "node \<Rightarrow> string \<Rightarrow> (string \<times> node) list"
  and holderEntries :: "node \<Rightarrow> (node \<times> node) list \<Rightarrow> string \<Rightarrow> (string \<times> node) list"
  and holderItems :: "string \<Rightarrow> nat \<Rightarrow> node list \<Rightarrow> string \<Rightarrow> (string \<times> node) list" where
  "secretHolders (Map t es) path = holderEntries (Map t es) es path"
| "secretHolders (Seq t xs) path = holderItems (seqKey (Seq t xs)) 0 xs path"
| "secretHolders (Scalar t q v) path = []"
| "holderEntries n [] path = []"
| "holderEntries n ((k, v) # es) path =
     (if namesValue ''_secret'' (k, v) then [(path, n)] else [])
     @ secretHolders v (subPath path (kval k)) @ holderEntries n es path"
| "holderItems k i [] path = []"
| "holderItems k i (it # its) path = secretHolders it (itemPath k i it path) @ holderItems k (Suc i) its path"
  by pat_completeness auto
termination
  by (relation "measure (\<lambda>x. case x of
        Inl (a, _) \<Rightarrow> size a
      | Inr (Inl (_, es, _)) \<Rightarrow> size_list (size_prod size size) es
      | Inr (Inr (_, _, xs, _)) \<Rightarrow> size_list size xs)") auto

function (sequential) fileRefs :: "node \<Rightarrow> string \<Rightarrow> (string \<times> string) list"
  and refEntries :: "(node \<times> node) list \<Rightarrow> string \<Rightarrow> (string \<times> string) list"
  and refItems :: "string \<Rightarrow> nat \<Rightarrow> node list \<Rightarrow> string \<Rightarrow> (string \<times> string) list" where
  "fileRefs (Map t es) path = refEntries es path"
| "fileRefs (Seq t xs) path = refItems (seqKey (Seq t xs)) 0 xs path"
| "fileRefs (Scalar t q v) path = []"
| "refEntries [] path = []"
| "refEntries ((k, v) # es) path =
     (if namesValue ''_file'' (k, v) then [(subPath path (kval k), kval v)] else [])
     @ fileRefs v (subPath path (kval k)) @ refEntries es path"
| "refItems k i [] path = []"
| "refItems k i (it # its) path = fileRefs it (itemPath k i it path) @ refItems k (Suc i) its path"
  by pat_completeness auto
termination
  by (relation "measure (\<lambda>x. case x of
        Inl (a, _) \<Rightarrow> size a
      | Inr (Inl (es, _)) \<Rightarrow> size_list (size_prod size size) es
      | Inr (Inr (_, _, xs, _)) \<Rightarrow> size_list size xs)") auto

section \<open>Locked changes\<close>

definition tokenLocked :: "string list" where
  "tokenLocked = [''api'', ''services.ssh'', ''system.sysctl'', ''guard'', ''notify'']"

text \<open>The value of the last assignment to a key.\<close>

definition lastOf :: "(string \<times> 'a) list \<Rightarrow> string \<Rightarrow> 'a option" where
  "lastOf m k = map_of (rev m) k"

definition keysOf :: "(string \<times> 'a) list \<Rightarrow> string list" where
  "keysOf m = sort (remdups (map fst m))"

definition nodeOpt :: "node \<Rightarrow> string \<Rightarrow> node option" where
  "nodeOpt n p = (case parsePath p of Inl _ \<Rightarrow> Some n
     | Inr steps \<Rightarrow> (case nodeAt n steps of Inl _ \<Rightarrow> None | Inr x \<Rightarrow> Some x))"

fun nodeEqualO :: "node option \<Rightarrow> node option \<Rightarrow> bool" where
  "nodeEqualO (Some a) (Some b) = nodeEqual a b"
| "nodeEqualO None None = True"
| "nodeEqualO _ _ = False"

definition lockedIn :: "node \<Rightarrow> node \<Rightarrow> string list" where
  "lockedIn an bn =
     filter (\<lambda>p. \<not> nodeEqualO (nodeOpt an p) (nodeOpt bn p)) tokenLocked
     @ (let have = map (\<lambda>p. the (lastOf (fileRefs an []) p)) (keysOf (fileRefs an [])); refs = fileRefs bn [] in
        filter (\<lambda>p. the (lastOf refs p) \<notin> set have) (keysOf refs))
     @ (let old = secretHolders an []; cur = secretHolders bn [] in
        map (\<lambda>p. p @ '' (it references a secret)'')
          (filter (\<lambda>p. case lastOf old p of None \<Rightarrow> True | Some o' \<Rightarrow> \<not> nodeEqual o' (the (lastOf cur p))) (keysOf cur)))"

text \<open>With no tree for one of the configs, all of it counts as changed.\<close>

definition lockedChanges :: "('c \<Rightarrow> node option) \<Rightarrow> 'c \<Rightarrow> 'c \<Rightarrow> string list" where
  "lockedChanges canon a b =
     (case (canon a, canon b) of (Some an, Some bn) \<Rightarrow> lockedIn an bn | _ \<Rightarrow> [''the config''])"

section \<open>The config a request submits\<close>

record configSubmit =
  inConfig :: string
  inSecrets :: "(string \<times> string) list"
  inConfirm :: int
  inComment :: string
  inPatch :: "patchOp list"
  inYAML :: string
  inBaseRev :: string

record 'c guardEnv =
  submitOf :: "string \<Rightarrow> configSubmit option"
  refOf :: "string \<Rightarrow> int \<times> string"
  editYAML :: "string \<Rightarrow> patchOp list \<Rightarrow> string + (string \<times> 'c)"
  decodeConfig :: "string \<Rightarrow> string + 'c"
  configFromJSON :: "string \<Rightarrow> string + (string \<times> 'c)"
  canon :: "'c \<Rightarrow> node option"
  defaultsOf :: "'c \<Rightarrow> 'c"
  world_of :: env

definition regexpSecretKey :: "string \<Rightarrow> bool" where
  "regexpSecretKey k \<longleftrightarrow> k \<noteq> [] \<and> length k \<le> 40
     \<and> list_all (\<lambda>c. c = CHR ''_'' \<or> c = CHR ''-'' \<or> lower c \<or> isDigit c) k"

definition pruneTokenSecrets :: "'c ApiConfig_scheme \<Rightarrow> smap \<Rightarrow> smap" where
  "pruneTokenSecrets c sec =
     filter (\<lambda>(k, v). \<not> (HasPrefix k tokenSecretPrefix \<and> k \<notin> set (map (\<lambda>t. tokenSecretPrefix @ tName t) (Tokens c)))) sec"

definition patchedConfig :: "'c guardEnv \<Rightarrow> disk \<Rightarrow> patchOp list \<Rightarrow> string + (string \<times> 'c)" where
  "patchedConfig e k edits =
     (case readFile (files k) ConfigPath of None \<Rightarrow> Inl ''no router.yaml'' | Some cur \<Rightarrow> editYAML e cur edits)"

definition submitted :: "'c guardEnv \<Rightarrow> disk \<Rightarrow> configSubmit \<Rightarrow> string + (string \<times> 'c)" where
  "submitted e k i =
     (if inPatch i \<noteq> [] then patchedConfig e k (inPatch i)
      else if inYAML i \<noteq> [] then
        (if int (length (inYAML i)) > 1048576 then Inl ''router.yaml: larger than 1 MiB''
         else (case decodeConfig e (inYAML i) of Inl err \<Rightarrow> Inl (''router.yaml: '' @ err) | Inr c \<Rightarrow> Inr (inYAML i, c)))
      else configFromJSON e (inConfig i))"

definition setSecrets :: "(string \<times> string) list \<Rightarrow> smap \<Rightarrow> smap" where
  "setSecrets new sec = fold (\<lambda>(k, v) m. if v \<noteq> [] then AList.update k v m else m) new sec"

definition candidate ::
  "'c ApiConfig_scheme guardEnv \<Rightarrow> disk \<Rightarrow> apiReq \<Rightarrow> string + ('c ApiConfig_scheme \<times> string \<times> smap \<times> int)" where
  "candidate e k r =
     (case submitOf e (qBody r) of
        None \<Rightarrow> Inl ''bad JSON''
      | Some i \<Rightarrow>
          (case submitted e k i of
             Inl err \<Rightarrow> Inl err
           | Inr (y, c) \<Rightarrow>
               (case find (\<lambda>(s, v). s = pwSecretKey \<or> \<not> regexpSecretKey s) (inSecrets i) of
                  Some (s, v) \<Rightarrow> Inl (''invalid secret key '' @ s)
                | None \<Rightarrow>
                    (let sec = pruneTokenSecrets c (setSecrets (inSecrets i) (readSecrets (world_of e) (files k))) in
                     Inr (defaultsOf e (c\<lparr>secrets := sec\<rparr>), y, sec, inConfirm i)))))"

section \<open>Snapshots\<close>

definition revSnapshot :: "disk \<Rightarrow> int \<Rightarrow> string option" where
  "revSnapshot k n = map_option (\<lambda>r. JoinP HistoryDir (rSnapshot r)) (find (\<lambda>r. rRev r = n) (sort_key rRev (filter (\<lambda>r. rRev r > 0) (map snd (revs k)))))"

text \<open>\<open>filepath.Base\<close> of any string: trailing slashes off, then what follows the last one.\<close>

definition baseName :: "string \<Rightarrow> string" where
  "baseName s = (let t = rev (dropWhile (\<lambda>c. c = CHR ''/'') (rev s)) in
     if s = [] then ''.'' else if t = [] then ''/'' else Base t)"

definition refSnap :: "disk \<Rightarrow> int \<times> string \<Rightarrow> string option" where
  "refSnap k h =
     (if fst h > 0 then revSnapshot k (fst h)
      else (let name = baseName (snd h) in if HasSuffix name ''.tar.gz'' then Some (JoinP HistoryDir name) else None))"

text \<open>What a rollback stages: the text and secrets of the snapshot, with the current password of the web UI.\<close>

definition stageSnapshot :: "env \<Rightarrow> disk \<Rightarrow> string \<Rightarrow> (string \<times> smap) option" where
  "stageSnapshot e k snap =
     (case snapshotFile k snap ConfigPath of
        None \<Rightarrow> None
      | Some y \<Rightarrow>
          (let sec = (case snapshotFile k snap SecretsPath of None \<Rightarrow> []
                      | Some s \<Rightarrow> (case unmarshal e s of Some m \<Rightarrow> m | None \<Rightarrow> []))
           in Some (y, (case map_of (readSecrets e (files k)) pwSecretKey of
                          Some pw \<Rightarrow> AList.update pwSecretKey pw sec
                        | None \<Rightarrow> AList.delete pwSecretKey sec))))"

section \<open>The guard\<close>

datatype guardRefusal =
    SetsHashes
  | NeedsBaseRev
  | ChangesLocked "string list"
  | RollbackChanges "string list"
  | NotItsChange string

fun guardCode :: "guardRefusal \<Rightarrow> nat" where
  "guardCode NeedsBaseRev = 400"
| "guardCode _ = 403"

definition guardChange :: "'c ApiConfig_scheme guardEnv \<Rightarrow> disk \<Rightarrow> 'c ApiConfig_scheme \<Rightarrow> apiReq \<Rightarrow> guardRefusal option" where
  "guardChange e k live r =
     (case submitOf e (qBody r) of
        None \<Rightarrow> None
      | Some i \<Rightarrow>
          if list_ex (\<lambda>(s, v). HasPrefix s tokenSecretPrefix) (inSecrets i) then Some SetsHashes
          else if qAction r = ''apply'' \<and> inPatch i = [] \<and> inBaseRev i = [] then Some NeedsBaseRev
          else (case candidate e k r of
                  Inl _ \<Rightarrow> None
                | Inr (cand, _) \<Rightarrow>
                    (let bad = lockedChanges (canon e) live cand in if bad \<noteq> [] then Some (ChangesLocked bad) else None)))"

definition guardRollback :: "'c ApiConfig_scheme guardEnv \<Rightarrow> disk \<Rightarrow> 'c ApiConfig_scheme \<Rightarrow> apiReq \<Rightarrow> guardRefusal option" where
  "guardRollback e k live r =
     (case refSnap k (refOf e (qBody r)) of
        None \<Rightarrow> None
      | Some snap \<Rightarrow>
          (case snapshotFile k snap ConfigPath of
             None \<Rightarrow> None
           | Some y \<Rightarrow>
               (case decodeConfig e y of
                  Inl _ \<Rightarrow> None
                | Inr old \<Rightarrow>
                    (let bad = lockedChanges (canon e) live (defaultsOf e (old\<lparr>secrets := secrets live\<rparr>)) in
                     if bad \<noteq> [] then Some (RollbackChanges bad) else None))))"

definition tokenGuard :: "'c ApiConfig_scheme guardEnv \<Rightarrow> disk \<Rightarrow> 'c ApiConfig_scheme \<Rightarrow> apiReq \<Rightarrow> guardRefusal option" where
  "tokenGuard e k live r =
     (if qAction r = ''plan'' \<or> qAction r = ''validate'' \<or> qAction r = ''apply'' then guardChange e k live r
      else if qAction r = ''rollback'' then guardRollback e k live r
      else if qAction r = ''confirm'' \<or> qAction r = ''revert'' then
        (case readPending k of Some (Some p) \<Rightarrow> if pVia p \<noteq> qVia r then Some (NotItsChange (pVia p)) else None | _ \<Rightarrow> None)
      else None)"

text \<open>The answer to a request with a token: an error, or the request that \<open>apiAction\<close> then runs.\<close>

datatype tokenReply = NoConfig string | Refused refusal | Guarded guardRefusal | Runs apiReq

record throttle =
  canRead :: bool
  ioLogin :: file_io
  ioRun :: file_io
  ioDisk :: file_io

definition handleToken ::
  "throttle \<Rightarrow> (string \<Rightarrow> bytes) \<Rightarrow> 'l timelib \<Rightarrow> 'l \<Rightarrow> (string \<times> string) list \<Rightarrow> 'c ApiConfig_scheme guardEnv \<Rightarrow> disk
    \<Rightarrow> string + 'c ApiConfig_scheme \<Rightarrow> int \<Rightarrow> int \<Rightarrow> apiReq \<Rightarrow> logins \<Rightarrow> useFiles \<Rightarrow> logins \<times> useFiles \<times> tokenReply" where
  "handleToken io sha tm loc acts e k loaded clock unix r m fs =
     (case loaded of
        Inl err \<Rightarrow> (m, fs, NoConfig err)
      | Inr c \<Rightarrow>
          (case tokenAuth (canRead io) (ioLogin io) sha tm loc acts c clock unix r m of
             (m', Inl refused, logs) \<Rightarrow> (m', fs, Refused refused)
           | (m', Inr t, logs) \<Rightarrow>
               (let fs' = noteTokenUse (ioRun io) (ioDisk io) unix (tName t) (qRemote r) fs;
                    r' = r\<lparr>qVia := ''api:'' @ tName t\<rparr>
                in case tokenGuard e k c r' of
                     Some g \<Rightarrow> (m', fs', Guarded g)
                   | None \<Rightarrow> (m', fs', Runs r'))))"

section \<open>Creating and revoking tokens\<close>

text \<open>\<open>problems\<close>: what the other modules' validation reports.\<close>

definition tokenEdit ::
  "'c ApiConfig_scheme guardEnv \<Rightarrow> 'l timelib \<Rightarrow> (string \<times> string) list \<Rightarrow> ('c ApiConfig_scheme \<Rightarrow> string list)
    \<Rightarrow> string \<Rightarrow> smap \<Rightarrow> patchOp \<Rightarrow> string \<Rightarrow> string \<Rightarrow> string + (string \<times> smap \<times> 'c ApiConfig_scheme)" where
  "tokenEdit e tm acts problems cur sec op' name hash =
     (case editYAML e cur [op'] of
        Inl err \<Rightarrow> Inl err
      | Inr (y, c) \<Rightarrow>
          (let sec1 = AList.delete (tokenSecretPrefix @ name) sec;
               sec2 = (if hash \<noteq> [] then AList.update (tokenSecretPrefix @ name) hash sec1 else sec1);
               sec3 = pruneTokenSecrets c sec2;
               c' = defaultsOf e (c\<lparr>secrets := sec3\<rparr>)
           in if tokensValidate tm acts c' \<noteq> [] \<or> problems c' \<noteq> [] then Inl ''invalid'' else Inr (y, sec3, c')))"

text \<open>\<open>item\<close>: the tree of the new token; \<open>tok\<close>: the random token.\<close>

definition tokenCreate ::
  "'c ApiConfig_scheme guardEnv \<Rightarrow> (string \<Rightarrow> bytes) \<Rightarrow> 'l timelib \<Rightarrow> (string \<times> string) list \<Rightarrow> ('c ApiConfig_scheme \<Rightarrow> string list)
    \<Rightarrow> string \<Rightarrow> smap \<Rightarrow> node \<Rightarrow> APIToken \<Rightarrow> string \<Rightarrow> string + (string \<times> smap \<times> 'c ApiConfig_scheme)" where
  "tokenCreate e sha tm acts problems cur sec item t tok =
     tokenEdit e tm acts problems cur sec \<lparr>Op = ''add'', Path = ''api.tokens'', pvalue = Inr item\<rparr> (tName t) (apiTokenHash sha tok)"

definition tokenRevoke ::
  "'c ApiConfig_scheme guardEnv \<Rightarrow> 'l timelib \<Rightarrow> (string \<times> string) list \<Rightarrow> ('c ApiConfig_scheme \<Rightarrow> string list)
    \<Rightarrow> string \<Rightarrow> smap \<Rightarrow> string \<Rightarrow> string + (string \<times> smap \<times> 'c ApiConfig_scheme)" where
  "tokenRevoke e tm acts problems cur sec name =
     tokenEdit e tm acts problems cur sec \<lparr>Op = ''del'', Path = ''api.tokens['' @ fmtSel name @ '']'', pvalue = Inl []\<rparr> name []"

text \<open>\<open>splitList\<close>: fields between commas and spaces.\<close>

definition splitList :: "string \<Rightarrow> string list" where
  "splitList s = filter (\<lambda>w. w \<noteq> []) (concat (map (SplitByte CHR '' '') (SplitByte CHR '','' s)))"

section \<open>Places\<close>

text \<open>Every node of a tree except the values of plain lists, with its path: the specification of the two walks.\<close>

function (sequential) places :: "node \<Rightarrow> string \<Rightarrow> (string \<times> node) list"
  and placeEntries :: "(node \<times> node) list \<Rightarrow> string \<Rightarrow> (string \<times> node) list"
  and placeItems :: "string \<Rightarrow> nat \<Rightarrow> node list \<Rightarrow> string \<Rightarrow> (string \<times> node) list" where
  "places (Map t es) path = (path, Map t es) # placeEntries es path"
| "places (Seq t xs) path = (path, Seq t xs) # (if isInline (Seq t xs) then [] else placeItems (seqKey (Seq t xs)) 0 xs path)"
| "places (Scalar t q v) path = [(path, Scalar t q v)]"
| "placeEntries [] path = []"
| "placeEntries ((k, v) # es) path = places v (subPath path (kval k)) @ placeEntries es path"
| "placeItems k i [] path = []"
| "placeItems k i (it # its) path = places it (itemPath k i it path) @ placeItems k (Suc i) its path"
  by pat_completeness auto
termination
  by (relation "measure (\<lambda>x. case x of
        Inl (a, _) \<Rightarrow> size a
      | Inr (Inl (es, _)) \<Rightarrow> size_list (size_prod size size) es
      | Inr (Inr (_, _, xs, _)) \<Rightarrow> size_list size xs)") auto

definition placed :: "node \<Rightarrow> string \<times> node \<Rightarrow> bool" where
  "placed root pn \<longleftrightarrow> (\<exists>sts. (wf_path sts \<or> sts = []) \<and> nodeAt root sts = Inr (snd pn) \<and> fst pn = fmtPath sts)"

lemma subPath_snoc: "wf_path sts \<or> sts = [] \<Longrightarrow> subPath (fmtPath sts) k = fmtPath (sts @ [keyStep k])"
  by (auto simp: subPath_def fmtPath_snoc dest: fmtPath_nonempty) (simp_all add: fmtPath_def)

lemma places_ok:
  "wfTree n \<Longrightarrow> nodeAt root sts = Inr n \<Longrightarrow> wf_path sts \<or> sts = [] \<and> isMap n \<Longrightarrow>
     path = fmtPath sts \<Longrightarrow> list_all (placed root) (places n path)"
  "set es \<subseteq> set es0 \<Longrightarrow> wfTree (Map t es0) \<Longrightarrow> nodeAt root sts = Inr (Map t es0) \<Longrightarrow> wf_path sts \<or> sts = [] \<Longrightarrow>
     path = fmtPath sts \<Longrightarrow> list_all (placed root) (placeEntries es path)"
  "its = drop i xs \<Longrightarrow> k = seqKey (Seq t xs) \<Longrightarrow> \<not> isInline (Seq t xs) \<Longrightarrow> wfTree (Seq t xs) \<Longrightarrow>
     nodeAt root sts = Inr (Seq t xs) \<Longrightarrow> wf_path sts \<Longrightarrow>
     path = fmtPath sts \<Longrightarrow> list_all (placed root) (placeItems k i its path)"
proof (induction n path and es path and k i its path arbitrary: sts and t es0 sts and t xs sts
    rule: places_placeEntries_placeItems.induct)
  case (1 t es path)
  then have "placed root (path, Map t es)" by (auto simp: placed_def)
  moreover have "list_all (placed root) (placeEntries es path)" using "1.IH" [of es t sts] "1.prems" by auto
  ultimately show ?case by simp
next
  case (2 t xs path)
  then have "placed root (path, Seq t xs)" by (auto simp: placed_def)
  moreover have "list_all (placed root) (placeItems (seqKey (Seq t xs)) 0 xs path)" if "\<not> isInline (Seq t xs)"
    using "2.IH" [OF that, of xs t sts] that "2.prems" by auto
  ultimately show ?case by simp
next
  case (3 t q v path)
  then show ?case by (auto simp: placed_def)
next
  case (4 path)
  then show ?case by simp
next
  case (5 k v es path)
  have kv: "(k, v) \<in> set es0" using "5.prems" by simp
  let ?sts = "sts @ [keyStep (kval k)]"
  have w: "wf_path ?sts" using "5.prems" by (intro wf_path_snoc) (auto simp: wf_step_def)
  have p: "subPath path (kval k) = fmtPath ?sts" using "5.prems" subPath_snoc by simp
  have "wfTree v" using "5.prems" kv by (auto simp: wfM_iff)
  then have "list_all (placed root) (places v (fmtPath ?sts))"
    using "5.IH"(1) [of ?sts] nodeAt_entry [OF "5.prems"(3,2) kv] w p by simp
  moreover have "list_all (placed root) (placeEntries es path)" using "5.IH"(2) [of es0 t sts] "5.prems" by simp
  ultimately show ?case using p by simp
next
  case (6 k i path)
  then show ?case by simp
next
  case (7 k i it its path)
  then have i: "i < length xs" "it = xs ! i" "its = drop (Suc i) xs"
    by (metis drop_eq_Nil leI list.distinct(1), metis hd_drop_conv_nth drop_eq_Nil leI list.distinct(1) list.sel(1),
        metis drop_Suc list.sel(3) tl_drop)
  obtain w where s: "itemSel k i it = fmtSel w" and n: "nodeAt root (sts @ [selStep [] w]) = Inr it"
    using nodeAt_item [OF "7.prems"(5,4,3) i(1) "7.prems"(2)] i by auto
  let ?sts = "sts @ [selStep [] w]"
  have w: "wf_path ?sts" using "7.prems" by (intro wf_path_snoc) (auto simp: wf_step_def)
  have p: "itemPath k i it path = fmtPath ?sts" using "7.prems" s by (simp add: fmtPath_snoc itemPath_def)
  have "wfTree it" using "7.prems" i by (auto simp: wfS_iff)
  then have "list_all (placed root) (places it (fmtPath ?sts))" using "7.IH"(1) [of ?sts] n w p by simp
  moreover have "list_all (placed root) (placeItems k (Suc i) its path)"
    using "7.IH"(2) [OF i(3), of t sts] "7.prems" by blast
  ultimately show ?case using p by simp
qed

lemma placed_unique:
  assumes "placed a (p, x)" "placed b (p, y)"
  obtains sts where "nodeAt a sts = Inr x" "nodeAt b sts = Inr y"
proof -
  obtain s1 s2 where s: "wf_path s1 \<or> s1 = []" "nodeAt a s1 = Inr x" "p = fmtPath s1"
    "wf_path s2 \<or> s2 = []" "nodeAt b s2 = Inr y" "p = fmtPath s2" using assms unfolding placed_def fst_conv snd_conv by blast
  have "fmtPath [] = []" by (simp add: fmtPath_def)
  then have "s1 = s2" using s fmtPath_nonempty paths.enc_inj by metis
  then show thesis using s that by blast
qed

text \<open>A mapping with a secret, and the files a mapping names.\<close>

fun holdsSecret :: "node \<Rightarrow> bool" where
  "holdsSecret (Map t es) = list_ex (namesValue ''_secret'') es"
| "holdsSecret _ = False"

fun filesNamed :: "node \<Rightarrow> string set" where
  "filesNamed (Map t es) = (\<lambda>e. kval (snd e)) ` {e \<in> set es. namesValue ''_file'' e}"
| "filesNamed _ = {}"

lemma inline_scalars: "isInline (Seq t xs) \<Longrightarrow> list_all isScalar xs"
  by (auto simp: isInline_def list_all_iff)

text \<open>
  The interface of a walk over a tree that collects something at each entry of a mapping (\<open>here\<close>: the mapping, its path
  and the entry): what it finds is what is there at the places of the tree.
\<close>

locale tree_walk =
  fixes W :: "node \<Rightarrow> string \<Rightarrow> 'r list" and WE :: "node \<Rightarrow> (node \<times> node) list \<Rightarrow> string \<Rightarrow> 'r list"
    and WI :: "string \<Rightarrow> nat \<Rightarrow> node list \<Rightarrow> string \<Rightarrow> 'r list" and here :: "node \<Rightarrow> string \<Rightarrow> node \<times> node \<Rightarrow> 'r list"
  assumes W_Map: "W (Map t es) path = WE (Map t es) es path"
    and W_Seq: "W (Seq t xs) path = WI (seqKey (Seq t xs)) 0 xs path"
    and W_Scalar: "W (Scalar t q s) path = []"
    and WE_Nil: "WE n [] path = []"
    and WE_Cons: "WE n ((k, v) # es) path = here n path (k, v) @ W v (subPath path (kval k)) @ WE n es path"
    and WI_Nil: "WI sk i [] path = []"
    and WI_Cons: "WI sk i (it # its) path = W it (itemPath sk i it path) @ WI sk (Suc i) its path"
begin

lemma inline_none: "list_all isScalar xs \<Longrightarrow> WI k i xs path = []"
  by (induction xs arbitrary: i) (auto simp: WI_Nil WI_Cons W_Scalar elim: isScalar.elims)

lemma walk_places:
  "set (W n path) = {x. \<exists>q t es e. (q, Map t es) \<in> set (places n path) \<and> e \<in> set es \<and> x \<in> set (here (Map t es) q e)}"
  "set (WE n0 es0 path) = {x. \<exists>e. e \<in> set es0 \<and> x \<in> set (here n0 path e)}
     \<union> {x. \<exists>q t es e. (q, Map t es) \<in> set (placeEntries es0 path) \<and> e \<in> set es \<and> x \<in> set (here (Map t es) q e)}"
  "set (WI k i xs path) = {x. \<exists>q t es e. (q, Map t es) \<in> set (placeItems k i xs path) \<and> e \<in> set es \<and> x \<in> set (here (Map t es) q e)}"
proof (induction n path and es0 path and k i xs path arbitrary: and n0 and rule: places_placeEntries_placeItems.induct)
  case (1 t es path)
  show ?case unfolding W_Map 1 places.simps set_simps by blast
next
  case (2 t xs path)
  show ?case
  proof (cases "isInline (Seq t xs)")
    case True
    then show ?thesis using inline_none [OF inline_scalars] by (simp add: W_Seq)
  qed (simp add: W_Seq 2)
next
  case (5 k v es path)
  have "set (WE n0 ((k, v) # es) path) = set (here n0 path (k, v)) \<union> set (W v (subPath path (kval k))) \<union> set (WE n0 es path)"
    by (simp add: WE_Cons Un_assoc)
  then show ?case unfolding 5 placeEntries.simps set_append set_simps by blast
next
  case (7 k i it its path)
  show ?case unfolding WI_Cons set_append 7 placeItems.simps by blast
qed (simp_all add: W_Scalar WE_Nil WI_Nil)

end

interpretation secret_walk: tree_walk secretHolders holderEntries holderItems
    "\<lambda>n path e. if namesValue ''_secret'' e then [(path, n)] else []"
  by unfold_locales simp_all

interpretation file_walk: tree_walk fileRefs "\<lambda>n. refEntries" refItems
    "\<lambda>n path e. if namesValue ''_file'' e then [(subPath path (kval (fst e)), kval (snd e))] else []"
  by unfold_locales simp_all

lemma secretHolders_places: "set (secretHolders n path) = {pn \<in> set (places n path). holdsSecret (snd pn)}"
proof (rule set_eqI)
  fix x :: "string \<times> node"
  obtain q m where x: "x = (q, m)" by (cases x)
  have "x \<in> set (secretHolders n path) \<longleftrightarrow>
      (\<exists>t es e. m = Map t es \<and> (q, Map t es) \<in> set (places n path) \<and> e \<in> set es \<and> namesValue ''_secret'' e)"
    unfolding secret_walk.walk_places(1) x by (auto split: if_splits) blast
  then show "x \<in> set (secretHolders n path) \<longleftrightarrow> x \<in> {pn \<in> set (places n path). holdsSecret (snd pn)}"
    by (cases m) (auto simp: x list_ex_iff)
qed

lemma fileRefs_places:
  "set (fileRefs n path) = {(p, f). \<exists>q t es k v. (q, Map t es) \<in> set (places n path) \<and> (k, v) \<in> set es
     \<and> namesValue ''_file'' (k, v) \<and> p = subPath q (kval k) \<and> f = kval v}"
proof (rule set_eqI)
  fix x :: "string \<times> string"
  show "x \<in> set (fileRefs n path) \<longleftrightarrow> x \<in> {(p, f). \<exists>q t es k v. (q, Map t es) \<in> set (places n path) \<and> (k, v) \<in> set es
     \<and> namesValue ''_file'' (k, v) \<and> p = subPath q (kval k) \<and> f = kval v}"
    unfolding file_walk.walk_places(1) by (cases x) (auto split: if_splits, force+)
qed

lemma places_self: "(path, n) \<in> set (places n path)"
  by (cases n) auto

lemma places_child:
  "(q, Map t es) \<in> set (places n path) \<Longrightarrow> (k, v) \<in> set es \<Longrightarrow> (subPath q (kval k), v) \<in> set (places n path)"
  "(q, Map t es) \<in> set (placeEntries es0 path) \<Longrightarrow> (k, v) \<in> set es \<Longrightarrow> (subPath q (kval k), v) \<in> set (placeEntries es0 path)"
  "(q, Map t es) \<in> set (placeItems k0 i xs path) \<Longrightarrow> (k, v) \<in> set es \<Longrightarrow> (subPath q (kval k), v) \<in> set (placeItems k0 i xs path)"
proof (induction n path and es0 path and k0 i xs path rule: places_placeEntries_placeItems.induct)
  case (1 t0 es1 path)
  have "(subPath path (kval k), v) \<in> set (placeEntries es' path)" if "(k, v) \<in> set es'" for es'
    using that by (induction es') (auto simp: places_self)
  then show ?case using 1 by auto
qed (auto split: if_splits)

lemma lastOf_cases:
  assumes "p \<in> fst ` set m"
  obtains x where "lastOf m p = Some x" "(p, x) \<in> set m"
proof -
  obtain x where x: "lastOf m p = Some x"
    using assms unfolding lastOf_def by (metis map_of_eq_None_iff not_Some_eq set_rev)
  then have "(p, x) \<in> set m" using map_of_SomeD [of "rev m" p x] by (simp add: lastOf_def)
  then show thesis using that x by blast
qed

lemma set_keysOf [simp]: "set (keysOf m) = fst ` set m"
  by (simp add: keysOf_def)

text \<open>
  C13. A candidate config that \<open>lockedChanges\<close> lets pass leaves the locked parts alone: the token list, SSH, sysctl, the
  guard and the notifications are as in the live config; every local file it names is named in the live config; and every
  mapping of it with a secret stands at the same path of the live config, unchanged.
\<close>

theorem locked_changes_complete:
  assumes tree: "wfTree an" "isMap an" "wfTree bn" "isMap bn" and pass: "lockedIn an bn = []"
  shows "(\<forall>p \<in> set tokenLocked. nodeEqualO (nodeOpt an p) (nodeOpt bn p))
     \<and> (\<forall>(q, m) \<in> set (places bn []). filesNamed m \<subseteq> (\<Union>(q', m') \<in> set (places an []). filesNamed m'))
     \<and> (\<forall>(q, m) \<in> set (places bn []). holdsSecret m \<longrightarrow>
          (\<exists>sts m'. nodeAt bn sts = Inr m \<and> nodeAt an sts = Inr m' \<and> nodeEqual m' m))"
proof (intro conjI)
  have fmt: "[] = fmtPath []" by (simp add: fmtPath_def)
  have ok: "placed n x" if "wfTree n" "isMap n" "x \<in> set (places n [])" for n x
    using places_ok(1) [of n n "[]" "[]"] that by (simp add: nodeAt_def fmt list_all_iff)
  show "\<forall>p \<in> set tokenLocked. nodeEqualO (nodeOpt an p) (nodeOpt bn p)"
    using pass unfolding lockedIn_def append_is_Nil_conv filter_empty_conv by blast
  show "\<forall>(q, m) \<in> set (places bn []). filesNamed m \<subseteq> (\<Union>(q', m') \<in> set (places an []). filesNamed m')"
  proof safe
    fix q m f assume m: "(q, m) \<in> set (places bn [])" "f \<in> filesNamed m"
    then obtain t es k v where e: "m = Map t es" "(k, v) \<in> set es" "namesValue ''_file'' (k, v)" "f = kval v"
      by (cases m) auto
    let ?p = "subPath q (kval k)" and ?refs = "fileRefs bn []"
    have pr: "(?p, f) \<in> set ?refs" unfolding fileRefs_places using m(1) e by blast
    then have pk: "?p \<in> fst ` set ?refs" by force
    obtain f' where f': "lastOf ?refs ?p = Some f'" "(?p, f') \<in> set ?refs" using lastOf_cases [OF pk] by blast
    then obtain q' t' es' k' v' where m': "(q', Map t' es') \<in> set (places bn [])" "(k', v') \<in> set es'" "?p = subPath q' (kval k')" "f' = kval v'"
      unfolding fileRefs_places by blast
    have "(?p, v) \<in> set (places bn [])" using places_child(1) m(1) e by blast
    moreover have "(?p, v') \<in> set (places bn [])" using places_child(1) [OF m'(1,2)] m'(3) by simp
    ultimately obtain sts where "nodeAt bn sts = Inr v" "nodeAt bn sts = Inr v'"
      using placed_unique [OF ok [OF tree(3,4)] ok [OF tree(3,4)]] by blast
    then have ff: "f' = f" using e(4) m'(4) by simp
    let ?old = "fileRefs an []"
    have "filter (\<lambda>p. the (lastOf ?refs p) \<notin> set (map (\<lambda>p. the (lastOf ?old p)) (keysOf ?old))) (keysOf ?refs) = []"
      using pass by (simp add: lockedIn_def Let_def)
    then have "the (lastOf ?refs ?p) \<in> set (map (\<lambda>p. the (lastOf ?old p)) (keysOf ?old))"
      using pk unfolding filter_empty_conv set_keysOf by blast
    then obtain p where p: "p \<in> fst ` set ?old" "f = the (lastOf ?old p)" using f'(1) ff by auto
    obtain g where "lastOf ?old p = Some g" "(p, g) \<in> set ?old" using lastOf_cases [OF p(1)] by blast
    then have "(p, f) \<in> set ?old" using p(2) by simp
    then obtain q1 t1 es1 k1 v1 where a: "(q1, Map t1 es1) \<in> set (places an [])" "(k1, v1) \<in> set es1" "namesValue ''_file'' (k1, v1)" "f = kval v1"
      unfolding fileRefs_places by blast
    have "f \<in> filesNamed (Map t1 es1)" using a(2-4) by force
    then show "f \<in> (\<Union>(q', m') \<in> set (places an []). filesNamed m')" using a(1) by fast
  qed
  show "\<forall>(q, m) \<in> set (places bn []). holdsSecret m \<longrightarrow>
          (\<exists>sts m'. nodeAt bn sts = Inr m \<and> nodeAt an sts = Inr m' \<and> nodeEqual m' m)"
  proof safe
    fix q m assume m: "(q, m) \<in> set (places bn [])" "holdsSecret m"
    let ?old = "secretHolders an []" and ?cur = "secretHolders bn []"
    have "(q, m) \<in> set ?cur" unfolding secretHolders_places using m by simp
    then have q: "q \<in> fst ` set ?cur" by force
    obtain m2 where m2: "lastOf ?cur q = Some m2" "(q, m2) \<in> set ?cur" using lastOf_cases [OF q] by blast
    then have pm2: "(q, m2) \<in> set (places bn [])" unfolding secretHolders_places by simp
    obtain sts where s: "nodeAt bn sts = Inr m" "nodeAt bn sts = Inr m2"
      using placed_unique [OF ok [OF tree(3,4) m(1)] ok [OF tree(3,4) pm2]] .
    have "filter (\<lambda>p. case lastOf ?old p of None \<Rightarrow> True | Some o' \<Rightarrow> \<not> nodeEqual o' (the (lastOf ?cur p))) (keysOf ?cur) = []"
      using pass by (simp add: lockedIn_def Let_def)
    then obtain o' where o: "lastOf ?old q = Some o'" "nodeEqual o' m2"
      using q m2(1) unfolding filter_empty_conv set_keysOf by (auto split: option.splits)
    then have "(q, o') \<in> set (places an [])"
      using map_of_SomeD [of "rev ?old" q o'] secretHolders_places [of an "[]"] by (auto simp: lastOf_def)
    then obtain sts' where "nodeAt bn sts' = Inr m" "nodeAt an sts' = Inr o'"
      using placed_unique [OF ok [OF tree(3,4) m(1)] ok [OF tree(1,2)]] by blast
    then show "\<exists>sts m'. nodeAt bn sts = Inr m \<and> nodeAt an sts = Inr m' \<and> nodeEqual m' m" using s o(2) by auto
  qed
qed

definition str :: "string \<Rightarrow> node" where
  "str v = Scalar ''!!str'' Plain v"

definition demo_live :: node where
  "demo_live = Map ''!!map''
     [(str ''lan'', Map ''!!map'' [(str ''ipv4'', str ''192.168.1.1/24'')]),
      (str ''wan'', Seq ''!!seq'' [Map ''!!map'' [(str ''name'', str ''wan''), (str ''password_secret'', str ''pppoe'')]]),
      (str ''api'', Map ''!!map'' [(str ''tokens'', Seq ''!!seq'' [Map ''!!map'' [(str ''name'', str ''ha''), (str ''scope'', str ''apply'')]])])]"

definition demo_cand :: node where
  "demo_cand = Map ''!!map''
     [(str ''lan'', Map ''!!map'' [(str ''ipv4'', str ''192.168.8.1/24'')]),
      (str ''wan'', Seq ''!!seq'' [Map ''!!map'' [(str ''name'', str ''wan''), (str ''password_secret'', str ''pppoe'')]]),
      (str ''api'', Map ''!!map'' [(str ''tokens'', Seq ''!!seq'' [Map ''!!map'' [(str ''name'', str ''ha''), (str ''scope'', str ''apply'')]])])]"

lemma demo_unlocked: "lockedIn demo_live demo_cand = []"
  by code_simp

theorem locked_changes_complete_witness:
  "nodeEqualO (nodeOpt demo_live ''api'') (nodeOpt demo_cand ''api'')
   \<and> (\<exists>sts m'. nodeAt demo_cand sts = Inr (Map ''!!map'' [(str ''name'', str ''wan''), (str ''password_secret'', str ''pppoe'')])
        \<and> nodeAt demo_live sts = Inr m' \<and> nodeEqual m' (Map ''!!map'' [(str ''name'', str ''wan''), (str ''password_secret'', str ''pppoe'')]))"
proof -
  let ?m = "Map ''!!map'' [(str ''name'', str ''wan''), (str ''password_secret'', str ''pppoe'')]"
  have t: "wfTree demo_live" "isMap demo_live" "wfTree demo_cand" "isMap demo_cand"
    by (simp_all add: demo_live_def demo_cand_def str_def)
  have "list_ex (\<lambda>pn. pn = (''wan[wan]'', ?m)) (places demo_cand [])" "holdsSecret ?m" by code_simp+
  then have m: "(''wan[wan]'', ?m) \<in> set (places demo_cand [])" "holdsSecret ?m" by (simp_all add: list_ex_iff)
  have "''api'' \<in> set tokenLocked" by (simp add: tokenLocked_def)
  then show ?thesis using locked_changes_complete [OF t demo_unlocked] m by blast
qed

section \<open>The secrets of a candidate\<close>

lemma map_of_filter_key: "map_of (filter (\<lambda>(k, v). P k) m) s = (if P s then map_of m s else None)"
  by (induction m) auto

lemma map_of_prune:
  "map_of (pruneTokenSecrets c sec) s =
     (if HasPrefix s tokenSecretPrefix \<and> s \<notin> set (map (\<lambda>t. tokenSecretPrefix @ tName t) (Tokens c)) then None else map_of sec s)"
  unfolding pruneTokenSecrets_def
  using map_of_filter_key [of "\<lambda>k. \<not> (HasPrefix k tokenSecretPrefix \<and> k \<notin> set (map (\<lambda>t. tokenSecretPrefix @ tName t) (Tokens c)))" sec s]
  by (simp add: case_prod_unfold)

lemma map_of_setSecrets: "s \<notin> fst ` set new \<Longrightarrow> map_of (setSecrets new sec) s = map_of sec s"
  unfolding setSecrets_def by (induction new arbitrary: sec) (auto simp: update_conv')

lemma handleToken_Runs:
  assumes "handleToken io sha tm loc acts e k (Inr live) clock unix r m fs = (m', fs', Runs r')"
  obtains t where "r' = r\<lparr>qVia := ''api:'' @ tName t\<rparr>" "tokenGuard e k live r' = None"
    "\<exists>logs. tokenAuth (canRead io) (ioLogin io) sha tm loc acts live clock unix r m = (m', Inr t, logs)"
  using assms unfolding handleToken_def by (auto simp: Let_def split: prod.splits sum.splits option.splits)

lemma candidate_Inr:
  assumes "candidate e k r = Inr (cand, y, sec, n)"
  obtains i c where "submitOf e (qBody r) = Some i" "submitted e k i = Inr (y, c)"
    "\<forall>s \<in> fst ` set (inSecrets i). s \<noteq> pwSecretKey \<and> regexpSecretKey s"
    "sec = pruneTokenSecrets c (setSecrets (inSecrets i) (readSecrets (world_of e) (files k)))"
    "cand = defaultsOf e (c\<lparr>secrets := sec\<rparr>)"
proof -
  obtain i where i: "submitOf e (qBody r) = Some i" using assms by (cases "submitOf e (qBody r)") (simp_all add: candidate_def)
  obtain y' c where c: "submitted e k i = Inr (y', c)"
    using assms by (cases "submitted e k i") (auto simp: candidate_def i)
  let ?bad = "\<lambda>(s, v). s = pwSecretKey \<or> \<not> regexpSecretKey s"
  have f: "find ?bad (inSecrets i) = None"
    using assms by (cases "find ?bad (inSecrets i)") (auto simp: candidate_def i c)
  then have s: "\<forall>s \<in> fst ` set (inSecrets i). s \<noteq> pwSecretKey \<and> regexpSecretKey s" by (auto simp: find_None_iff)
  have "sec = pruneTokenSecrets c (setSecrets (inSecrets i) (readSecrets (world_of e) (files k))) \<and>
      cand = defaultsOf e (c\<lparr>secrets := sec\<rparr>) \<and> y = y'"
    using assms by (auto simp: candidate_def i c f Let_def)
  then show thesis using that [OF i, of c] c s by simp
qed


definition lab_env :: env where
  "lab_env = \<lparr>fails = \<lambda>_. False, cut = None, cmd = \<lambda>_ _. True, eff = \<lambda>_ _ d. d, now = \<lambda>_. 100, stamp = \<lambda>_. ''s'',
     gone = \<lambda>_. False, netdev = \<lambda>_ _. True, modules = [], iter = id, loadCfg = \<lambda>_ _. None, validate = \<lambda>_. [],
     applied = \<lambda>_. [], rev_of = id, sha256 = id,
     unmarshal = (\<lambda>t. Some (if t = ''s1'' then [(''api_token_ha'', ''sha256:'' @ hexString (replicate 32 1))]
       else [(''api_token_ha'', ''sha256:'' @ hexString (replicate 32 2))])), marshal = \<lambda>_. []\<rparr>"

definition lab_disk :: disk where
  "lab_disk = \<lparr>files = [(ConfigPath, ''y'', 420), (SecretsPath, ''s2'', 384)], links = [], marker = NoMarker,
     snaps = [(''a.tar.gz'', \<lparr>aFiles = [(ConfigPath, ''y'', 420), (SecretsPath, ''s1'', 384)], aList = []\<rparr>)],
     revs = [], listMarker = [], changeLog = []\<rparr>"

definition lab_token :: APIToken where
  "lab_token = demo_token\<lparr>tScope := ''apply'', tAllow := []\<rparr>"

definition lab_live :: ApiConfig where
  "lab_live = demo_config\<lparr>Tokens := [lab_token], secrets := [(''api_token_ha'', ''sha256:'' @ hexString (replicate 32 2))]\<rparr>"

definition lab_submit :: configSubmit where
  "lab_submit = \<lparr>inConfig = [], inSecrets = [(''wifi_key'', ''x'')], inConfirm = 60, inComment = [],
     inPatch = [\<lparr>Op = ''set'', Path = ''lan.ipv4'', pvalue = Inr (str ''192.168.8.1/24'')\<rparr>], inYAML = [], inBaseRev = []\<rparr>"

definition lab_guard :: "ApiConfig guardEnv" where
  "lab_guard = \<lparr>submitOf = (\<lambda>_. Some lab_submit), refOf = (\<lambda>_. (0, ''a.tar.gz'')),
     editYAML = (\<lambda>_ _. Inr (''y2'', lab_live\<lparr>LanIPv4 := ''192.168.8.1/24''\<rparr>)), decodeConfig = (\<lambda>_. Inr lab_live),
     configFromJSON = (\<lambda>_. Inl []), canon = (\<lambda>c. Some (if LanIPv4 c = [] then demo_live else demo_cand)), defaultsOf = id, world_of = lab_env\<rparr>"

definition lab_req :: "string \<Rightarrow> apiReq" where
  "lab_req a = \<lparr>qMethod = ''POST'', qAction = a, qBody = [], qCookie = [], qRemote = ''192.168.1.20'', qHeader = [],
     qAuth = ''Bearer mrt_new'', qVia = []\<rparr>"

definition lab_io :: throttle where
  "lab_io = \<lparr>canRead = True, ioLogin = IoOk, ioRun = IoOk, ioDisk = IoOk\<rparr>"


section \<open>Rollbacks with a token\<close>

lemma nodeEqualO_refl: "nodeEqualO x x"
  by (cases x) (simp_all add: nodeEqual_refl)

lemma lockedIn_refl: "lockedIn an an = []"
proof -
  let ?o = "secretHolders an []"
  have "lastOf ?o p \<noteq> None" if "p \<in> set (keysOf ?o)" for p using that lastOf_cases [of p ?o] by (metis option.distinct(1) set_keysOf)
  then have "filter (\<lambda>p. case lastOf ?o p of None \<Rightarrow> True | Some o' \<Rightarrow> \<not> nodeEqual o' (the (lastOf ?o p))) (keysOf ?o) = []"
    unfolding filter_empty_conv by (auto simp: nodeEqual_refl split: option.splits)
  then show ?thesis unfolding lockedIn_def by (simp add: Let_def nodeEqualO_refl)
qed

text \<open>
  C39. A token's rollback to a snapshot whose config is the live one passes the guard, and what it stages has the secrets
  of the snapshot, token hashes included: only the web UI password is taken from the live secrets. A token that was
  revoked and created again under its name is replaced by the old one.
\<close>

theorem rollback_restores_hashes:
  assumes "qAction r = ''rollback''" "refSnap k (refOf e (qBody r)) = Some snap"
    and "snapshotFile k snap ConfigPath = Some y" "decodeConfig e y = Inr old"
    and "canon e live = Some an" "canon e (defaultsOf e (old\<lparr>secrets := secrets live\<rparr>)) = Some an"
    and "snapshotFile k snap SecretsPath = Some text" "unmarshal (world_of e) text = Some sec"
    and "HasPrefix s ''api_token_''"
  shows "tokenGuard e k live r = None
     \<and> (\<exists>staged. stageSnapshot (world_of e) k snap = Some (y, staged) \<and> map_of staged s = map_of sec s)"
proof -
  have "\<not> HasPrefix ''webui_password'' ''api_token_''" by code_simp
  then have "s \<noteq> pwSecretKey" using assms(9) by (auto simp: pwSecretKey_def)
  then have "\<exists>staged. stageSnapshot (world_of e) k snap = Some (y, staged) \<and> map_of staged s = map_of sec s"
    using assms by (auto simp: stageSnapshot_def Let_def update_conv' delete_conv' split: option.splits)
  moreover have "guardRollback e k live r = None"
    using assms by (simp add: guardRollback_def lockedChanges_def lockedIn_refl)
  ultimately show ?thesis using assms(1) by (simp add: tokenGuard_def)
qed

theorem rollback_restores_hashes_witness:
  "tokenGuard lab_guard lab_disk lab_live (lab_req ''rollback'') = None \<and> findToken demo_sha lab_live ''mrt_home'' = None
   \<and> (\<exists>staged. stageSnapshot lab_env lab_disk (JoinP HistoryDir ''a.tar.gz'') = Some (''y'', staged)
        \<and> findToken demo_sha (lab_live\<lparr>secrets := staged\<rparr>) ''mrt_home'' = Some lab_token)"
proof -
  let ?s = "''api_token_ha''" and ?snap = "JoinP HistoryDir ''a.tar.gz''"
  have a: "qAction (lab_req ''rollback'') = ''rollback''" by (simp add: lab_req_def)
  have r: "refSnap lab_disk (refOf lab_guard (qBody (lab_req ''rollback''))) = Some ?snap"
    "snapshotFile lab_disk ?snap ConfigPath = Some ''y''" by code_simp+
  have d: "decodeConfig lab_guard ''y'' = Inr lab_live"
    "canon lab_guard lab_live = Some demo_live" "canon lab_guard (defaultsOf lab_guard (lab_live\<lparr>secrets := secrets lab_live\<rparr>)) = Some demo_live"
    by (simp_all add: lab_guard_def lab_live_def demo_config_def)
  have u: "snapshotFile lab_disk ?snap SecretsPath = Some ''s1''" by code_simp
  have w: "unmarshal (world_of lab_guard) ''s1'' = Some [(?s, ''sha256:'' @ hexString (replicate 32 1))]"
    by (simp add: lab_guard_def lab_env_def)
  have p: "HasPrefix ?s ''api_token_''" by code_simp
  have f: "findToken demo_sha lab_live ''mrt_home'' = None" by code_simp
  obtain staged where st: "stageSnapshot (world_of lab_guard) lab_disk ?snap = Some (''y'', staged)"
      "map_of staged ?s = Some (''sha256:'' @ hexString (replicate 32 1))" and g: "tokenGuard lab_guard lab_disk lab_live (lab_req ''rollback'') = None"
    using rollback_restores_hashes [OF a r d u w p] by auto
  have "tName lab_token = ''ha''" "Tokens lab_live = [lab_token]" by (simp_all add: lab_token_def demo_token_def lab_live_def)
  moreover have "HasPrefix ''mrt_home'' tokenPrefix" "demo_sha ''mrt_home'' = replicate 32 1" by code_simp+
  ultimately have "findToken demo_sha (lab_live\<lparr>secrets := staged\<rparr>) ''mrt_home'' = Some lab_token"
    using st(2) by (simp add: findToken_def getS_def tokenSecretPrefix_def apiTokenHash_def)
  moreover have "world_of lab_guard = lab_env" by (simp add: lab_guard_def)
  ultimately show ?thesis using f g st(1) by auto
qed

section \<open>Editing the token list\<close>

lemma tokenEdit_Inr:
  assumes "tokenEdit e tm acts problems cur sec op' name hash = Inr (y, sec', c')"
    and dflt: "\<And>c. Tokens (defaultsOf e c) = Tokens c \<and> secrets (defaultsOf e c) = secrets c"
  shows "tokensValidate tm acts c' = []" "secrets c' = sec'"
    and "map_of sec' s = (if HasPrefix s tokenSecretPrefix \<and> s \<notin> set (map (\<lambda>t. tokenSecretPrefix @ tName t) (Tokens c')) then None
       else if s = tokenSecretPrefix @ name then (if hash \<noteq> [] then Some hash else None) else map_of sec s)"
proof -
  obtain c where c: "editYAML e cur [op'] = Inr (y, c)"
    using assms(1) by (auto simp: tokenEdit_def Let_def split: sum.splits if_splits)
  let ?k = "tokenSecretPrefix @ name"
  let ?sec2 = "if hash \<noteq> [] then AList.update ?k hash (AList.delete ?k sec) else AList.delete ?k sec"
  have h: "sec' = pruneTokenSecrets c ?sec2" "c' = defaultsOf e (c\<lparr>secrets := sec'\<rparr>)" "tokensValidate tm acts c' = []"
    using assms(1) by (auto simp: tokenEdit_def c Let_def split: if_splits)
  then show "tokensValidate tm acts c' = []" "secrets c' = sec'" using dflt by simp_all
  have t: "Tokens c' = Tokens c" using h(2) dflt by simp
  have m2: "map_of ?sec2 s = (if s = ?k then (if hash \<noteq> [] then Some hash else None) else map_of sec s)"
    by (simp add: update_conv' delete_conv')
  show "map_of sec' s = (if HasPrefix s tokenSecretPrefix \<and> s \<notin> set (map (\<lambda>t. tokenSecretPrefix @ tName t) (Tokens c')) then None
       else if s = ?k then (if hash \<noteq> [] then Some hash else None) else map_of sec s)"
    unfolding h(1) map_of_prune t m2 ..
qed

text \<open>
  After an edit of the token list the stored hashes are exactly those of its tokens: every token has one, of the form
  of a SHA-256, no other key of that form is left (a name used again later finds no old hash), the hashes of the other
  tokens and all other secrets are as before.
\<close>

theorem token_edit_secrets:
  assumes "tokenEdit e tm acts problems cur sec op' name hash = Inr (y, sec', c')"
    and "\<And>c. Tokens (defaultsOf e c) = Tokens c \<and> secrets (defaultsOf e c) = secrets c"
  shows "(\<forall>s. HasPrefix s ''api_token_'' \<longrightarrow>
           (map_of sec' s \<noteq> None \<longleftrightarrow> s \<in> set (map (\<lambda>t. ''api_token_'' @ tName t) (Tokens c'))) \<and> (\<forall>h. map_of sec' s = Some h \<longrightarrow> reTokenHash h))
     \<and> (\<forall>s. \<not> HasPrefix s ''api_token_'' \<longrightarrow> map_of sec' s = map_of sec s)
     \<and> (\<forall>t \<in> set (Tokens c'). tName t \<noteq> name \<longrightarrow> map_of sec' (''api_token_'' @ tName t) = map_of sec (''api_token_'' @ tName t))"
proof -
  note e = tokenEdit_Inr [OF assms]
  have pre: "HasPrefix (tokenSecretPrefix @ n) tokenSecretPrefix" for n by (simp add: HasPrefix_def)
  have v: "\<exists>h. map_of sec' (tokenSecretPrefix @ tName t) = Some h \<and> reTokenHash h" if "t \<in> set (Tokens c')" for t
    using e(1,2) that by (auto simp: tokensValidate_def checkTokens_Nil valid_token_def)
  have "(map_of sec' s \<noteq> None \<longleftrightarrow> s \<in> set (map (\<lambda>t. tokenSecretPrefix @ tName t) (Tokens c'))) \<and> (\<forall>h. map_of sec' s = Some h \<longrightarrow> reTokenHash h)"
    if "HasPrefix s tokenSecretPrefix" for s
  proof (cases "s \<in> set (map (\<lambda>t. tokenSecretPrefix @ tName t) (Tokens c'))")
    case True
    then show ?thesis using v by fastforce
  next
    case False
    then show ?thesis using e(3) [of s] that by simp
  qed
  moreover have "map_of sec' s = map_of sec s" if "\<not> HasPrefix s tokenSecretPrefix" for s
    using e(3) [of s] that pre by (metis (full_types))
  moreover have "map_of sec' (tokenSecretPrefix @ tName t) = map_of sec (tokenSecretPrefix @ tName t)" if "t \<in> set (Tokens c')" "tName t \<noteq> name" for t
    using e(3) [of "tokenSecretPrefix @ tName t"] that by auto
  ultimately show ?thesis unfolding tokenSecretPrefix_def by blast
qed

text \<open>
  C14. A revoked token is gone for good: after \<open>mr token revoke\<close> no token of that name is left, none is let in under that
  name, and the token that was stored under it is not found any more (unless its hash is stored for another token too).
\<close>

theorem revoked_token_refused:
  assumes "tokenRevoke e tm acts problems cur sec name = Inr (y, sec', c')"
    and "\<And>c. Tokens (defaultsOf e c) = Tokens c \<and> secrets (defaultsOf e c) = secrets c"
    and "map_of sec (''api_token_'' @ name) = Some (apiTokenHash sha p)"
    and "\<And>s. s \<noteq> ''api_token_'' @ name \<Longrightarrow> map_of sec s \<noteq> Some (apiTokenHash sha p)"
  shows "name \<notin> set (map tName (Tokens c')) \<and> map_of sec' (''api_token_'' @ name) = None
     \<and> (\<forall>p' t. findToken sha c' p' = Some t \<longrightarrow> tName t \<noteq> name) \<and> findToken sha c' p = None"
proof -
  note e = tokenEdit_Inr [OF assms(1) [unfolded tokenRevoke_def] assms(2)]
  have gone: "map_of sec' (tokenSecretPrefix @ name) = None" using e(3) [of "tokenSecretPrefix @ name"] by simp
  then have n: "name \<notin> set (map tName (Tokens c'))"
    using e(1,2) by (auto simp: tokensValidate_def checkTokens_Nil valid_token_def)
  have "findToken sha c' p' = Some t \<Longrightarrow> tName t \<noteq> name" for p' t using findToken_Some(3) [of sha c' p' t] n by auto
  moreover have "findToken sha c' p = None"
  proof (rule ccontr)
    assume "findToken sha c' p \<noteq> None"
    then obtain t where t: "findToken sha c' p = Some t" by blast
    then have h: "apiTokenHash sha p = getS sec' (tokenSecretPrefix @ tName t)" using findToken_Some(4) [OF t] e(2) by simp
    then have "map_of sec' (tokenSecretPrefix @ tName t) = Some (apiTokenHash sha p)"
      by (auto simp: getS_def apiTokenHash_def split: option.splits)
    moreover have "tName t \<noteq> name" using findToken_Some(3) [OF t] n by auto
    ultimately have "map_of sec (tokenSecretPrefix @ tName t) = Some (apiTokenHash sha p)"
      using e(3) [of "tokenSecretPrefix @ tName t"] by (auto split: if_splits)
    then show False using assms(4) \<open>tName t \<noteq> name\<close> by (simp add: tokenSecretPrefix_def)
  qed
  ultimately show ?thesis using gone n by (simp add: tokenSecretPrefix_def)
qed

definition lab_secrets :: smap where
  "lab_secrets = [(''wifi_key'', ''x''), (''api_token_ha'', ''sha256:'' @ hexString (replicate 32 1))]"

definition lab_edit :: "APIToken list \<Rightarrow> ApiConfig guardEnv" where
  "lab_edit ts = lab_guard\<lparr>editYAML := (\<lambda>_ _. Inr (''y3'', lab_live\<lparr>Tokens := ts\<rparr>))\<rparr>"

lemma lab_edit_defaults: "Tokens (defaultsOf (lab_edit ts) c) = Tokens c \<and> secrets (defaultsOf (lab_edit ts) c) = secrets c"
  by (simp add: lab_edit_def lab_guard_def)

theorem token_edit_secrets_witness:
  "\<exists>y sec' c'. tokenEdit (lab_edit [lab_token]) demo_time tokenActions (\<lambda>_. []) ''y'' lab_secrets \<lparr>Op = ''add'', Path = ''api.tokens'', pvalue = Inr (str ''t'')\<rparr>
        ''ha'' (''sha256:'' @ hexString (replicate 32 2)) = Inr (y, sec', c') \<and> map_of sec' ''wifi_key'' = Some ''x''
      \<and> (map_of sec' ''api_token_ha'' \<noteq> None \<longleftrightarrow> ''api_token_ha'' \<in> set (map (\<lambda>t. ''api_token_'' @ tName t) (Tokens c')))"
proof -
  let ?e = "tokenEdit (lab_edit [lab_token]) demo_time tokenActions (\<lambda>_. []) ''y'' lab_secrets
     \<lparr>Op = ''add'', Path = ''api.tokens'', pvalue = Inr (str ''t'')\<rparr> ''ha'' (''sha256:'' @ hexString (replicate 32 2))"
  have "\<not> isl ?e" by code_simp
  then obtain y sec' c' where h: "?e = Inr (y, sec', c')" by (cases ?e) auto
  have "\<not> HasPrefix ''wifi_key'' ''api_token_''" "HasPrefix ''api_token_ha'' ''api_token_''" "map_of lab_secrets ''wifi_key'' = Some ''x''" by code_simp+
  then show ?thesis using token_edit_secrets [OF h lab_edit_defaults] h by metis
qed

theorem revoked_token_refused_witness:
  "\<exists>y sec' c'. tokenRevoke (lab_edit []) demo_time tokenActions (\<lambda>_. []) ''y'' lab_secrets ''ha'' = Inr (y, sec', c')
      \<and> findToken demo_sha c' ''mrt_home'' = None"
proof -
  let ?e = "tokenRevoke (lab_edit []) demo_time tokenActions (\<lambda>_. []) ''y'' lab_secrets ''ha''"
  have "\<not> isl ?e" by code_simp
  then obtain y sec' c' where h: "?e = Inr (y, sec', c')" by (cases ?e) auto
  have a: "apiTokenHash demo_sha ''mrt_home'' = ''sha256:'' @ hexString (replicate 32 1)" by (simp add: apiTokenHash_def demo_sha_def)
  have "''x'' \<noteq> ''sha256:'' @ hexString (replicate 32 1)" by simp
  then have "s \<noteq> ''api_token_'' @ ''ha'' \<Longrightarrow> map_of lab_secrets s \<noteq> Some (apiTokenHash demo_sha ''mrt_home'')" for s
    by (auto simp: lab_secrets_def a)
  moreover have "map_of lab_secrets (''api_token_'' @ ''ha'') = Some (apiTokenHash demo_sha ''mrt_home'')" by (simp add: lab_secrets_def a)
  ultimately show ?thesis using revoked_token_refused [OF h lab_edit_defaults, of demo_sha "''mrt_home''"] h by blast
qed

end
