(* ===== verification/Fw_Config.thy ===== *)
theory Fw_Config
  imports Modules Fw_Time Ip_Addr Yaml_Node
begin

text \<open>
  The firewall's config and its validation: \<open>mr/mod_fw.go\<close>, the device inventory of \<open>mr/mod_dev.go\<close> and
  \<open>mr/mod_dev_limit.go\<close>, \<open>presenceValidate\<close> of \<open>mr/mod_fw_presence.go\<close>, the helpers \<open>validPorts\<close>, \<open>validProtos\<close> and
  the patterns of \<open>mr/config.go\<close>. A problem reported to the \<open>Validator\<close> is a value with the path and the values
  its message shows.
\<close>

section \<open>The config\<close>

record Forward =
  fdName :: string
  fdEnabled :: "bool option"
  fdProto :: "string list"
  fdPort :: string
  fdTo :: string
  fdToPort :: string
  fdWAN :: "string list"
  fdSrcIP :: "string list"
  fdDesc :: string

record OpenPort =
  opName :: string
  opEnabled :: "bool option"
  opProto :: "string list"
  opPort :: string
  opWAN :: "string list"
  opSrcIP :: "string list"
  opDesc :: string

record FwV6Allow =
  alName :: string
  alEnabled :: "bool option"
  alIID :: string
  alMAC :: string
  alProto :: "string list"
  alPort :: string
  alSrcIP :: "string list"
  alWAN :: "string list"
  alDesc :: string

record FwWhen =
  Present :: "string list"
  Absent :: "string list"

record FwRule =
  rlName :: string
  rlEnabled :: "bool option"
  rlAction :: string
  rlSrc :: string
  rlDest :: string
  rlSrcIP :: "string list"
  rlSrcMAC :: "string list"
  rlDestIP :: "string list"
  rlProto :: "string list"
  rlDestPort :: string
  rlSchedule :: "FwTime list"
  rlWhen :: "FwWhen option"
  rlCounter :: bool
  rlLog :: bool
  rlDesc :: string

record FwAccess =
  acName :: string
  acEnabled :: "bool option"
  acMACs :: "string list"
  acDevices :: "string list"
  acSchedule :: "FwTime list"
  acDesc :: string

record Firewall =
  Offload :: string
  SynFlood :: bool
  WANPing :: "bool option"
  DropInvalid :: "bool option"
  LogDrops :: bool
  Forwards :: "Forward list"
  OpenPorts :: "OpenPort list"
  IPv6Allow :: "FwV6Allow list"
  Rules :: "FwRule list"
  Access :: "FwAccess list"

record Device =
  dvName :: string
  dvMACs :: "string list"
  dvIP :: string
  dvType :: string
  dvOwner :: string
  dvDesc :: string
  dvWatch :: bool
  dvLimit :: "(int \<times> int) option"

record Host =
  hName :: string
  hMAC :: string
  hIP :: string

record Bypass =
  Clients :: string
  bpMACs :: "string list"
  bpNAT :: "bool option"

text \<open>The parts of the config these modules read, next to those of the core. \<open>Groups\<close> lists a Go map.\<close>

record FwConfig = Config +
  Mode :: string
  Gateway :: string
  BypassSec :: Bypass
  Fw :: Firewall
  Devices :: "Device list"
  Groups :: "(string \<times> string list) list"
  Hosts :: "Host list"

definition on :: "bool option \<Rightarrow> bool" where
  "on b \<longleftrightarrow> b = None \<or> b = Some True"

definition boolp :: "bool \<Rightarrow> bool option" where
  "boolp b = Some b"

definition orTrue :: "bool option \<Rightarrow> bool option" where
  "orTrue b = (if b = None then boolp True else b)"

definition fwDefaults :: "'c FwConfig_scheme \<Rightarrow> 'c FwConfig_scheme" where
  "fwDefaults c =
     (let f = Fw c in
      c\<lparr>Fw := f\<lparr>Offload := (if Offload f = [] then ''hardware'' else Offload f),
                WANPing := orTrue (WANPing f), DropInvalid := orTrue (DropInvalid f),
                Forwards := map (\<lambda>x. x\<lparr>fdEnabled := orTrue (fdEnabled x)\<rparr>) (Forwards f),
                OpenPorts := map (\<lambda>x. x\<lparr>opEnabled := orTrue (opEnabled x)\<rparr>) (OpenPorts f),
                IPv6Allow := map (\<lambda>x. x\<lparr>alEnabled := orTrue (alEnabled x)\<rparr>) (IPv6Allow f),
                Rules := map (\<lambda>x. x\<lparr>rlEnabled := orTrue (rlEnabled x)\<rparr>) (Rules f),
                Access := map (\<lambda>x. x\<lparr>acEnabled := orTrue (acEnabled x)\<rparr>) (Access f)\<rparr>\<rparr>)"

section \<open>Patterns\<close>

definition alnum :: "char \<Rightarrow> bool" where
  "alnum c \<longleftrightarrow> isDigit c \<or> lower c \<or> lower (lowerChar c)"

text \<open>\<open>^[A-Za-z0-9_.-]{1,40}$\<close>\<close>

definition reLabel :: "string \<Rightarrow> bool" where
  "reLabel s \<longleftrightarrow> s \<noteq> [] \<and> length s \<le> 40 \<and> list_all (\<lambda>c. alnum c \<or> c = CHR ''_'' \<or> c = CHR ''.'' \<or> c = CHR ''-'') s"

text \<open>\<open>^([0-9a-fA-F]{2}:){5}[0-9a-fA-F]{2}$\<close>\<close>

definition hexPair :: "string \<Rightarrow> bool" where
  "hexPair p \<longleftrightarrow> length p = 2 \<and> list_all (\<lambda>c. hexDigit c \<noteq> None) p"

definition reMAC :: "string \<Rightarrow> bool" where
  "reMAC s \<longleftrightarrow> (let ps = SplitByte CHR '':'' s in length ps = 6 \<and> list_all hexPair ps)"

text \<open>\<open>^[0-9]{1,5}(-[0-9]{1,5})?$\<close>\<close>

definition digits5 :: "string \<Rightarrow> bool" where
  "digits5 s \<longleftrightarrow> s \<noteq> [] \<and> length s \<le> 5 \<and> list_all isDigit s"

definition rePort :: "string \<Rightarrow> bool" where
  "rePort s \<longleftrightarrow> (case CutByte CHR ''-'' s of (a, b, found) \<Rightarrow> digits5 a \<and> (found \<longrightarrow> digits5 b))"

text \<open>\<open>^[a-z]([a-z0-9-]{0,30}[a-z0-9])?$\<close> and \<open>^[a-z0-9][a-z0-9_-]{0,15}$\<close>\<close>

definition reDevName :: "string \<Rightarrow> bool" where
  "reDevName s \<longleftrightarrow> s \<noteq> [] \<and> length s \<le> 32 \<and> lower (hd s) \<and> (lower (last s) \<or> isDigit (last s))
     \<and> list_all (\<lambda>c. lower c \<or> isDigit c \<or> c = CHR ''-'') (tl s)"

definition reDevLabel :: "string \<Rightarrow> bool" where
  "reDevLabel s \<longleftrightarrow> s \<noteq> [] \<and> length s \<le> 16 \<and> (lower (hd s) \<or> isDigit (hd s))
     \<and> list_all (\<lambda>c. lower c \<or> isDigit c \<or> c = CHR ''_'' \<or> c = CHR ''-'') (tl s)"

text \<open>\<open>n, _ := strconv.Atoi(s)\<close>: 0 for text that is no number, the nearest 64-bit value for one out of range.\<close>

definition atoi :: "string \<Rightarrow> int" where
  "atoi s =
     (case Atoi s of
        Some n \<Rightarrow> n
      | None \<Rightarrow>
          (let ds = (if HasPrefix s ''-'' \<or> HasPrefix s ''+'' then tl s else s) in
           if ds = [] \<or> \<not> list_all isDigit ds then 0
           else if HasPrefix s ''-'' then - (2 ^ 63) else 2 ^ 63 - 1))"

definition portRange :: "string \<Rightarrow> int \<times> int" where
  "portRange s = (case CutByte CHR ''-'' s of (a, b, found) \<Rightarrow> (atoi a, if found then atoi b else atoi a))"

definition validPorts :: "string \<Rightarrow> bool" where
  "validPorts s \<longleftrightarrow> rePort s \<and> (case portRange s of (lo, hi) \<Rightarrow> lo \<ge> 1 \<and> hi \<le> 65535 \<and> lo \<le> hi)"

definition fmtRange :: "int \<Rightarrow> int \<Rightarrow> string" where
  "fmtRange lo hi = (if lo = hi then Itoa lo else Itoa lo @ ''-'' @ Itoa hi)"

definition validProtos :: "string list \<Rightarrow> bool" where
  "validProtos p \<longleftrightarrow> p \<noteq> [] \<and> list_all (\<lambda>x. x = ''tcp'' \<or> x = ''udp'') p"

definition fwPortList :: "string \<Rightarrow> string list option" where
  "fwPortList s =
     (if s = [] then None
      else (let xs = map TrimSpace (SplitByte CHR '','' s) in
            if list_all validPorts xs \<and> length xs \<le> 16 then Some xs else None))"

definition lowerAll :: "string list \<Rightarrow> string list" where
  "lowerAll xs = dedup (map ToLower xs)"

definition fwMaxList :: nat where "fwMaxList = 64"

section \<open>Addresses\<close>

text \<open>One address or CIDR: whether it is IPv4, and its normal form.\<close>

definition fwAddr :: "string \<Rightarrow> (bool \<times> string) option" where
  "fwAddr x =
     (if CHR ''/'' \<in> set x then
        (case ParseCIDR x of None \<Rightarrow> None
         | Some (ip, n) \<Rightarrow>
             if To4 ip \<noteq> None \<and> CHR '':'' \<in> set x then None else Some (To4 ip \<noteq> None, IPNetString n))
      else
        (case ParseIP x of None \<Rightarrow> None
         | Some ip \<Rightarrow>
             if To4 ip \<noteq> None \<and> CHR '':'' \<in> set x then None else Some (To4 ip \<noteq> None, IPString ip)))"

definition fwAddrs :: "string list \<Rightarrow> (string list \<times> string list) option" where
  "fwAddrs xs =
     (let as = map fwAddr xs in
      if length xs > fwMaxList \<or> None \<in> set as then None
      else Some (dedup (map snd (filter fst (map the as))), dedup (map snd (filter (\<lambda>a. \<not> fst a) (map the as)))))"

definition fwFamilies :: "string list \<Rightarrow> string list \<Rightarrow> string list \<Rightarrow> string list \<Rightarrow> bool \<Rightarrow> bool \<Rightarrow> string list" where
  "fwFamilies s4 s6 d4 d6 hasSrc hasDst =
     (if (\<not> hasSrc \<or> s4 \<noteq> []) \<and> (\<not> hasDst \<or> d4 \<noteq> []) then [''ip''] else [])
     @ (if (\<not> hasSrc \<or> s6 \<noteq> []) \<and> (\<not> hasDst \<or> d6 \<noteq> []) then [''ip6''] else [])"

definition fwIIDString :: "bytes \<Rightarrow> string" where
  "fwIIDString b =
     (let gs = groups b in ''::'' @ Join (map hexNat (dropWhile (\<lambda>v. v = 0) (take 3 gs) @ drop 3 gs)) '':'')"

definition fwParseIID :: "string \<Rightarrow> string" where
  "fwParseIID s =
     (if CHR '':'' \<notin> set s \<or> CHR ''/'' \<in> set s then []
      else (case ParseIP s of None \<Rightarrow> []
            | Some ip \<Rightarrow>
                if \<not> list_all (\<lambda>b. b = 0) (take 8 ip) then []
                else if list_all (\<lambda>b. b = 0) (drop 8 ip) then []
                else fwIIDString (drop 8 ip)))"

text \<open>\<open>net.ParseMAC\<close>: bytes between colons or hyphens, or pairs of bytes between dots; 6, 8 or 20 of them.\<close>

fun pairBytes :: "string \<Rightarrow> bytes option" where
  "pairBytes [] = Some []"
| "pairBytes [c] = None"
| "pairBytes (a # b # r) =
     (case (hexDigit a, hexDigit b, pairBytes r) of
        (Some x, Some y, Some bs) \<Rightarrow> Some (word_of_nat (16 * x + y) # bs)
      | _ \<Rightarrow> None)"

definition macParts :: "char \<Rightarrow> nat \<Rightarrow> string \<Rightarrow> bytes option" where
  "macParts sep w s =
     (let ps = SplitByte sep s; bs = map pairBytes ps in
      if list_all (\<lambda>p. length p = w) ps \<and> None \<notin> set bs \<and> length ps * w \<in> {12, 16, 40} then Some (concat (map the bs)) else None)"

definition ParseMAC :: "string \<Rightarrow> bytes option" where
  "ParseMAC s =
     (if length s < 14 then None
      else if s ! 2 = CHR '':'' \<or> s ! 2 = CHR ''-'' then macParts (s ! 2) 2 s
      else if s ! 4 = CHR ''.'' then macParts CHR ''.'' 4 s
      else None)"

definition fwEUI64 :: "string \<Rightarrow> string" where
  "fwEUI64 mac =
     (case ParseMAC mac of
        Some [h0, h1, h2, h3, h4, h5] \<Rightarrow> fwIIDString [h0 XOR 0x02, h1, h2, 0xff, 0xfe, h3, h4, h5]
      | _ \<Rightarrow> [])"

definition iid :: "FwV6Allow \<Rightarrow> string" where
  "iid a = (if alMAC a \<noteq> [] then fwEUI64 (alMAC a) else fwParseIID (alIID a))"

section \<open>Zones and devices\<close>

definition fwZoneIfs :: "'c Config_scheme \<Rightarrow> string \<Rightarrow> string list" where
  "fwZoneIfs c zone =
     (if zone = ''lan'' then map lnBridge (filter (\<lambda>ln. lnZone ln = ''lan'') (LANNets c)) @ [''tailscale0'']
      else if zone = ''guest'' then map lnBridge (filter (\<lambda>ln. lnZone ln = ''guest'') (LANNets c))
      else if zone = ''wan'' then WANIfnames c
      else [])"

definition device :: "'c FwConfig_scheme \<Rightarrow> string \<Rightarrow> Device option" where
  "device c name = find (\<lambda>d. dvName d = name) (Devices c)"

text \<open>The MACs of a device name or of \<open>group:NAME\<close>; \<open>None\<close> when it names nothing.\<close>

definition memberMACs :: "'c FwConfig_scheme \<Rightarrow> string \<Rightarrow> string list" where
  "memberMACs c m = (case device c m of None \<Rightarrow> [] | Some d \<Rightarrow> lowerAll (dvMACs d))"

definition devRefMACs :: "'c FwConfig_scheme \<Rightarrow> string \<Rightarrow> string list option" where
  "devRefMACs c ref =
     (if HasPrefix ref ''group:'' then
        (case map_of (Groups c) (TrimPrefix ref ''group:'') of
           None \<Rightarrow> None
         | Some members \<Rightarrow> Some (dedup (concat (map (memberMACs c) members))))
      else map_option (\<lambda>d. lowerAll (dvMACs d)) (device c ref))"

definition refMACs :: "'c FwConfig_scheme \<Rightarrow> string \<Rightarrow> string list" where
  "refMACs c r = (case devRefMACs c r of None \<Rightarrow> [] | Some m \<Rightarrow> m)"

definition devMACs :: "'c FwConfig_scheme \<Rightarrow> string list \<Rightarrow> string list" where
  "devMACs c refs = dedup (concat (map (refMACs c) refs))"

definition devHostIP :: "'c FwConfig_scheme \<Rightarrow> string \<Rightarrow> string" where
  "devHostIP c s = (case device c s of Some d \<Rightarrow> dvIP d | None \<Rightarrow> s)"

definition knownHosts :: "'c FwConfig_scheme \<Rightarrow> Host list" where
  "knownHosts c =
     Hosts c @ concat (map (\<lambda>d. map (\<lambda>m. \<lparr>hName = dvName d, hMAC = m, hIP = dvIP d\<rparr>) (dvMACs d)) (Devices c))"

definition devLimited :: "'c FwConfig_scheme \<Rightarrow> nat list" where
  "devLimited c =
     (if WANs c = [] then []
      else map fst (filter (\<lambda>(i, d). case dvLimit d of None \<Rightarrow> False | Some (down, up) \<Rightarrow> down > 0 \<or> up > 0)
                     (enumerate 0 (Devices c))))"

definition fwAccessMACs :: "'c FwConfig_scheme \<Rightarrow> FwAccess \<Rightarrow> string list" where
  "fwAccessMACs c a = dedup (lowerAll (acMACs a) @ devMACs c (acDevices a))"

definition accessOn :: "'c FwConfig_scheme \<Rightarrow> nat \<times> FwAccess \<Rightarrow> bool" where
  "accessOn c ia \<longleftrightarrow> on (acEnabled (snd ia)) \<and> fwAccessMACs c (snd ia) \<noteq> []"

definition fwAccessEntries :: "'c FwConfig_scheme \<Rightarrow> nat list" where
  "fwAccessEntries c = map fst (filter (accessOn c) (enumerate 0 (Access (Fw c))))"

section \<open>Validation\<close>

datatype fw_problem =
    BadOffload string
  | BadLabel string string | DupLabel string string | BadDesc string
  | BadPort string string | BadToPort string string | RangeToPort string string string
  | DeviceNoIP string string | UnknownDevice string string | UnknownGroup string string
  | BadTarget string string string
  | BadProtos string "string list" | UnknownWAN string string | DupWAN string string
  | BadAddrs string "string list" | NotV4 string "string list" | NotV6 string "string list"
  | Overlap string string string string
  | OneOfIIDMAC string | BadMAC string string | BadIID string string
  | BadAction string string | BadZone string string string | NoGuest string string
  | RouterAccept string | WideAccept string | WideRouter string | MatchesAll string
  | TooManyMACs string | MACFromWAN string | NoFamily string
  | BadProto string string | DupProto string string | PortNeedsProto string
  | Schedule string sched_error | WhenRefs string | AccessMACs string

definition fwCheckName :: "string \<Rightarrow> string \<Rightarrow> string list \<Rightarrow> fw_problem list" where
  "fwCheckName p name seen =
     (if \<not> reLabel name then [BadLabel p name] else []) @ (if name \<in> set seen then [DupLabel p name] else [])"

definition fwCheckDesc :: "string \<Rightarrow> string \<Rightarrow> fw_problem list" where
  "fwCheckDesc p d = (if \<not> safeText d \<or> length d > 120 then [BadDesc p] else [])"

fun fwCheckWANs :: "'c Config_scheme \<Rightarrow> string \<Rightarrow> string list \<Rightarrow> string list \<Rightarrow> fw_problem list" where
  "fwCheckWANs c p seen [] = []"
| "fwCheckWANs c p seen (w # ws) =
     (if WANByName c w = None then [UnknownWAN p w] else []) @ (if w \<in> set seen then [DupWAN p w] else [])
     @ fwCheckWANs c p (w # seen) ws"

definition orBytes :: "bytes \<Rightarrow> bytes \<Rightarrow> bytes" where
  "orBytes a b = map2 (OR) a b"

text \<open>The first LAN-side network with the address decides; the empty text is no error.\<close>

fun targetIn :: "bytes \<Rightarrow> LANNet list \<Rightarrow> string" where
  "targetIn t [] = ''outside every LAN-side network''"
| "targetIn t (ln # lns) =
     (case ParseCIDR (lnIPv4 ln) of
        None \<Rightarrow> targetIn t lns
      | Some (rip, nn) \<Rightarrow>
          if \<not> Contains nn t then targetIn t lns
          else if Equal t rip then ''that is the router itself''
          else if Equal t (nIP nn) \<or> Equal t (orBytes (nIP nn) (map (\<lambda>m. NOT m) (nMask nn)))
            then ''network or broadcast address''
          else [])"

definition fwCheckTarget :: "'c Config_scheme \<Rightarrow> string \<Rightarrow> string" where
  "fwCheckTarget c to =
     (case ParseIP to of
        None \<Rightarrow> ''not an IPv4 address''
      | Some ip \<Rightarrow>
          (case To4 ip of
             None \<Rightarrow> ''not an IPv4 address''
           | Some t \<Rightarrow> if CHR '':'' \<in> set to then ''not an IPv4 address'' else targetIn t (LANNets c)))"

definition devCheckRef :: "'c FwConfig_scheme \<Rightarrow> string \<Rightarrow> string \<Rightarrow> fw_problem list" where
  "devCheckRef c p r =
     (if devRefMACs c r \<noteq> None then [] else if HasPrefix r ''group:'' then [UnknownGroup p r] else [UnknownDevice p r])"

definition devCheckRefs :: "'c FwConfig_scheme \<Rightarrow> string \<Rightarrow> string list \<Rightarrow> fw_problem list" where
  "devCheckRefs c p refs = concat (map (devCheckRef c p) refs)"

text \<open>What a forward or an open port takes on the WANs.\<close>

record claim =
  cWhat :: string
  cProtos :: "string list"
  cLo :: int
  cHi :: int
  cWANs :: "string list"
  cRestricted :: bool

definition wanNames :: "'c Config_scheme \<Rightarrow> string list \<Rightarrow> string list" where
  "wanNames c ws = (if ws = [] then map wanName (WANs c) else ws)"

definition forwardClaim :: "'c FwConfig_scheme \<Rightarrow> Forward \<Rightarrow> claim" where
  "forwardClaim c f =
     (case portRange (fdPort f) of (lo, hi) \<Rightarrow>
      \<lparr>cWhat = ''forward '' @ fdName f, cProtos = fdProto f, cLo = lo, cHi = hi, cWANs = wanNames c (fdWAN f), cRestricted = fdSrcIP f \<noteq> []\<rparr>)"

definition forwardCounts :: "Forward \<Rightarrow> bool" where
  "forwardCounts f \<longleftrightarrow> on (fdEnabled f) \<and> validPorts (fdPort f)"

definition forwardClaims :: "'c FwConfig_scheme \<Rightarrow> claim list" where
  "forwardClaims c = map (forwardClaim c) (filter forwardCounts (Forwards (Fw c)))"

definition openClaim :: "'c FwConfig_scheme \<Rightarrow> OpenPort \<Rightarrow> string \<Rightarrow> claim" where
  "openClaim c x pr =
     (case portRange pr of (lo, hi) \<Rightarrow>
      \<lparr>cWhat = ''open '' @ opName x, cProtos = opProto x, cLo = lo, cHi = hi, cWANs = wanNames c (opWAN x), cRestricted = opSrcIP x \<noteq> []\<rparr>)"

definition openClaimsOf :: "'c FwConfig_scheme \<Rightarrow> OpenPort \<Rightarrow> claim list" where
  "openClaimsOf c x =
     (case fwPortList (opPort x) of None \<Rightarrow> [] | Some ps \<Rightarrow> if \<not> on (opEnabled x) then [] else map (openClaim c x) ps)"

definition openClaims :: "'c FwConfig_scheme \<Rightarrow> claim list" where
  "openClaims c = concat (map (openClaimsOf c) (OpenPorts (Fw c)))"

definition claimsClash :: "claim \<Rightarrow> claim \<Rightarrow> fw_problem list" where
  "claimsClash a b =
     (if cRestricted a \<or> cRestricted b \<or> cWhat a = cWhat b \<or> cHi a < cLo b \<or> cHi b < cLo a then []
      else concat (map (\<lambda>pa. concat (map (\<lambda>pb.
             if pa = pb \<and> (\<exists>w \<in> set (cWANs a). w \<in> set (cWANs b))
             then [Overlap (cWhat a) (cWhat b) pa (fmtRange (max (cLo a) (cLo b)) (min (cHi a) (cHi b)))] else [])
           (cProtos b))) (cProtos a)))"

text \<open>Each forward against every later forward and every open port.\<close>

fun overlapsOf :: "claim list \<Rightarrow> claim list \<Rightarrow> fw_problem list" where
  "overlapsOf [] os = []"
| "overlapsOf (a # as) os = concat (map (claimsClash a) (as @ os)) @ overlapsOf as os"

definition fwCheckOverlaps :: "'c FwConfig_scheme \<Rightarrow> fw_problem list" where
  "fwCheckOverlaps c = overlapsOf (forwardClaims c) (openClaims c)"

definition checkMAC :: "string \<Rightarrow> string \<Rightarrow> fw_problem list" where
  "checkMAC p m = (if reMAC m then [] else [BadMAC p m])"

definition whenRef :: "'c FwConfig_scheme \<Rightarrow> string \<Rightarrow> string \<Rightarrow> fw_problem list" where
  "whenRef c p r = (if reMAC r then [] else devCheckRefs c p [r])"

definition presenceValidate :: "'c FwConfig_scheme \<Rightarrow> string \<Rightarrow> FwWhen option \<Rightarrow> fw_problem list" where
  "presenceValidate c p w =
     (case w of
        None \<Rightarrow> []
      | Some w \<Rightarrow>
          (let refs = Present w @ Absent w in
           (if refs = [] \<or> length refs > 16 then [WhenRefs p] else [])
           @ concat (map (whenRef c (p @ ''.when'')) refs)))"

section \<open>Rules\<close>

definition zoneOK :: "'c Config_scheme \<Rightarrow> string \<Rightarrow> string \<Rightarrow> string \<Rightarrow> string list \<Rightarrow> fw_problem list" where
  "zoneOK c p key z extra =
     (if \<not> (z = [] \<or> z = ''any'' \<or> z = ''lan'' \<or> z = ''wan'' \<or> z = ''guest'' \<or> z \<in> set extra) then [BadZone p key z]
      else if z = ''guest'' \<and> fwZoneIfs c ''guest'' = [] then [NoGuest p key]
      else [])"

definition anyZone :: "string \<Rightarrow> bool" where
  "anyZone z \<longleftrightarrow> z = [] \<or> z = ''any''"

definition narrow :: "FwRule \<Rightarrow> bool" where
  "narrow r \<longleftrightarrow> rlSrcIP r \<noteq> [] \<or> rlSrcMAC r \<noteq> [] \<or> rlDestIP r \<noteq> [] \<or> rlProto r \<noteq> [] \<or> rlDestPort r \<noteq> []"

fun checkProtos :: "string \<Rightarrow> string list \<Rightarrow> string list \<Rightarrow> fw_problem list" where
  "checkProtos p seen [] = []"
| "checkProtos p seen (x # xs) =
     (if x \<noteq> ''tcp'' \<and> x \<noteq> ''udp'' \<and> x \<noteq> ''icmp'' then [BadProto p x] else [])
     @ (if x \<in> set seen then [DupProto p x] else []) @ checkProtos p (x # seen) xs"

definition checkRuleAddrs :: "string \<Rightarrow> FwRule \<Rightarrow> fw_problem list" where
  "checkRuleAddrs p r =
     (case (fwAddrs (rlSrcIP r), fwAddrs (rlDestIP r)) of
        (Some (s4, s6), Some (d4, d6)) \<Rightarrow>
          if fwFamilies s4 s6 d4 d6 (rlSrcIP r \<noteq> []) (rlDestIP r \<noteq> []) = [] then [NoFamily p] else []
      | (s, d) \<Rightarrow> (if s = None then [BadAddrs (p @ ''.src_ip'') (rlSrcIP r)] else [])
                  @ (if d = None then [BadAddrs (p @ ''.dest_ip'') (rlDestIP r)] else []))"

definition fwCheckRule :: "'c FwConfig_scheme \<Rightarrow> string \<Rightarrow> FwRule \<Rightarrow> fw_problem list" where
  "fwCheckRule c p r =
     (if rlAction r \<noteq> ''accept'' \<and> rlAction r \<noteq> ''drop'' \<and> rlAction r \<noteq> ''reject'' then [BadAction p (rlAction r)] else [])
     @ zoneOK c p ''src'' (rlSrc r) [] @ zoneOK c p ''dest'' (rlDest r) [''router'']
     @ (if rlDest r = ''router'' \<and> rlAction r = ''accept'' then [RouterAccept p] else [])
     @ (if rlAction r = ''accept'' \<and> (rlSrc r = [] \<or> rlSrc r = ''any'' \<or> rlSrc r = ''wan'') \<and> rlDestIP r = [] \<and> rlDestPort r = []
        then [WideAccept p] else [])
     @ (if rlDest r = ''router'' \<and> \<not> narrow r then [WideRouter p]
        else if anyZone (rlSrc r) \<and> anyZone (rlDest r) \<and> \<not> narrow r then [MatchesAll p] else [])
     @ concat (map (checkMAC (p @ ''.src_mac'')) (rlSrcMAC r))
     @ (if length (rlSrcMAC r) > fwMaxList then [TooManyMACs p] else [])
     @ (if rlSrcMAC r \<noteq> [] \<and> rlSrc r = ''wan'' then [MACFromWAN p] else [])
     @ checkRuleAddrs p r
     @ checkProtos p [] (rlProto r)
     @ (if rlDestPort r \<noteq> [] then
          (if fwPortList (rlDestPort r) = None then [BadPort (p @ ''.dest_port'') (rlDestPort r)] else [])
          @ (if rlProto r = [] \<or> ''icmp'' \<in> set (rlProto r) then [PortNeedsProto p] else [])
        else [])
     @ map (Schedule p) (fwCheckSchedule (rlSchedule r))
     @ presenceValidate c p (rlWhen r)"

section \<open>The lists\<close>

text \<open>The loop over one list: name and description first, then the checks of the entry.\<close>

fun fwEntries :: "string \<Rightarrow> ('a \<Rightarrow> string) \<Rightarrow> ('a \<Rightarrow> string) \<Rightarrow> (string \<Rightarrow> 'a \<Rightarrow> fw_problem list) \<Rightarrow> nat \<Rightarrow> string list \<Rightarrow> 'a list \<Rightarrow> fw_problem list" where
  "fwEntries sec name desc chk i seen [] = []"
| "fwEntries sec name desc chk i seen (x # xs) =
     (let p = sec @ ''['' @ Itoa_nat i @ '']'' in
      fwCheckName p (name x) seen @ fwCheckDesc p (desc x) @ chk p x)
     @ fwEntries sec name desc chk (Suc i) (name x # seen) xs"

definition checkForward :: "'c FwConfig_scheme \<Rightarrow> string \<Rightarrow> Forward \<Rightarrow> fw_problem list" where
  "checkForward c p x =
     (if \<not> validPorts (fdPort x) then [BadPort p (fdPort x)] else [])
     @ (if fdToPort x \<noteq> [] \<and> \<not> validPorts (fdToPort x) then [BadToPort p (fdToPort x)]
        else if fdToPort x \<noteq> [] \<and> fdToPort x \<noteq> fdPort x \<and> CHR ''-'' \<in> set (fdPort x) \<and> CHR ''-'' \<in> set (fdToPort x)
          then [RangeToPort p (fdPort x) (fdToPort x)] else [])
     @ (case device c (fdTo x) of
          Some d \<Rightarrow> if dvIP d = [] then [DeviceNoIP p (fdTo x)] else []
        | None \<Rightarrow>
            if ParseIP (fdTo x) = None \<and> reDevName (fdTo x) then [UnknownDevice p (fdTo x)]
            else (let e = fwCheckTarget c (fdTo x) in if e \<noteq> [] then [BadTarget p (fdTo x) e] else []))
     @ (if \<not> validProtos (fdProto x) then [BadProtos p (fdProto x)] else [])
     @ fwCheckWANs c p [] (fdWAN x)
     @ (case fwAddrs (fdSrcIP x) of
          None \<Rightarrow> [BadAddrs p (fdSrcIP x)]
        | Some (v4, v6) \<Rightarrow> if v6 \<noteq> [] \<or> (fdSrcIP x \<noteq> [] \<and> v4 = []) then [NotV4 p (fdSrcIP x)] else [])"

definition checkOpen :: "'c FwConfig_scheme \<Rightarrow> string \<Rightarrow> OpenPort \<Rightarrow> fw_problem list" where
  "checkOpen c p x =
     (if fwPortList (opPort x) = None then [BadPort p (opPort x)] else [])
     @ (if \<not> validProtos (opProto x) then [BadProtos p (opProto x)] else [])
     @ fwCheckWANs c p [] (opWAN x)
     @ (if fwAddrs (opSrcIP x) = None then [BadAddrs p (opSrcIP x)] else [])"

definition checkAllow6 :: "'c FwConfig_scheme \<Rightarrow> string \<Rightarrow> FwV6Allow \<Rightarrow> fw_problem list" where
  "checkAllow6 c p a =
     (if (alIID a = []) = (alMAC a = []) then [OneOfIIDMAC p]
      else if alMAC a \<noteq> [] \<and> \<not> reMAC (alMAC a) then [BadMAC p (alMAC a)]
      else if alIID a \<noteq> [] \<and> fwParseIID (alIID a) = [] then [BadIID p (alIID a)] else [])
     @ (if fwPortList (alPort a) = None then [BadPort p (alPort a)] else [])
     @ (if \<not> validProtos (alProto a) then [BadProtos p (alProto a)] else [])
     @ fwCheckWANs c p [] (alWAN a)
     @ (case fwAddrs (alSrcIP a) of None \<Rightarrow> [NotV6 p (alSrcIP a)] | Some (v4, v6) \<Rightarrow> if v4 \<noteq> [] then [NotV6 p (alSrcIP a)] else [])"

definition checkAccess :: "'c FwConfig_scheme \<Rightarrow> string \<Rightarrow> FwAccess \<Rightarrow> fw_problem list" where
  "checkAccess c p a =
     concat (map (checkMAC (p @ ''.macs'')) (acMACs a))
     @ devCheckRefs c (p @ ''.devices'') (acDevices a)
     @ (let n = length (fwAccessMACs c a) in
        if n = 0 \<or> n > fwMaxList \<or> length (acMACs a) > fwMaxList then [AccessMACs p] else [])
     @ map (Schedule p) (fwCheckSchedule (acSchedule a))"

definition fwValidate :: "'c FwConfig_scheme \<Rightarrow> fw_problem list" where
  "fwValidate c =
     (let f = Fw c in
      (if Offload f \<noteq> ''hardware'' \<and> Offload f \<noteq> ''software'' \<and> Offload f \<noteq> ''off'' then [BadOffload (Offload f)] else [])
      @ fwEntries ''firewall.forwards'' fdName fdDesc (checkForward c) 0 [] (Forwards f)
      @ fwCheckOverlaps c
      @ fwEntries ''firewall.open'' opName opDesc (checkOpen c) 0 [] (OpenPorts f)
      @ fwEntries ''firewall.ipv6_allow'' alName alDesc (checkAllow6 c) 0 [] (IPv6Allow f)
      @ fwEntries ''firewall.rules'' rlName rlDesc (fwCheckRule c) 0 [] (Rules f)
      @ fwEntries ''firewall.access'' acName acDesc (checkAccess c) 0 [] (Access f))"

section \<open>Normal forms of addresses\<close>

lemma onesOf_maskByte: "k \<le> 8 \<Longrightarrow> onesOf (maskByte k) = k"
proof -
  assume "k \<le> 8"
  moreover have "list_all (\<lambda>k. onesOf (maskByte k) = k) [0 ..< 9]" by code_simp
  ultimately show ?thesis by (simp add: list_all_iff)
qed

lemma maskByte_0: "maskByte 0 = 0"
  by code_simp

lemma CIDRMask_zero: "CIDRMask 0 (8 * n) = replicate n 0"
  by (rule nth_equalityI) (simp_all add: CIDRMask_def maskByte_0)

lemma simpleMaskLength_CIDRMask: "k \<le> 8 * n \<Longrightarrow> simpleMaskLength (CIDRMask k (8 * n)) = Some k"
proof (induction n arbitrary: k)
  case 0
  then show ?case by (simp add: CIDRMask_def)
next
  case (Suc n)
  show ?case
  proof (cases "k \<ge> 8")
    case True
    then have "min 8 k = 8" by simp
    then show ?thesis using Suc.IH [of "k - 8"] Suc.prems True by (simp only: CIDRMask_Suc) (simp add: maskByte_8)
  next
    case False
    then have "min 8 k = k" "k - 8 = 0" by auto
    moreover have "maskByte k \<noteq> 255" using maskByte_full [of k] False by auto
    ultimately show ?thesis using False by (simp only: CIDRMask_Suc) (simp add: onesOf_maskByte CIDRMask_zero list_all_iff)
  qed
qed

lemma dtoi_Itoa: "n \<le> 128 \<Longrightarrow> dtoi (Itoa_nat n) = Some n"
  using Itoa_nat_digits [of n] by (simp add: dtoi_def dec_val_Itoa_nat)

definition net_of :: "bytes \<Rightarrow> nat \<Rightarrow> IPNet" where
  "net_of a k = \<lparr>nIP = andBytes a (CIDRMask k (8 * length a)), nMask = CIDRMask k (8 * length a)\<rparr>"

lemma v4prefix_length [simp]: "length v4InV6Prefix = 12"
  by (simp add: v4InV6Prefix_def)

lemma ParseAddr_String4: "length b = 4 \<Longrightarrow> ParseAddr (String4 b) = Some (Fam4, v4InV6Prefix @ b)"
  by (simp add: ParseAddr_def firstOf_String4 parse_String4)

lemma ParseAddr_String6: "length b = 16 \<Longrightarrow> ParseAddr (String6 b) = Some (Fam6, b)"
  by (simp add: ParseAddr_def String6_chars parse_String6)

lemma String6_hex: "length b = 16 \<Longrightarrow> c \<in> set (String6 b) \<Longrightarrow> hexDigit c \<noteq> None \<or> c = CHR '':''"
  using hexes_chars
  by (cases "zeroRun (groups b)") (auto simp: String6_def Let_def take_map drop_map simp flip: hexes_def split: if_splits)

lemma net_text4:
  assumes "length a = 4" "k \<le> 32"
  shows "IPNetString (net_of a k) = String4 (andBytes a (CIDRMask k 32)) @ ''/'' @ Itoa_nat k"
  using assms simpleMaskLength_CIDRMask [of k 4] length_CIDRMask [of k 4]
  by (simp add: IPNetString_def net_of_def networkNumberAndMask_def Let_def To4_def IPString_def)

lemma parse_net_text4:
  assumes "length a = 4" "k \<le> 32"
  shows "parseNet (IPNetString (net_of a k)) = Some (net_of a k)"
proof -
  let ?m = "CIDRMask k 32" and ?b = "andBytes a (CIDRMask k 32)"
  have lm: "length ?m = 4" using length_CIDRMask [of k 4] by simp
  then have lb: "length ?b = 4" using assms by simp
  have "CHR ''/'' \<notin> set (String4 ?b)" using String4_chars [OF lb, of "CHR ''/''"] by (auto simp: isDigit_def)
  then have cut: "CutByte CHR ''/'' (IPNetString (net_of a k)) = (String4 ?b, Itoa_nat k, True)"
    unfolding net_text4 [OF assms] using CutByte_at [of "CHR ''/''" "String4 ?b" "Itoa_nat k"] by simp
  have "maskIP (v4InV6Prefix @ ?b) ?m = ?b"
    using lm lb assms by (simp add: maskIP_def Let_def andBytes_idem)
  then have "ParseCIDR (IPNetString (net_of a k)) = Some (v4InV6Prefix @ ?b, net_of a k)"
    unfolding ParseCIDR_def cut using assms by (simp add: ParseAddr_String4 [OF lb] dtoi_Itoa BitLen_def net_of_def Let_def)
  then show ?thesis by (simp add: parseNet_def)
qed

lemma masked_not_mapped:
  assumes "length a = 16" "To4 a = None" "k \<le> 128"
  shows "To4 (andBytes a (CIDRMask k 128)) = None"
proof -
  have lm: "length (CIDRMask k 128) = 16" using length_CIDRMask [of k 16] by simp
  have "take 12 (andBytes a (CIDRMask k 128)) \<noteq> v4InV6Prefix"
    using mapped_by_mask [OF assms(1,1) refl refl] assms(1,2) by (auto simp: To4_def)
  then show ?thesis using assms(1) lm by (simp add: To4_def)
qed

lemma net_text6:
  assumes "length a = 16" "To4 a = None" "k \<le> 128"
  shows "IPNetString (net_of a k) = String6 (andBytes a (CIDRMask k 128)) @ ''/'' @ Itoa_nat k"
  using assms simpleMaskLength_CIDRMask [of k 16] length_CIDRMask [of k 16] masked_not_mapped [OF assms]
  by (simp add: IPNetString_def net_of_def networkNumberAndMask_def Let_def IPString_def)

lemma parse_net_text6:
  assumes "length a = 16" "To4 a = None" "k \<le> 128"
  shows "parseNet (IPNetString (net_of a k)) = Some (net_of a k)"
proof -
  let ?m = "CIDRMask k 128" and ?b = "andBytes a (CIDRMask k 128)"
  have lm: "length ?m = 16" using length_CIDRMask [of k 16] by simp
  then have lb: "length ?b = 16" using assms by simp
  have "CHR ''/'' \<notin> set (String6 ?b)" using String6_hex [OF lb, of "CHR ''/''"] by (auto simp: hexDigit_def)
  then have cut: "CutByte CHR ''/'' (IPNetString (net_of a k)) = (String6 ?b, Itoa_nat k, True)"
    unfolding net_text6 [OF assms] using CutByte_at [of "CHR ''/''" "String6 ?b" "Itoa_nat k"] by simp
  have "maskIP ?b ?m = ?b"
    using lm lb assms masked_not_mapped [OF assms] by (simp add: maskIP_def Let_def andBytes_idem)
  then have "ParseCIDR (IPNetString (net_of a k)) = Some (?b, net_of a k)"
    unfolding ParseCIDR_def cut using assms by (simp add: ParseAddr_String6 [OF lb] dtoi_Itoa BitLen_def net_of_def Let_def)
  then show ?thesis by (simp add: parseNet_def)
qed

text \<open>The networks that are written as they are read.\<close>

definition plain_net :: "IPNet \<Rightarrow> bool" where
  "plain_net n \<longleftrightarrow> (\<exists>a k. n = net_of a k \<and> (length a = 4 \<and> k \<le> 32 \<or> length a = 16 \<and> To4 a = None \<and> k \<le> 128))"

lemma plain_netI:
  "length a = 4 \<Longrightarrow> k \<le> 32 \<Longrightarrow> plain_net (net_of a k)"
  "length a = 16 \<Longrightarrow> To4 a = None \<Longrightarrow> k \<le> 128 \<Longrightarrow> plain_net (net_of a k)"
  unfolding plain_net_def by blast+

lemma net_of_length [simp]: "length (nIP (net_of a k)) = length a"
  by (simp add: net_of_def)

interpretation nettext: codec IPNetString parseNet plain_net
  by unfold_locales (auto simp: plain_net_def parse_net_text4 parse_net_text6)

lemma CutByte_not_found: "c \<notin> set s \<Longrightarrow> CutByte c s = (s, [], False)"
  by (induction s) auto

lemma CutByte_found: "c \<in> set s \<Longrightarrow> CutByte c s = (a, b, ok) \<Longrightarrow> s = a @ c # b \<and> c \<notin> set a"
  by (induction s arbitrary: a) (auto split: if_splits prod.splits)

lemma full_mask: "length a = n \<Longrightarrow> andBytes a (CIDRMask (8 * n) (8 * n)) = a"
proof (induction n arbitrary: a)
  case (Suc n)
  then obtain x xs where a: "a = x # xs" by (cases a) auto
  have "x AND 255 = x" unfolding byte_all_ones by simp
  then show ?case using Suc a by (simp only: CIDRMask_Suc) (simp add: maskByte_8 andBytes_def)
qed (simp add: andBytes_def)

lemma firstOf_mem: "firstOf s = Some c \<Longrightarrow> c \<in> set s"
  by (induction s) (auto split: if_splits)

lemma ParseAddr_family: "ParseAddr s = Some (f, b) \<Longrightarrow> CHR '':'' \<notin> set s \<Longrightarrow> f = Fam4"
  by (auto simp: ParseAddr_def dest: firstOf_mem split: if_splits)

lemma ParseAddr_mapped: "ParseAddr s = Some (f, b) \<Longrightarrow> f = Fam4 \<Longrightarrow> \<exists>v4. b = v4InV6Prefix @ v4 \<and> length v4 = 4"
  by (auto simp: ParseAddr_def dest: parse4_length split: if_splits)

lemma ParseIP_Fam: "ParseIP s = Some ip \<Longrightarrow> \<exists>f. ParseAddr s = Some (f, ip)"
  by (auto simp: ParseIP_def)

lemma To4_mapped [simp]: "length v4 = 4 \<Longrightarrow> To4 (v4InV6Prefix @ v4) = Some v4"
  by (simp add: To4_def)

lemma To4_Some: "length ip = 16 \<Longrightarrow> To4 ip = Some v4 \<Longrightarrow> ip = v4InV6Prefix @ v4 \<and> length v4 = 4"
  by (auto simp: To4_def split: if_splits) (metis append_take_drop_id)

lemma parseNet_noslash:
  "CHR ''/'' \<notin> set s \<Longrightarrow>
   parseNet s = (case ParseIP s of None \<Rightarrow> None
     | Some ip \<Rightarrow> (case To4 ip of Some v4 \<Rightarrow> Some (net_of v4 32) | None \<Rightarrow> Some (net_of ip 128)))"
proof -
  assume s: "CHR ''/'' \<notin> set s"
  have n4: "\<lparr>nIP = v4, nMask = CIDRMask 32 32\<rparr> = net_of v4 32" if "length v4 = 4" for v4
    using that full_mask [of v4 4] by (simp add: net_of_def)
  have n6: "\<lparr>nIP = ip, nMask = CIDRMask 128 128\<rparr> = net_of ip 128" if "length ip = 16" for ip
    using that full_mask [of ip 16] by (simp add: net_of_def)
  show ?thesis
    unfolding parseNet_def ParseCIDR_def CutByte_not_found [OF s]
    by (auto dest!: ParseIP_Fam split: option.split simp: n4 n6 To4_length ParseAddr_length)
qed

text \<open>The normal form of an address or CIDR names the same network.\<close>

lemma fwAddr_norm:
  assumes x: "fwAddr x = Some (is4, s)"
  obtains n where "parseNet x = Some n" "parseNet s = Some n" "plain_net n" "is4 \<longleftrightarrow> length (nIP n) = 4"
proof (cases "CHR ''/'' \<in> set x")
  case True
  obtain ip n where c: "ParseCIDR x = Some (ip, n)" "\<not> (To4 ip \<noteq> None \<and> CHR '':'' \<in> set x)" "is4 = (To4 ip \<noteq> None)" "s = IPNetString n"
    using x True by (auto simp: fwAddr_def split: option.splits if_splits prod.splits)
  obtain a b ok where cut: "CutByte CHR ''/'' x = (a, b, ok)" by (cases "CutByte CHR ''/'' x")
  obtain f k where p: "ParseAddr a = Some (f, ip)" "k \<le> BitLen f" "n = \<lparr>nIP = maskIP ip (CIDRMask k (BitLen f)), nMask = CIDRMask k (BitLen f)\<rparr>"
    using c(1) by (auto simp: ParseCIDR_def cut Let_def not_less split: if_splits option.splits prod.splits)
  have l: "length ip = 16" by (rule ParseAddr_length [OF p(1)])
  have pn: "plain_net n \<and> (is4 \<longleftrightarrow> length (nIP n) = 4)"
  proof (cases f)
    case Fam4
    then obtain v4 where v: "ip = v4InV6Prefix @ v4" "length v4 = 4" using ParseAddr_mapped [OF p(1)] by blast
    have lm: "length (CIDRMask k 32) = 4" using length_CIDRMask [of k 4] by simp
    then have "n = net_of v4 k" using p v Fam4 by (simp add: BitLen_def net_of_def maskIP_def Let_def)
    then show ?thesis using v p(2) Fam4 c(3) plain_netI(1) [of v4 k] by (simp add: BitLen_def)
  next
    case Fam6
    have "CHR '':'' \<in> set a" using ParseAddr_family [OF p(1)] Fam6 by auto
    then have "CHR '':'' \<in> set x" using CutByte_found [OF True cut] by auto
    then have t: "To4 ip = None" using c(2) by blast
    have lm: "length (CIDRMask k 128) = 16" using length_CIDRMask [of k 16] by simp
    then have "n = net_of ip k" using p t l Fam6 by (auto simp: BitLen_def net_of_def maskIP_def Let_def To4_def)
    then show ?thesis using t p(2) Fam6 c(3) l plain_netI(2) [of ip k] by (simp add: BitLen_def)
  qed
  show ?thesis
    using that [of n] pn c(1,4) nettext.dec_enc [of n] by (simp add: parseNet_def)
next
  case False
  obtain ip where c: "ParseIP x = Some ip" "\<not> (To4 ip \<noteq> None \<and> CHR '':'' \<in> set x)" "is4 = (To4 ip \<noteq> None)" "s = IPString ip"
    using x False by (auto simp: fwAddr_def split: option.splits if_splits)
  have l: "length ip = 16" using ParseIP_Fam [OF c(1)] ParseAddr_length by blast
  show ?thesis
  proof (cases "To4 ip")
    case (Some v4)
    then have v: "ip = v4InV6Prefix @ v4" "length v4 = 4" using To4_Some [OF l] by auto
    have "CHR ''/'' \<notin> set (String4 v4)" using String4_chars [OF v(2), of "CHR ''/''"] by (auto simp: isDigit_def)
    then have "parseNet s = Some (net_of v4 32)"
      using c(4) Some v by (simp add: parseNet_noslash IPString_def ParseIP_def ParseAddr_String4)
    moreover have "parseNet x = Some (net_of v4 32)" using c(1) Some by (simp add: parseNet_noslash [OF False])
    ultimately show ?thesis
      using that [of "net_of v4 32"] v c(3) Some plain_netI(1) [of v4 32] by simp
  next
    case None
    have "CHR ''/'' \<notin> set (String6 ip)" using String6_hex [OF l, of "CHR ''/''"] by (auto simp: hexDigit_def)
    then have "parseNet s = Some (net_of ip 128)"
      using c(4) None l by (simp add: parseNet_noslash IPString_def ParseIP_String6)
    moreover have "parseNet x = Some (net_of ip 128)" using c(1) None by (simp add: parseNet_noslash [OF False])
    ultimately show ?thesis
      using that [of "net_of ip 128"] l c(3) None plain_netI(2) [of ip 128] by simp
  qed
qed

text \<open>Whether an address is in the network a text names; the two have the same family.\<close>

definition addr_in :: "string \<Rightarrow> bytes \<Rightarrow> bool" where
  "addr_in s b \<longleftrightarrow>
     (case parseNet s of None \<Rightarrow> False
      | Some n \<Rightarrow> length (nIP n) = length b \<and> andBytes (nIP n) (nMask n) = andBytes b (nMask n))"

lemma fwAddrs_Some:
  assumes "fwAddrs xs = Some (v4, v6)"
  shows "x \<in> set xs \<Longrightarrow> fwAddr x \<noteq> None" "set v4 = {s. \<exists>x \<in> set xs. fwAddr x = Some (True, s)}"
    "set v6 = {s. \<exists>x \<in> set xs. fwAddr x = Some (False, s)}"
proof -
  have "None \<notin> set (map fwAddr xs)" using assms by (auto simp: fwAddrs_def Let_def split: if_splits)
  then have some: "\<forall>x \<in> set xs. fwAddr x \<noteq> None" by (metis image_eqI list.set_map)
  then show "x \<in> set xs \<Longrightarrow> fwAddr x \<noteq> None" by blast
  show "set v4 = {s. \<exists>x \<in> set xs. fwAddr x = Some (True, s)}" "set v6 = {s. \<exists>x \<in> set xs. fwAddr x = Some (False, s)}"
    using assms some by (force simp: fwAddrs_def Let_def image_iff split: if_splits)+
qed

lemma fwAddr_in:
  assumes "fwAddr x = Some (is4, s)"
  shows "addr_in s b = addr_in x b" "addr_in x b \<Longrightarrow> is4 = (length b = 4)"
  using assms by (rule fwAddr_norm, simp add: addr_in_def)+

lemma fwAddrs_in:
  assumes f: "fwAddrs xs = Some (v4, v6)"
  shows "length b = 4 \<Longrightarrow> (\<exists>s \<in> set v4. addr_in s b) \<longleftrightarrow> (\<exists>x \<in> set xs. addr_in x b)"
    "length b = 16 \<Longrightarrow> (\<exists>s \<in> set v6. addr_in s b) \<longleftrightarrow> (\<exists>x \<in> set xs. addr_in x b)"
proof -
  have to: "\<exists>s. fwAddr x = Some (length b = 4, s) \<and> addr_in s b" if m: "x \<in> set xs" and i: "addr_in x b" for x
  proof -
    obtain is4 s where x: "fwAddr x = Some (is4, s)" using fwAddrs_Some(1) [OF f m] by auto
    then show ?thesis using fwAddr_in [OF x] i by simp
  qed
  have from_x: "addr_in x b" if "fwAddr x = Some (t, s)" "addr_in s b" for x s t using fwAddr_in(1) [OF that(1)] that(2) by simp
  show "(\<exists>s \<in> set v4. addr_in s b) \<longleftrightarrow> (\<exists>x \<in> set xs. addr_in x b)" if "length b = 4"
    unfolding fwAddrs_Some(2) [OF f] using to from_x that by auto blast+
  show "(\<exists>s \<in> set v6. addr_in s b) \<longleftrightarrow> (\<exists>x \<in> set xs. addr_in x b)" if "length b = 16"
    unfolding fwAddrs_Some(3) [OF f] using to from_x that by auto blast+
qed

section \<open>MACs\<close>

lemma hexPair_bytes: "hexPair p \<Longrightarrow> \<exists>x. pairBytes p = Some [x]"
proof -
  assume "hexPair p"
  then obtain a b where p: "p = [a, b]" "hexDigit a \<noteq> None" "hexDigit b \<noteq> None"
    by (auto simp: hexPair_def numeral_2_eq_2 length_Suc_conv)
  then show ?thesis by auto
qed

lemma reMAC_parse:
  assumes "reMAC m"
  shows "\<exists>h0 h1 h2 h3 h4 h5. ParseMAC m = Some [h0, h1, h2, h3, h4, h5]"
proof -
  let ?ps = "SplitByte CHR '':'' m"
  have ps: "length ?ps = 6" "list_all hexPair ?ps" using assms by (auto simp: reMAC_def Let_def)
  then obtain a b c d e f where e: "?ps = [a, b, c, d, e, f]" by (auto simp: numeral_eq_Suc length_Suc_conv)
  have hp: "hexPair a" "hexPair b" "hexPair c" "hexPair d" "hexPair e" "hexPair f" using ps(2) e by auto
  have m: "m = a @ CHR '':'' # b @ CHR '':'' # c @ CHR '':'' # d @ CHR '':'' # e @ CHR '':'' # f"
    using Join_SplitByte [of "CHR '':''" m] e by simp
  have l: "length a = 2" "length b = 2" "length c = 2" "length d = 2" "length e = 2" "length f = 2" using hp by (auto simp: hexPair_def)
  obtain h0 h1 h2 h3 h4 h5 where h: "pairBytes a = Some [h0]" "pairBytes b = Some [h1]" "pairBytes c = Some [h2]" "pairBytes d = Some [h3]"
    "pairBytes e = Some [h4]" "pairBytes f = Some [h5]" using hp hexPair_bytes by metis
  have "m ! 2 = CHR '':''" "\<not> length m < 14" using l by (simp_all add: m nth_append)
  moreover have "macParts CHR '':'' 2 m = Some [h0, h1, h2, h3, h4, h5]" using l h by (simp add: macParts_def e Let_def)
  ultimately show ?thesis by (simp add: ParseMAC_def)
qed

end
