(* ===== verification/Fw_Nft.thy ===== *)
theory Fw_Nft
  imports Fw_Config Go_Strconv
begin

text \<open>
  The nftables ruleset: \<open>renderNft\<close>, the rules of the firewall module at the hooks (\<open>fwNft\<close>) and their helpers, from
  \<open>mr/mod_fw_nft.go\<close>; the rate limits of \<open>mr/mod_dev_limit.go\<close>; \<open>presenceRules\<close> and \<open>presenceChain\<close> of
  \<open>mr/mod_fw_presence.go\<close>. A rule is a list of statements; \<open>showRule\<close> is the line the code writes for it.
\<close>

section \<open>Rules and their text\<close>

definition quoteList :: "string list \<Rightarrow> string" where
  "quoteList xs = Join (map Quote xs) '', ''"

definition nftSet :: "string list \<Rightarrow> string" where
  "nftSet xs = (case xs of [x] \<Rightarrow> x | _ \<Rightarrow> ''{ '' @ Join xs '', '' @ '' }'')"

definition nftPorts :: "string \<Rightarrow> string" where
  "nftPorts p = p"

datatype stmt =
    Iif "string list" | IifOne string | IifAny "string list" | IifLo
  | Oif "string list" | OifOne string
  | Ether "string list" | EtherIn string
  | Saddr family "string list" | Daddr family "string list" | DaddrNot family "string list" | DaddrIID string
  | SaddrNotIn family string | DaddrNotIn family string | DaddrIn family string | Learn family string string
  | Nfproto family | L4proto "string list"
  | Dport string "string list" | ThDport "string list" | Sport string string
  | IcmpEcho | Icmp6 "string list" | SynOnly
  | CtVmap bool | CtEstablished | CtDnat | CtSnat
  | FibLocal | FibForeign
  | TimeIs time_expr
  | Limit string | Log string | Counter | FlowAdd
  | Accept | Drop | Reject string | Jump string | Dnat string | Masquerade
  | Note string | Raw string

type_synonym rule = "stmt list"

definition famName :: "family \<Rightarrow> string" where
  "famName f = (case f of Fam4 \<Rightarrow> ''ip'' | Fam6 \<Rightarrow> ''ip6'')"

fun showStmt :: "stmt \<Rightarrow> string" where
  "showStmt (Iif ifs) = ''iifname { '' @ quoteList ifs @ '' }''"
| "showStmt (IifOne i) = ''iifname '' @ Quote i"
| "showStmt (IifAny ifs) = ''iifname '' @ nftSet (map Quote ifs)"
| "showStmt IifLo = ''iif lo''"
| "showStmt (Oif ifs) = ''oifname { '' @ quoteList ifs @ '' }''"
| "showStmt (OifOne i) = ''oifname '' @ Quote i"
| "showStmt (Ether ms) = ''ether saddr '' @ nftSet ms"
| "showStmt (EtherIn s) = ''ether saddr @'' @ s"
| "showStmt (Saddr f xs) = famName f @ '' saddr '' @ nftSet xs"
| "showStmt (Daddr f xs) = famName f @ '' daddr '' @ nftSet xs"
| "showStmt (DaddrNot f xs) = famName f @ '' daddr != '' @ nftSet xs"
| "showStmt (DaddrIID s) = ''ip6 daddr & ::ffff:ffff:ffff:ffff == '' @ s"
| "showStmt (SaddrNotIn f s) = famName f @ '' saddr != @'' @ s"
| "showStmt (DaddrNotIn f s) = famName f @ '' daddr != @'' @ s"
| "showStmt (DaddrIn f s) = famName f @ '' daddr @'' @ s"
| "showStmt (Learn f s t) =
     ''update @'' @ s @ '' { '' @ famName f @ '' saddr } update @'' @ t @ '' { '' @ famName f @ '' saddr }''"
| "showStmt (Nfproto f) = ''meta nfproto '' @ (case f of Fam4 \<Rightarrow> ''ipv4'' | Fam6 \<Rightarrow> ''ipv6'')"
| "showStmt (L4proto ps) = ''meta l4proto '' @ nftSet ps"
| "showStmt (Dport p ports) = p @ '' dport '' @ nftSet ports"
| "showStmt (ThDport ports) = ''th dport '' @ nftSet ports"
| "showStmt (Sport p port) = p @ '' sport '' @ port"
| "showStmt IcmpEcho = ''icmp type echo-request''"
| "showStmt (Icmp6 ts) = ''icmpv6 type '' @ nftSet ts"
| "showStmt SynOnly = ''tcp flags & (fin|syn|rst|ack) == syn''"
| "showStmt (CtVmap di) =
     ''ct state vmap { established : accept, related : accept'' @ (if di then '', invalid : drop'' else []) @ '' }''"
| "showStmt CtEstablished = ''ct state established''"
| "showStmt CtDnat = ''ct status dnat''"
| "showStmt CtSnat = ''ct status snat''"
| "showStmt FibLocal = ''fib daddr type local''"
| "showStmt FibForeign = ''fib daddr type != { local, broadcast, multicast, anycast }''"
| "showStmt (TimeIs e) = nft_time e"
| "showStmt (Limit l) = l"
| "showStmt (Log s) = ''log prefix '' @ Quote s @ '' level info''"
| "showStmt Counter = ''counter''"
| "showStmt FlowAdd = ''flow add @ft''"
| "showStmt Accept = ''accept''"
| "showStmt Drop = ''drop''"
| "showStmt (Reject w) = ''reject with '' @ w"
| "showStmt (Jump ch) = ''jump '' @ ch"
| "showStmt (Dnat to) = ''dnat ip to '' @ to"
| "showStmt Masquerade = ''masquerade''"
| "showStmt (Note s) = ''comment '' @ Quote s"
| "showStmt (Raw s) = s"

definition showRule :: "rule \<Rightarrow> string" where
  "showRule r = Join (map showStmt r) '' ''"

text \<open>A time expression that always holds is not written.\<close>

definition timeStmts :: "time_expr \<Rightarrow> rule" where
  "timeStmts e = (if e = TimeExpr None None then [] else [TimeIs e])"

section \<open>Traffic rules\<close>

definition presenceRules :: "'c FwConfig_scheme \<Rightarrow> FwRule list" where
  "presenceRules c = filter (\<lambda>r. on (rlEnabled r) \<and> rlWhen r \<noteq> None) (Rules (Fw c))"

text \<open>\<open>hash/fnv\<close>, \<open>New32a\<close>, and \<open>%08x\<close>.\<close>

definition fnv32a :: "string \<Rightarrow> 32 word" where
  "fnv32a s = fold (\<lambda>c h. (h XOR of_nat (of_char c)) * 16777619) s 2166136261"

definition hex08 :: "32 word \<Rightarrow> string" where
  "hex08 w = map (\<lambda>i. hexChar (unat (drop_bit (4 * (7 - i)) w AND 15))) [0 ..< 8]"

definition presenceChain :: "string \<Rightarrow> string" where
  "presenceChain name = ''when_'' @ hex08 (fnv32a name)"

definition isZone :: "string \<Rightarrow> bool" where
  "isZone z \<longleftrightarrow> z = ''lan'' \<or> z = ''guest'' \<or> z = ''wan''"

definition addrPair :: "string list \<Rightarrow> string list \<times> string list" where
  "addrPair xs = (case fwAddrs xs of Some p \<Rightarrow> p | None \<Rightarrow> ([], []))"

definition portsOf :: "string \<Rightarrow> string list" where
  "portsOf s = (case fwPortList s of Some ps \<Rightarrow> ps | None \<Rightarrow> [])"

text \<open>The families a rule is written for: \<open>None\<close> is the rule for both.\<close>

definition ruleFams :: "FwRule \<Rightarrow> family option list" where
  "ruleFams x =
     (if rlSrcIP x \<noteq> [] \<or> rlDestIP x \<noteq> [] then
        map (\<lambda>f. Some (if f = ''ip6'' then Fam6 else Fam4))
          (fwFamilies (fst (addrPair (rlSrcIP x))) (snd (addrPair (rlSrcIP x)))
                      (fst (addrPair (rlDestIP x))) (snd (addrPair (rlDestIP x))) (rlSrcIP x \<noteq> []) (rlDestIP x \<noteq> []))
      else [None])"

definition ofFam :: "family \<Rightarrow> string list \<times> string list \<Rightarrow> string list" where
  "ofFam f p = (case f of Fam4 \<Rightarrow> fst p | Fam6 \<Rightarrow> snd p)"

definition ruleBase :: "'c Config_scheme \<Rightarrow> FwRule \<Rightarrow> rule" where
  "ruleBase c x =
     (if isZone (rlSrc x) then [Iif (fwZoneIfs c (rlSrc x))] else [])
     @ (if isZone (rlDest x) then [Oif (fwZoneIfs c (rlDest x))] else [])
     @ (if rlSrcMAC x \<noteq> [] then [Ether (lowerAll (rlSrcMAC x))] else [])"

definition ruleAddrs :: "family option \<Rightarrow> FwRule \<Rightarrow> rule" where
  "ruleAddrs fam x =
     (case fam of None \<Rightarrow> []
      | Some f \<Rightarrow>
          (let src = ofFam f (addrPair (rlSrcIP x)); dst = ofFam f (addrPair (rlDestIP x)) in
           (if src \<noteq> [] then [Saddr f src] else []) @ (if dst \<noteq> [] then [Daddr f dst] else [])))"

definition ruleProto :: "family option \<Rightarrow> FwRule \<Rightarrow> rule" where
  "ruleProto fam x =
     (if rlProto x = [] then []
      else if rlDestPort x \<noteq> [] then
        (case rlProto x of
           [p] \<Rightarrow> [Dport p (portsOf (rlDestPort x))]
         | _ \<Rightarrow> [L4proto [''tcp'', ''udp''], ThDport (portsOf (rlDestPort x))])
      else
        [L4proto (filter (\<lambda>p. p \<in> set (rlProto x)) [''tcp'', ''udp'']
                  @ (if ''icmp'' \<in> set (rlProto x)
                     then (if fam \<noteq> Some Fam6 then [''icmp''] else []) @ (if fam \<noteq> Some Fam4 then [''ipv6-icmp''] else [])
                     else []))])"

definition ruleVerdict :: "FwRule \<Rightarrow> rule" where
  "ruleVerdict x =
     (if rlCounter x then [Counter] else [])
     @ [if rlAction x = ''reject'' then Reject (if rlProto x = [''tcp''] then ''tcp reset'' else ''icmpx admin-prohibited'')
        else if rlAction x = ''accept'' then Accept else if rlAction x = ''drop'' then Drop else Raw (rlAction x)]"

text \<open>The matches of one line: family and time window.\<close>

definition lineMatch :: "'c Config_scheme \<Rightarrow> FwRule \<Rightarrow> family option \<Rightarrow> time_expr \<Rightarrow> rule" where
  "lineMatch c x fam tm = ruleBase c x @ ruleAddrs fam x @ ruleProto fam x @ timeStmts tm"

definition windowLines :: "'c Config_scheme \<Rightarrow> FwRule \<Rightarrow> family option \<Rightarrow> time_expr \<Rightarrow> rule list" where
  "windowLines c x fam tm =
     (if rlLog x then [lineMatch c x fam tm @ [Limit ''limit rate 10/minute burst 5 packets'', Log (''mr-rule '' @ rlName x @ '': '')]] else [])
     @ [lineMatch c x fam tm @ ruleVerdict x @ [Note (''rule:'' @ rlName x)]]"

definition fwRuleLines :: "'c Config_scheme \<Rightarrow> FwRule \<Rightarrow> fwClock \<Rightarrow> rule list" where
  "fwRuleLines c x clk =
     (if rlWhen x \<noteq> None then [[Jump (presenceChain (rlName x))]]
      else concat (map (\<lambda>fam. concat (map (windowLines c x fam) (fw_time_exprs (rlSchedule x) clk))) (ruleFams x)))"

section \<open>Device access and rate limits\<close>

definition accessSet :: "nat \<Rightarrow> string \<Rightarrow> string" where
  "accessSet i fam = ''ac'' @ Itoa_nat i @ fam"

definition accessWindow :: "'c FwConfig_scheme \<Rightarrow> nat \<Rightarrow> time_expr \<Rightarrow> rule list" where
  "accessWindow c i tm =
     (let a = Access (Fw c) ! i; macs = fwAccessMACs c a; cm = Note (''access:'' @ acName a) in
      [[Iif (LANBridges c), Ether macs, Oif (WANIfnames c)] @ timeStmts tm @ [Counter, Drop, cm],
       [Iif (WANIfnames c), DaddrIn Fam4 (accessSet i ''_4'')] @ timeStmts tm @ [Counter, Drop, cm],
       [Iif (WANIfnames c), DaddrIn Fam6 (accessSet i ''_6'')] @ timeStmts tm @ [Counter, Drop, cm]])"

definition accessLines :: "'c FwConfig_scheme \<Rightarrow> fwClock \<Rightarrow> nat \<Rightarrow> rule list" where
  "accessLines c clk i =
     (let a = Access (Fw c) ! i; macs = fwAccessMACs c a in
      [[Iif (LANBridges c), Ether macs, Learn Fam4 ''ac_4'' (accessSet i ''_4'')],
       [Iif (LANBridges c), Ether macs, Learn Fam6 ''ac_6'' (accessSet i ''_6'')]]
      @ concat (map (accessWindow c i) (fw_time_exprs (acSchedule a) clk)))"

definition fwAccessForward :: "'c FwConfig_scheme \<Rightarrow> fwClock \<Rightarrow> rule list" where
  "fwAccessForward c clk = concat (map (accessLines c clk) (fwAccessEntries c))"

definition accessInputLine :: "'c FwConfig_scheme \<Rightarrow> nat \<Rightarrow> time_expr \<Rightarrow> rule" where
  "accessInputLine c i tm =
     (let a = Access (Fw c) ! i in
      [Iif (LANBridges c), Ether (fwAccessMACs c a)] @ timeStmts tm @ [FibForeign, Counter, Drop, Note (''access:'' @ acName a)])"

definition fwAccessInput :: "'c FwConfig_scheme \<Rightarrow> fwClock \<Rightarrow> rule list" where
  "fwAccessInput c clk =
     concat (map (\<lambda>i. map (accessInputLine c i) (fw_time_exprs (acSchedule (Access (Fw c) ! i)) clk)) (fwAccessEntries c))"

definition devLimitRate :: "int \<Rightarrow> string" where
  "devLimitRate mbit =
     (let kb = mbit * 125 in ''limit rate over '' @ Itoa kb @ '' kbytes/second burst '' @ Itoa (max (kb div 8) 16) @ '' kbytes'')"

definition limitLines :: "'c FwConfig_scheme \<Rightarrow> nat \<Rightarrow> rule list" where
  "limitLines c i =
     (let d = Devices c ! i; macs = lowerAll (dvMACs d); cm = Note (''limit:'' @ dvName d); n = ''lim'' @ Itoa_nat i;
          lim = (case dvLimit d of None \<Rightarrow> (0, 0) | Some l \<Rightarrow> l) in
      [[Iif (LANBridges c), Ether macs, Learn Fam4 ''ac_4'' (n @ ''_4'')],
       [Iif (LANBridges c), Ether macs, Learn Fam6 ''ac_6'' (n @ ''_6'')]]
      @ (if snd lim > 0 then [[Iif (LANBridges c), Ether macs, Oif (WANIfnames c), Limit (devLimitRate (snd lim)), Drop, cm]] else [])
      @ (if fst lim > 0 then [[Iif (WANIfnames c), DaddrIn Fam4 (n @ ''_4''), Limit (devLimitRate (fst lim)), Drop, cm],
                              [Iif (WANIfnames c), DaddrIn Fam6 (n @ ''_6''), Limit (devLimitRate (fst lim)), Drop, cm]] else []))"

definition limitRules :: "'c FwConfig_scheme \<Rightarrow> rule list" where
  "limitRules c = concat (map (limitLines c) (devLimited c))"

definition acSet :: "string \<Rightarrow> string \<Rightarrow> string \<Rightarrow> string" where
  "acSet name typ sz = ''set '' @ name @ '' { type '' @ typ @ ''; size '' @ sz @ ''; flags dynamic,timeout; timeout 6h; }''"

definition devNft :: "'c FwConfig_scheme \<Rightarrow> string \<Rightarrow> string list" where
  "devNft c hook =
     (if hook = ''defs'' then
        concat (map (\<lambda>i. [acSet (''lim'' @ Itoa_nat i @ ''_4'') ''ipv4_addr'' ''256'', acSet (''lim'' @ Itoa_nat i @ ''_6'') ''ipv6_addr'' ''256'']) (devLimited c))
      else if hook = ''forward_first'' then map showRule (limitRules c)
      else [])"

section \<open>Forwards, open ports, pinholes\<close>

definition fwEnabledForwards :: "'c FwConfig_scheme \<Rightarrow> Forward list" where
  "fwEnabledForwards c = filter (\<lambda>f. on (fdEnabled f)) (Forwards (Fw c))"

definition fwdTo :: "'c FwConfig_scheme \<Rightarrow> Forward \<Rightarrow> string" where
  "fwdTo c f =
     (let to = devHostIP c (fdTo f) in
      if fdToPort f \<noteq> [] \<and> fdToPort f \<noteq> fdPort f then to @ '':'' @ nftPorts (fdToPort f) else to)"

definition fwReflectMatch :: "'c Config_scheme \<Rightarrow> string list \<times> string list" where
  "fwReflectMatch c =
     (let lns = filter (\<lambda>ln. ParseCIDR (lnIPv4 ln) \<noteq> None) (LANNets c) in
      (map lnBridge (filter (\<lambda>ln. lnZone ln = ''lan'') lns),
       map (\<lambda>ln. IPString (fst (the (ParseCIDR (lnIPv4 ln))))) lns))"

definition fwWANSet :: "'c Config_scheme \<Rightarrow> string list \<Rightarrow> string list" where
  "fwWANSet c ws =
     (if ws = [] then WANIfnames c
      else concat (map (\<lambda>x. concat (map (\<lambda>s. if wanName x = s then [Ifname x] else []) ws)) (WANs c)))"

definition fwSrcMatches :: "string list \<Rightarrow> rule list" where
  "fwSrcMatches src =
     (if src = [] then [[]]
      else (case addrPair src of (v4, v6) \<Rightarrow>
              (if v4 \<noteq> [] then [[Saddr Fam4 v4]] else []) @ (if v6 \<noteq> [] then [[Saddr Fam6 v6]] else [])))"

definition openRule :: "'c FwConfig_scheme \<Rightarrow> OpenPort \<Rightarrow> rule \<Rightarrow> string \<Rightarrow> rule" where
  "openRule c x src p = [Iif (fwWANSet c (opWAN x))] @ src @ [Dport p (portsOf (opPort x)), Accept, Note (opName x)]"

definition openLines :: "'c FwConfig_scheme \<Rightarrow> OpenPort \<Rightarrow> rule list" where
  "openLines c x = concat (map (\<lambda>src. map (openRule c x src) (opProto x)) (fwSrcMatches (opSrcIP x)))"

definition openRules :: "'c FwConfig_scheme \<Rightarrow> rule list" where
  "openRules c = concat (map (openLines c) (filter (\<lambda>x. on (opEnabled x)) (OpenPorts (Fw c))))"

definition pinholeRule :: "'c FwConfig_scheme \<Rightarrow> FwV6Allow \<Rightarrow> rule \<Rightarrow> string \<Rightarrow> rule" where
  "pinholeRule c a src p =
     [Iif (fwWANSet c (alWAN a)), Oif (LANBridges c)] @ src
     @ [DaddrIID (iid a), Dport p (portsOf (alPort a)), Counter, Accept, Note (''v6in:'' @ alName a)]"

definition pinholeLines :: "'c FwConfig_scheme \<Rightarrow> FwV6Allow \<Rightarrow> rule list" where
  "pinholeLines c a = concat (map (\<lambda>src. map (pinholeRule c a src) (alProto a)) (fwSrcMatches (alSrcIP a)))"

definition pinholeRules :: "'c FwConfig_scheme \<Rightarrow> rule list" where
  "pinholeRules c = concat (map (pinholeLines c) (filter (\<lambda>a. on (alEnabled a)) (IPv6Allow (Fw c))))"

definition dnatRule :: "'c FwConfig_scheme \<Rightarrow> Forward \<Rightarrow> string \<Rightarrow> rule" where
  "dnatRule c f p =
     [Iif (fwWANSet c (fdWAN f))]
     @ (let v4 = fst (addrPair (fdSrcIP f)) in if v4 \<noteq> [] then [Saddr Fam4 v4] else [])
     @ [Dport p [nftPorts (fdPort f)], Dnat (fwdTo c f), Note (fdName f)]"

definition dnatLines :: "'c FwConfig_scheme \<Rightarrow> Forward \<Rightarrow> rule list" where
  "dnatLines c f = map (dnatRule c f) (fdProto f)"

definition dnatRules :: "'c FwConfig_scheme \<Rightarrow> rule list" where
  "dnatRules c = concat (map (dnatLines c) (fwEnabledForwards c))"

definition reflectRule :: "'c FwConfig_scheme \<Rightarrow> Forward \<Rightarrow> string \<Rightarrow> rule" where
  "reflectRule c f p =
     (case fwReflectMatch c of (iif, routers) \<Rightarrow>
      [IifAny iif, FibLocal, DaddrNot Fam4 routers, Dport p [nftPorts (fdPort f)], Dnat (fwdTo c f)])"

definition reflectRules :: "'c FwConfig_scheme \<Rightarrow> rule list" where
  "reflectRules c = concat (map (\<lambda>f. map (reflectRule c f) (fdProto f)) (fwEnabledForwards c))"

definition normalizedModemAddress :: "WAN \<Rightarrow> string" where
  "normalizedModemAddress w =
     (case ParseIP (wanModem w) of
        None \<Rightarrow> []
      | Some ip \<Rightarrow>
          (case To4 ip of
             None \<Rightarrow> []
           | Some v4 \<Rightarrow> if CHR '':'' \<in> set (wanModem w) \<or> TrimSpace (wanModem w) \<noteq> wanModem w then [] else String4 v4))"

definition modemLines :: "'c Config_scheme \<Rightarrow> WAN \<Rightarrow> rule list" where
  "modemLines c w =
     (if normalizedModemAddress w = [] \<or> wanProto w \<noteq> ''pppoe'' then []
      else map (\<lambda>ln. [IifOne (lnBridge ln), OifOne (LinkDev w), Daddr Fam4 [normalizedModemAddress w], Accept, Note (''modem:'' @ wanName w)])
             (filter (\<lambda>ln. lnZone ln = ''lan'') (LANNets c)))"

definition modemRules :: "'c Config_scheme \<Rightarrow> rule list" where
  "modemRules c = concat (map (modemLines c) (WANs c))"

section \<open>Modes\<close>

definition bypassMode :: "'c FwConfig_scheme \<Rightarrow> bool" where
  "bypassMode c \<longleftrightarrow> Mode c = ''bypass''"

definition apMode :: "'c FwConfig_scheme \<Rightarrow> bool" where
  "apMode c \<longleftrightarrow> Mode c = ''ap''"

definition routerMode :: "'c FwConfig_scheme \<Rightarrow> bool" where
  "routerMode c \<longleftrightarrow> Mode c = [] \<or> Mode c = ''router''"

definition bypassClients :: "'c FwConfig_scheme \<Rightarrow> string" where
  "bypassClients c = (if Clients (BypassSec c) = [] then ''route-only'' else Clients (BypassSec c))"

definition bypassServesDHCP :: "'c FwConfig_scheme \<Rightarrow> bool" where
  "bypassServesDHCP c \<longleftrightarrow> bypassMode c \<and> bypassClients c \<noteq> ''route-only''"

definition bypassNAT :: "'c FwConfig_scheme \<Rightarrow> bool" where
  "bypassNAT c \<longleftrightarrow> bypassServesDHCP c \<and> on (bpNAT (BypassSec c))"

section \<open>The module's rules at the hooks\<close>

definition reflectNAT :: "LANNet \<Rightarrow> rule list" where
  "reflectNAT ln =
     (case ParseCIDR (lnIPv4 ln) of
        Some (ip, nn) \<Rightarrow>
          if lnZone ln = ''lan''
          then [[IifOne (lnBridge ln), OifOne (lnBridge ln), CtDnat, Saddr Fam4 [IPNetString nn], Masquerade, Note ''nat-reflection'']]
          else []
      | None \<Rightarrow> [])"

definition srcnatRules :: "'c FwConfig_scheme \<Rightarrow> rule list" where
  "srcnatRules c =
     (if WANs c \<noteq> [] then [[Oif (WANIfnames c), Nfproto Fam4, Masquerade]] else [])
     @ (if bypassNAT c then [[IifOne (Bridge c), OifOne (Bridge c), Nfproto Fam4, Masquerade, Note ''bypass-nat'']] else [])
     @ (if fwEnabledForwards c \<noteq> [] then concat (map reflectNAT (LANNets c)) else [])"

definition fwHookRules :: "'c FwConfig_scheme \<Rightarrow> fwClock \<Rightarrow> string \<Rightarrow> rule list" where
  "fwHookRules c clk hook =
     (if hook = ''input'' then openRules c
      else if hook = ''forward_early'' then
        concat (map (\<lambda>x. fwRuleLines c x clk) (filter (\<lambda>x. on (rlEnabled x) \<and> rlDest x \<noteq> ''router'') (Rules (Fw c)))) @ modemRules c
      else if hook = ''forward'' then pinholeRules c
      else if hook = ''dstnat'' then dnatRules c
      else if hook = ''srcnat'' then srcnatRules c
      else [])"

definition fwDefs :: "'c FwConfig_scheme \<Rightarrow> string list" where
  "fwDefs c =
     map (\<lambda>r. ''chain '' @ presenceChain (rlName r) @ '' {'' @ lf @ [CHR 0x09] @ ''}'') (presenceRules c)
     @ (if fwAccessEntries c \<noteq> [] \<or> devLimited c \<noteq> []
        then [acSet ''ac_4'' ''ipv4_addr'' ''4096'', acSet ''ac_6'' ''ipv6_addr'' ''4096''] else [])
     @ concat (map (\<lambda>i. [acSet (''ac'' @ Itoa_nat i @ ''_4'') ''ipv4_addr'' ''1024'', acSet (''ac'' @ Itoa_nat i @ ''_6'') ''ipv6_addr'' ''1024'']) (fwAccessEntries c))
     @ (if fwEnabledForwards c \<noteq> [] then
          [''chain reflect {'' @ lf @ [CHR 0x09, CHR 0x09] @ ''type nat hook prerouting priority dstnat + 1; policy accept;'']
          @ map (\<lambda>r. CHR 0x09 # showRule r) (reflectRules c) @ [''}'']
        else [])"

definition fwNft :: "fwClock \<Rightarrow> 'c FwConfig_scheme \<Rightarrow> string \<Rightarrow> string list" where
  "fwNft clk c hook = (if hook = ''defs'' then fwDefs c else map showRule (fwHookRules c clk hook))"

section \<open>The skeleton\<close>

text \<open>A chain is rules and, between them, the places where every module adds its own.\<close>

datatype line = Rule rule | Hook string

definition rulesL :: "rule list \<Rightarrow> line list" where
  "rulesL rs = map Rule rs"

definition ctState :: "'c FwConfig_scheme \<Rightarrow> rule" where
  "ctState c = [CtVmap (on (DropInvalid (Fw c)))]"

definition icmp6Errors :: "string list" where
  "icmp6Errors = [''destination-unreachable'', ''packet-too-big'', ''time-exceeded'', ''parameter-problem'']"

definition nd6 :: "string list" where
  "nd6 = [''nd-router-advert'', ''nd-neighbor-solicit'', ''nd-neighbor-advert'']"

definition mld6 :: "string list" where
  "mld6 = [''mld-listener-query'', ''mld-listener-report'', ''mld-listener-done'', ''mld2-listener-report'']"

definition guestInput :: "string \<Rightarrow> rule list" where
  "guestInput br =
     [[IifOne br, L4proto [''tcp'', ''udp''], ThDport [''53'', ''67'', ''547''], Accept],
      [IifOne br, L4proto [''icmp'', ''ipv6-icmp''], Accept],
      [IifOne br, Drop]]"

definition dhcp6WAN :: "'c Config_scheme \<Rightarrow> string list" where
  "dhcp6WAN c = map Ifname (filter wanIPv6 (WANs c))"

definition dhcpWAN :: "'c Config_scheme \<Rightarrow> string list" where
  "dhcpWAN c = map Ifname (filter (\<lambda>w. wanProto w = ''dhcp'') (WANs c))"

definition protocolInput :: "'c FwConfig_scheme \<Rightarrow> rule list" where
  "protocolInput c =
     (if SynFlood (Fw c) then [[SynOnly, Limit ''limit rate over 50/second burst 100 packets'', Drop]] else [])
     @ (if on (WANPing (Fw c)) then [[IcmpEcho, Limit ''limit rate 20/second'', Accept]] else [])
     @ [[Nfproto Fam6, Icmp6 (icmp6Errors @ nd6), Accept],
        [Nfproto Fam6, Icmp6 [''echo-request''], Limit ''limit rate 20/second'', Accept],
        [Saddr Fam6 [''fe80::/10''], Icmp6 mld6, Accept]]
     @ (if dhcp6WAN c \<noteq> []
        then [[Iif (dhcp6WAN c), Daddr Fam6 [''fe80::/10''], Sport ''udp'' ''547'', Dport ''udp'' [''546''], Accept, Note ''dhcpv6-client'']]
        else [])
     @ (if dhcpWAN c \<noteq> []
        then [[Iif (dhcpWAN c), Nfproto Fam4, Sport ''udp'' ''67'', Dport ''udp'' [''68''], Accept, Note ''dhcp-client'']]
        else [])
     @ [[L4proto [''igmp''], Accept]]"

definition wanDrop :: "'c FwConfig_scheme \<Rightarrow> rule list" where
  "wanDrop c =
     (if LogDrops (Fw c) \<and> WANs c \<noteq> []
      then [[Iif (WANIfnames c), Limit ''limit rate 10/minute burst 20 packets'', Log ''mr-drop wan-in: '']] else [])
     @ (if WANs c \<noteq> [] then [[Iif (WANIfnames c), Counter, Drop, Note ''wan-in-drop'']] else [])"

definition routerRules :: "'c FwConfig_scheme \<Rightarrow> fwClock \<Rightarrow> rule list" where
  "routerRules c clk =
     concat (map (\<lambda>x. fwRuleLines c x clk) (filter (\<lambda>x. on (rlEnabled x) \<and> rlDest x = ''router'') (Rules (Fw c))))"

definition inputChain :: "'c FwConfig_scheme \<Rightarrow> fwClock \<Rightarrow> line list" where
  "inputChain c clk =
     rulesL (fwAccessInput c clk @ [ctState c, [IifLo, Accept]] @ routerRules c clk
             @ [[Iif (fwZoneIfs c ''lan''), Accept]] @ concat (map guestInput (fwZoneIfs c ''guest'')) @ protocolInput c)
     @ [Hook ''input''] @ rulesL (wanDrop c)"

text \<open>The flow rules: \<open>nat6\<close> says whether a policy route uses NPTv6 (\<open>nat6Policies\<close>).\<close>

definition flowRules :: "bool \<Rightarrow> 'c FwConfig_scheme \<Rightarrow> fwClock \<Rightarrow> rule list" where
  "flowRules nat6 c clk =
     (if nat6 then [[Nfproto Fam6, CtSnat, CtEstablished, Accept, Note ''nat6-no-flowtable'']] else [])
     @ (if fwAccessForward c clk \<noteq> [] \<or> devLimited c \<noteq> [] then
          [[Nfproto Fam4, L4proto [''tcp'', ''udp''], CtEstablished, SaddrNotIn Fam4 ''ac_4'', DaddrNotIn Fam4 ''ac_4'', FlowAdd],
           [Nfproto Fam6, L4proto [''tcp'', ''udp''], CtEstablished, SaddrNotIn Fam6 ''ac_6'', DaddrNotIn Fam6 ''ac_6'', FlowAdd]]
        else [[L4proto [''tcp'', ''udp''], CtEstablished, FlowAdd]])"

definition forwardChain :: "bool \<Rightarrow> bool \<Rightarrow> 'c FwConfig_scheme \<Rightarrow> fwClock \<Rightarrow> line list" where
  "forwardChain haveFT nat6 c clk =
     [Hook ''forward_first'']
     @ rulesL (fwAccessForward c clk @ (if haveFT then flowRules nat6 c clk else []) @ [ctState c])
     @ [Hook ''forward_early'']
     @ rulesL ([[Iif (fwZoneIfs c ''lan''), Accept]]
               @ map (\<lambda>br. [IifOne br, Oif (WANIfnames c), Accept]) (fwZoneIfs c ''guest'') @ [[CtDnat, Accept]])
     @ [Hook ''forward''] @ rulesL [[Nfproto Fam6, Icmp6 (icmp6Errors @ [''echo-request'']), Accept]]"

text \<open>
  The whole text. \<open>ms\<close> is the list of modules, \<open>devs\<close> their \<open>FlowDevs\<close>, \<open>ex\<close> says which netdevs exist. The two clamp
  rules of \<open>mangle_forward\<close> change no verdict and stay text.
\<close>

definition tab :: string where "tab = [CHR 0x09]"

definition lineText :: "'c Module list \<Rightarrow> 'c \<Rightarrow> line \<Rightarrow> string" where
  "lineText ms c l = (case l of Rule r \<Rightarrow> tab @ tab @ showRule r @ lf | Hook h \<Rightarrow> emitNft ms c h)"

definition chainText :: "'c Module list \<Rightarrow> 'c \<Rightarrow> string \<Rightarrow> string \<Rightarrow> line list \<Rightarrow> string" where
  "chainText ms c name kind ls =
     tab @ ''chain '' @ name @ '' {'' @ lf @ tab @ tab @ ''type '' @ kind @ '';'' @ lf @ concat (map (lineText ms c) ls) @ tab @ ''}'' @ lf"

definition flowDevs :: "(string \<Rightarrow> bool) \<Rightarrow> 'c FwConfig_scheme \<Rightarrow> string list \<Rightarrow> string list" where
  "flowDevs ex c devs = (if Offload (Fw c) \<noteq> ''off'' \<and> \<not> apMode c then sort (dedup (filter ex devs)) else [])"

definition flowtable :: "'c FwConfig_scheme \<Rightarrow> string list \<Rightarrow> string" where
  "flowtable c present =
     (if present = [] then []
      else tab @ ''flowtable ft {'' @ lf @ tab @ tab @ ''hook ingress priority filter'' @ lf
           @ tab @ tab @ ''devices = { '' @ quoteList present @ '' }'' @ lf
           @ (if Offload (Fw c) = ''hardware'' then tab @ tab @ ''flags offload'' @ lf else [])
           @ tab @ tab @ ''counter'' @ lf @ tab @ ''}'' @ lf)"

definition mssText :: "'c Config_scheme \<Rightarrow> string" where
  "mssText c =
     (if WANs c = [] then []
      else tab @ tab @ ''oifname { '' @ quoteList (WANIfnames c) @ '' } tcp flags syn / syn,rst tcp option maxseg size set rt mtu'' @ lf
           @ tab @ tab @ ''iifname { '' @ quoteList (WANIfnames c) @ '' } tcp flags syn / syn,rst tcp option maxseg size set rt mtu'' @ lf)"

definition renderNft ::
  "'c FwConfig_scheme Module list \<Rightarrow> string list \<Rightarrow> bool \<Rightarrow> (string \<Rightarrow> bool) \<Rightarrow> fwClock \<Rightarrow> 'c FwConfig_scheme \<Rightarrow> string" where
  "renderNft ms devs nat6 ex clk c =
     (let present = flowDevs ex c devs; guests = Join (fwZoneIfs c ''guest'') '' '' in
      ''# generated by mr'' @ [CHR '' '', CHR 0xE2, CHR 0x80, CHR 0x94] @ '' edit router.yaml instead'' @ lf
      @ ''# zones: lan (trusted) = '' @ Join (fwZoneIfs c ''lan'') '' '' @ '' | guest (internet only) = ''
      @ (if guests = [] then ''-'' else guests) @ '' | wan = '' @ Join (WANIfnames c) '' '' @ lf
      @ ''table inet mr'' @ lf @ ''delete table inet mr'' @ lf @ ''table inet mr {'' @ lf
      @ tab @ ''set lan6 {'' @ lf @ tab @ tab @ ''type ipv6_addr'' @ lf @ tab @ tab @ ''flags interval'' @ lf
      @ tab @ tab @ ''elements = { fe80::/10, ff00::/8 }'' @ lf @ tab @ ''}'' @ lf
      @ flowtable c present
      @ emitNft ms c ''defs''
      @ chainText ms c ''input'' ''filter hook input priority filter; policy drop'' (inputChain c clk)
      @ chainText ms c ''forward'' ''filter hook forward priority filter; policy drop'' (forwardChain (present \<noteq> []) nat6 c clk)
      @ chainText ms c ''output'' ''filter hook output priority filter; policy accept'' [Hook ''output'']
      @ tab @ ''chain mangle_forward {'' @ lf @ tab @ tab @ ''type filter hook forward priority mangle; policy accept;'' @ lf
      @ mssText c @ tab @ ''}'' @ lf
      @ chainText ms c ''mark_pre'' ''filter hook prerouting priority mangle + 1; policy accept'' [Hook ''mark'']
      @ chainText ms c ''dstnat'' ''nat hook prerouting priority dstnat; policy accept'' [Hook ''dstnat'']
      @ chainText ms c ''srcnat'' ''nat hook postrouting priority srcnat; policy accept'' [Hook ''srcnat'']
      @ ''}'' @ lf)"

end
