(* ===== verification/Fw_Presence.thy ===== *)
theory Fw_Presence
  imports Fw_Nft
begin

text \<open>
  Presence rules, \<open>mr/mod_fw_presence.go\<close>: which rules are active, the tick that records who is seen and asks for a
  reload when that set changes, and the lines \<open>fwLoad\<close> adds to the presence chains (\<open>presenceScript\<close>). Times are Unix
  seconds; a MAC that was never seen has time 0, as in the map of the source.
\<close>

definition presenceHold :: int where "presenceHold = 600"

definition presenceMACs :: "'c FwConfig_scheme \<Rightarrow> string list \<Rightarrow> string list" where
  "presenceMACs c refs =
     concat (map (\<lambda>r. if reMAC r then [ToLower r] else refMACs c r) refs)"

definition seenAt :: "(string \<rightharpoonup> int) \<Rightarrow> string \<Rightarrow> int" where
  "seenAt seen m = (case seen m of Some t \<Rightarrow> t | None \<Rightarrow> 0)"

definition here :: "'c FwConfig_scheme \<Rightarrow> (string \<rightharpoonup> int) \<Rightarrow> int \<Rightarrow> string \<Rightarrow> bool" where
  "here c seen t ref \<longleftrightarrow> (\<exists>m \<in> set (presenceMACs c [ref]). t - seenAt seen m < presenceHold)"

definition whenHolds :: "'c FwConfig_scheme \<Rightarrow> (string \<rightharpoonup> int) \<Rightarrow> int \<Rightarrow> FwWhen \<Rightarrow> bool" where
  "whenHolds c seen t w \<longleftrightarrow> list_all (here c seen t) (Present w) \<and> list_all (\<lambda>d. \<not> here c seen t d) (Absent w)"

definition presenceActive :: "'c FwConfig_scheme \<Rightarrow> (string \<rightharpoonup> int) \<Rightarrow> int \<Rightarrow> string list" where
  "presenceActive c seen t =
     map rlName (filter (\<lambda>r. case rlWhen r of None \<Rightarrow> True | Some w \<Rightarrow> whenHolds c seen t w) (presenceRules c))"

record presenceState =
  Seen :: "string \<rightharpoonup> int"
  Active :: "string list"

text \<open>The new state and whether the firewall is reloaded; \<open>now_seen\<close> are the MACs on the network.\<close>

definition presenceTick :: "'c FwConfig_scheme \<Rightarrow> string list \<Rightarrow> int \<Rightarrow> presenceState \<Rightarrow> presenceState \<times> bool" where
  "presenceTick c now_seen t st =
     (if presenceRules c = [] then (st, False)
      else (let seen1 = fold (\<lambda>m s. s(m \<mapsto> t)) now_seen (Seen st);
                seen2 = (\<lambda>m. case seen1 m of Some u \<Rightarrow> if t - u > 86400 then None else Some u | None \<Rightarrow> None);
                act = presenceActive c seen2 t
            in (\<lparr>Seen = seen2, Active = act\<rparr>, act \<noteq> Active st)))"

definition scriptRules :: "'c FwConfig_scheme \<Rightarrow> fwClock \<Rightarrow> string list \<Rightarrow> (string \<times> rule) list" where
  "scriptRules c clk act =
     concat (map (\<lambda>r. map (Pair (presenceChain (rlName r))) (fwRuleLines c (r\<lparr>rlWhen := None\<rparr>) clk))
       (filter (\<lambda>r. rlName r \<in> set act) (presenceRules c)))"

definition presenceScript :: "'c FwConfig_scheme \<Rightarrow> fwClock \<Rightarrow> (string \<rightharpoonup> int) \<Rightarrow> int \<Rightarrow> string" where
  "presenceScript c clk seen t =
     (if presenceRules c = [] then []
      else concat (map (\<lambda>(ch, l). ''add rule inet mr '' @ ch @ '' '' @ showRule l @ lf) (scriptRules c clk (presenceActive c seen t))))"

text \<open>The chains after the script: its rules by chain, in order.\<close>

definition presenceChains :: "'c FwConfig_scheme \<Rightarrow> fwClock \<Rightarrow> string list \<Rightarrow> string \<Rightarrow> rule list" where
  "presenceChains c clk act ch = map snd (filter (\<lambda>(h, l). h = ch) (scriptRules c clk act))"

section \<open>Lemmas\<close>

text \<open>A device that was seen at a tick is present for the ten minutes after it.\<close>

lemma fold_seen: "fold (\<lambda>m s. s(m \<mapsto> t)) ms s m = (if m \<in> set ms then Some t else s m)"
  by (induction ms arbitrary: s) auto

lemma present_hold:
  assumes "presenceRules c \<noteq> []" "m \<in> set ms" "m \<in> set (presenceMACs c [ref])" "t \<le> u" "u < t + presenceHold"
  shows "here c (Seen (fst (presenceTick c ms t st))) u ref"
proof -
  have "Seen (fst (presenceTick c ms t st)) m = Some t" using assms(1,2) by (simp add: presenceTick_def Let_def fold_seen)
  then show ?thesis unfolding here_def using assms by (intro bexI [of _ m]) (simp_all add: seenAt_def)
qed

lemma tick_active:
  "presenceRules c \<noteq> [] \<Longrightarrow> Active (fst (presenceTick c ms t st)) = presenceActive c (Seen (fst (presenceTick c ms t st))) t"
  by (simp add: presenceTick_def Let_def)

lemma active_enabled: "n \<in> set (presenceActive c seen t) \<Longrightarrow> \<exists>r \<in> set (presenceRules c). rlName r = n"
  by (auto simp: presenceActive_def)

lemma chain_of:
  assumes inj: "inj_on presenceChain (rlName ` set (presenceRules c))" and d: "distinct (map rlName (presenceRules c))"
    and r: "r \<in> set (presenceRules c)"
  shows "presenceChains c clk act (presenceChain (rlName r)) = (if rlName r \<in> set act then fwRuleLines c (r\<lparr>rlWhen := None\<rparr>) clk else [])"
proof -
  define chain where "chain x = presenceChain (rlName x)" for x :: FwRule
  define f where "f x = fwRuleLines c (x\<lparr>rlWhen := None\<rparr>) clk" for x :: FwRule
  have pairs: "filter (\<lambda>(h, l). h = h') (map (Pair h) ls) = (if h = h' then map (Pair h) ls else [])" for h h' and ls :: "rule list"
    by (induction ls) auto
  have gen: "map snd (filter (\<lambda>(h, l). h = chain r) (concat (map (\<lambda>x. map (Pair (chain x)) (f x)) (filter (\<lambda>x. rlName x \<in> set act) rs))))
    = (if r \<in> set rs \<and> rlName r \<in> set act then f r else [])"
    if "distinct (map rlName rs)" "set rs \<subseteq> set (presenceRules c)" for rs
    using that
  proof (induction rs)
    case (Cons x xs)
    show ?case
    proof (cases "x = r")
      case True
      then have "r \<notin> set xs" using Cons.prems(1) by auto
      then show ?thesis using Cons True by (simp add: pairs comp_def)
    next
      case False
      then have "rlName x \<noteq> rlName r" using d r Cons.prems(2) by (auto simp: distinct_map inj_on_def)
      then have "chain x \<noteq> chain r" using inj r Cons.prems(2) by (auto simp: inj_on_def chain_def)
      then show ?thesis using Cons False by (auto simp: pairs split: if_splits)
    qed
  qed simp
  show ?thesis unfolding presenceChains_def scriptRules_def using gen [OF d subset_refl] r by (simp add: chain_def f_def)
qed

end
