(* ===== verification/Fw_Packet.thy ===== *)
theory Fw_Packet
  imports Fw_Presence
begin

text \<open>
  What the rendered rules do to a packet. A packet carries what the rules read of it and of its connection: \<open>pCt\<close> is the
  state of connection tracking, \<open>pDnat\<close> and \<open>pSnat\<close> whether its connection was translated, \<open>pFib\<close> the type of its
  destination in the routing table. The kernel's other state is \<open>kernel\<close>: the named sets, whether a rate limit's match
  holds at this packet, the time, and the presence chains as \<open>fwLoad\<close> filled them. A statement means what the nft
  manual says it means; a rule decides with its first verdict statement if every statement before it holds.
\<close>

datatype ctstate = New | Established | Related | Invalid

record pkt =
  pIif :: string
  pOif :: string
  pMac :: string
  pFam :: family
  pSrc :: bytes
  pDst :: bytes
  pL4 :: string
  pSport :: int
  pDport :: int
  pIcmp :: string
  pSyn :: bool
  pCt :: ctstate
  pDnat :: bool
  pSnat :: bool
  pFib :: string

record kernel =
  kSets :: "string \<Rightarrow> bytes \<Rightarrow> bool"
  kLimit :: "string \<Rightarrow> bool"
  kTime :: int
  kMW :: int
  kChains :: "string \<Rightarrow> rule list"

datatype verdict = VAccept | VDrop | VReject | VDnat string | VMasq

definition port_in :: "string \<Rightarrow> int \<Rightarrow> bool" where
  "port_in s n \<longleftrightarrow> (case portRange s of (lo, hi) \<Rightarrow> lo \<le> n \<and> n \<le> hi)"

definition anyPort :: "string list \<Rightarrow> int \<Rightarrow> bool" where
  "anyPort ps n \<longleftrightarrow> (\<exists>s \<in> set ps. port_in s n)"

definition addrOf :: "family \<Rightarrow> pkt \<Rightarrow> bytes \<Rightarrow> string list \<Rightarrow> bool" where
  "addrOf f p b xs \<longleftrightarrow> pFam p = f \<and> (\<exists>s \<in> set xs. addr_in s b)"

text \<open>The low 64 bits of an IPv6 address against an identifier written as an address.\<close>

definition iidMatches :: "string \<Rightarrow> bytes \<Rightarrow> bool" where
  "iidMatches s b \<longleftrightarrow> (case ParseIP s of None \<Rightarrow> False | Some ip \<Rightarrow> replicate 8 0 @ drop 8 b = ip)"

fun holds :: "kernel \<Rightarrow> pkt \<Rightarrow> stmt \<Rightarrow> bool" where
  "holds k p (Iif ifs) \<longleftrightarrow> pIif p \<in> set ifs"
| "holds k p (IifOne i) \<longleftrightarrow> pIif p = i"
| "holds k p (IifAny ifs) \<longleftrightarrow> pIif p \<in> set ifs"
| "holds k p IifLo \<longleftrightarrow> pIif p = ''lo''"
| "holds k p (Oif ifs) \<longleftrightarrow> pOif p \<in> set ifs"
| "holds k p (OifOne i) \<longleftrightarrow> pOif p = i"
| "holds k p (Ether ms) \<longleftrightarrow> pMac p \<in> set ms"
| "holds k p (EtherIn s) \<longleftrightarrow> (case ParseMAC (pMac p) of None \<Rightarrow> False | Some b \<Rightarrow> kSets k s b)"
| "holds k p (Saddr f xs) \<longleftrightarrow> addrOf f p (pSrc p) xs"
| "holds k p (Daddr f xs) \<longleftrightarrow> addrOf f p (pDst p) xs"
| "holds k p (DaddrNot f xs) \<longleftrightarrow> pFam p = f \<and> \<not> addrOf f p (pDst p) xs"
| "holds k p (DaddrIID s) \<longleftrightarrow> pFam p = Fam6 \<and> iidMatches s (pDst p)"
| "holds k p (SaddrNotIn f s) \<longleftrightarrow> pFam p = f \<and> \<not> kSets k s (pSrc p)"
| "holds k p (DaddrNotIn f s) \<longleftrightarrow> pFam p = f \<and> \<not> kSets k s (pDst p)"
| "holds k p (DaddrIn f s) \<longleftrightarrow> pFam p = f \<and> kSets k s (pDst p)"
| "holds k p (Learn f s t) \<longleftrightarrow> pFam p = f"
| "holds k p (Nfproto f) \<longleftrightarrow> pFam p = f"
| "holds k p (L4proto ps) \<longleftrightarrow> pL4 p \<in> set ps"
| "holds k p (Dport l4 ps) \<longleftrightarrow> pL4 p = l4 \<and> anyPort ps (pDport p)"
| "holds k p (ThDport ps) \<longleftrightarrow> anyPort ps (pDport p)"
| "holds k p (Sport l4 s) \<longleftrightarrow> pL4 p = l4 \<and> port_in s (pSport p)"
| "holds k p IcmpEcho \<longleftrightarrow> pFam p = Fam4 \<and> pL4 p = ''icmp'' \<and> pIcmp p = ''echo-request''"
| "holds k p (Icmp6 ts) \<longleftrightarrow> pL4 p = ''ipv6-icmp'' \<and> pIcmp p \<in> set ts"
| "holds k p SynOnly \<longleftrightarrow> pL4 p = ''tcp'' \<and> pSyn p"
| "holds k p CtEstablished \<longleftrightarrow> pCt p = Established"
| "holds k p CtDnat \<longleftrightarrow> pDnat p"
| "holds k p CtSnat \<longleftrightarrow> pSnat p"
| "holds k p FibLocal \<longleftrightarrow> pFib p = ''local''"
| "holds k p FibForeign \<longleftrightarrow> pFib p \<notin> {''local'', ''broadcast'', ''multicast'', ''anycast''}"
| "holds k p (TimeIs e) \<longleftrightarrow> time_holds e (kTime k mod 86400) (kernel_day (kMW k) (kTime k))"
| "holds k p (Limit l) \<longleftrightarrow> kLimit k l"
| "holds k p (Raw s) \<longleftrightarrow> False"
| "holds k p s \<longleftrightarrow> True"

text \<open>The verdict of a statement; \<open>Jump\<close> takes the verdict of its chain, the map of states one of its entries.\<close>

fun decides :: "(string \<Rightarrow> verdict option) \<Rightarrow> pkt \<Rightarrow> stmt \<Rightarrow> verdict option" where
  "decides jmp p Accept = Some VAccept"
| "decides jmp p Drop = Some VDrop"
| "decides jmp p (Reject w) = Some VReject"
| "decides jmp p (Dnat to) = Some (VDnat to)"
| "decides jmp p Masquerade = Some VMasq"
| "decides jmp p (Jump ch) = jmp ch"
| "decides jmp p (CtVmap di) =
     (case pCt p of Established \<Rightarrow> Some VAccept | Related \<Rightarrow> Some VAccept | Invalid \<Rightarrow> (if di then Some VDrop else None) | New \<Rightarrow> None)"
| "decides jmp p s = None"

fun evalRule :: "(string \<Rightarrow> verdict option) \<Rightarrow> kernel \<Rightarrow> pkt \<Rightarrow> rule \<Rightarrow> verdict option" where
  "evalRule jmp k p [] = None"
| "evalRule jmp k p (s # ss) =
     (case decides jmp p s of Some v \<Rightarrow> Some v | None \<Rightarrow> if holds k p s then evalRule jmp k p ss else None)"

fun evalRules :: "(string \<Rightarrow> verdict option) \<Rightarrow> kernel \<Rightarrow> pkt \<Rightarrow> rule list \<Rightarrow> verdict option" where
  "evalRules jmp k p [] = None"
| "evalRules jmp k p (r # rs) = (case evalRule jmp k p r of Some v \<Rightarrow> Some v | None \<Rightarrow> evalRules jmp k p rs)"

text \<open>The presence chains hold rules without jumps.\<close>

definition presence :: "kernel \<Rightarrow> pkt \<Rightarrow> string \<Rightarrow> verdict option" where
  "presence k p ch = evalRules (\<lambda>_. None) k p (kChains k ch)"

text \<open>What the other modules' rules at a hook decide, those before the firewall module in the order of the modules and those after it.\<close>

record others =
  before :: "string \<Rightarrow> pkt \<Rightarrow> verdict option"
  after :: "string \<Rightarrow> pkt \<Rightarrow> verdict option"

definition firstOf2 :: "verdict option \<Rightarrow> verdict option \<Rightarrow> verdict option" where
  "firstOf2 a b = (case a of Some v \<Rightarrow> Some v | None \<Rightarrow> b)"

definition evalLine :: "others \<Rightarrow> kernel \<Rightarrow> 'c FwConfig_scheme \<Rightarrow> fwClock \<Rightarrow> pkt \<Rightarrow> line \<Rightarrow> verdict option" where
  "evalLine os k c clk p l =
     (case l of
        Rule r \<Rightarrow> evalRule (presence k p) k p r
      | Hook h \<Rightarrow> firstOf2 (before os h p) (firstOf2 (evalRules (presence k p) k p (fwHookRules c clk h)) (after os h p)))"

fun evalLines :: "others \<Rightarrow> kernel \<Rightarrow> 'c FwConfig_scheme \<Rightarrow> fwClock \<Rightarrow> pkt \<Rightarrow> line list \<Rightarrow> verdict option" where
  "evalLines os k c clk p [] = None"
| "evalLines os k c clk p (l # ls) = firstOf2 (evalLine os k c clk p l) (evalLines os k c clk p ls)"

text \<open>The verdicts of the input and forward chains; the policy of both is to drop.\<close>

definition orDrop :: "verdict option \<Rightarrow> verdict" where
  "orDrop v = (case v of Some v \<Rightarrow> v | None \<Rightarrow> VDrop)"

definition inputVerdict :: "others \<Rightarrow> kernel \<Rightarrow> 'c FwConfig_scheme \<Rightarrow> fwClock \<Rightarrow> pkt \<Rightarrow> verdict" where
  "inputVerdict os k c clk p = orDrop (evalLines os k c clk p (inputChain c clk))"

definition forwardVerdict :: "others \<Rightarrow> kernel \<Rightarrow> bool \<Rightarrow> bool \<Rightarrow> 'c FwConfig_scheme \<Rightarrow> fwClock \<Rightarrow> pkt \<Rightarrow> verdict" where
  "forwardVerdict os k haveFT nat6 c clk p = orDrop (evalLines os k c clk p (forwardChain haveFT nat6 c clk))"

text \<open>Where a new IPv4 connection goes: the first \<open>dnat\<close> of the chain, else the packet's own destination.\<close>

definition dnatTo :: "kernel \<Rightarrow> 'c FwConfig_scheme \<Rightarrow> pkt \<Rightarrow> string option" where
  "dnatTo k c p = (case evalRules (\<lambda>_. None) k p (dnatRules c) of Some (VDnat to) \<Rightarrow> Some to | _ \<Rightarrow> None)"

section \<open>Lemmas\<close>

lemma firstOf2_simps [simp]:
  "firstOf2 None b = b" "firstOf2 (Some v) b = Some v" "firstOf2 a None = a" "firstOf2 a b = None \<longleftrightarrow> a = None \<and> b = None"
  by (auto simp: firstOf2_def split: option.splits)

lemma firstOf2_assoc: "firstOf2 (firstOf2 a b) d = firstOf2 a (firstOf2 b d)"
  by (cases a) auto

lemma firstOf2_Some: "firstOf2 a b = Some v \<longleftrightarrow> a = Some v \<or> a = None \<and> b = Some v"
  by (cases a) auto

lemma evalRules_append [simp]: "evalRules jmp k p (rs @ rs') = firstOf2 (evalRules jmp k p rs) (evalRules jmp k p rs')"
  by (induction rs) (auto split: option.split)

lemma evalLines_append [simp]: "evalLines os k c clk p (ls @ ls') = firstOf2 (evalLines os k c clk p ls) (evalLines os k c clk p ls')"
  by (induction ls) (auto simp: firstOf2_assoc)

lemma evalLines_rules [simp]: "evalLines os k c clk p (rulesL rs) = evalRules (presence k p) k p rs"
  by (induction rs) (auto simp: rulesL_def evalLine_def firstOf2_def)

lemma evalLine_hook: "evalLine os k c clk p (Hook h) = firstOf2 (before os h p) (firstOf2 (evalRules (presence k p) k p (fwHookRules c clk h)) (after os h p))"
  by (simp add: evalLine_def)

text \<open>A rule that is matches followed by a verdict.\<close>

definition is_match :: "stmt \<Rightarrow> bool" where
  "is_match s \<longleftrightarrow> (case s of Accept \<Rightarrow> False | Drop \<Rightarrow> False | Reject w \<Rightarrow> False | Dnat t \<Rightarrow> False | Masquerade \<Rightarrow> False
     | Jump ch \<Rightarrow> False | CtVmap b \<Rightarrow> False | _ \<Rightarrow> True)"

lemma decides_match [simp]: "is_match s \<Longrightarrow> decides jmp p s = None"
  by (cases s) (auto simp: is_match_def)

lemma evalRule_matches:
  "list_all is_match ms \<Longrightarrow> evalRule jmp k p (ms @ r) = (if list_all (holds k p) ms then evalRule jmp k p r else None)"
  by (induction ms) auto

lemma evalRules_None: "evalRules jmp k p rs = None \<longleftrightarrow> (\<forall>r \<in> set rs. evalRule jmp k p r = None)"
  by (induction rs) (auto split: option.splits)

lemma evalRules_only:
  "\<forall>r \<in> set rs. evalRule jmp k p r \<in> {None, Some v} \<Longrightarrow>
   evalRules jmp k p rs = (if \<exists>r \<in> set rs. evalRule jmp k p r = Some v then Some v else None)"
  by (induction rs) (auto split: option.splits)

lemma evalRules_SomeD: "evalRules jmp k p rs = Some v \<Longrightarrow> \<exists>r \<in> set rs. evalRule jmp k p r = Some v"
  by (induction rs) (auto split: option.splits)

lemma evalRules_concat:
  assumes "\<And>x. x \<in> set xs \<Longrightarrow> evalRules jmp k p (f x) = (if P x then Some v else None)"
  shows "evalRules jmp k p (concat (map f xs)) = (if \<exists>x \<in> set xs. P x then Some v else None)"
  using assms by (induction xs) auto

lemma evalRules_map:
  assumes "\<And>x. x \<in> set xs \<Longrightarrow> evalRule jmp k p (f x) = (if P x then Some v else None)"
  shows "evalRules jmp k p (map f xs) = (if \<exists>x \<in> set xs. P x then Some v else None)"
  using assms by (induction xs) auto

end
