(* ===== verification/Fw_Policy.thy ===== *)
theory Fw_Policy
  imports Fw_Packet
begin

text \<open>
  What the lines of the traffic rules of a validated config decide: one rule (\<open>rule_lines_exact\<close>) and the rules in their
  order, with the presence chains as they are loaded (\<open>rules_eval\<close>).
\<close>

section \<open>Traffic rules\<close>

text \<open>Packets as the kernel makes them: addresses of the family's length, the ICMP of the family.\<close>

definition wf_pkt :: "pkt \<Rightarrow> bool" where
  "wf_pkt p \<longleftrightarrow>
     length (pSrc p) = (if pFam p = Fam4 then 4 else 16) \<and> length (pDst p) = (if pFam p = Fam4 then 4 else 16)
     \<and> (pL4 p = ''icmp'' \<longrightarrow> pFam p = Fam4) \<and> (pL4 p = ''ipv6-icmp'' \<longrightarrow> pFam p = Fam6)"

text \<open>What a source or destination list says: no list is no restriction.\<close>

definition in_any :: "string list \<Rightarrow> bytes \<Rightarrow> bool" where
  "in_any xs b \<longleftrightarrow> xs = [] \<or> (\<exists>x \<in> set xs. addr_in x b)"

definition in_ports :: "string \<Rightarrow> int \<Rightarrow> bool" where
  "in_ports spec n \<longleftrightarrow> (\<exists>s \<in> set (SplitByte CHR '','' spec). port_in (TrimSpace s) n)"

text \<open>The kernel at a time of the week, with the timezone the rules were rendered for.\<close>

definition at_time :: "kernel \<Rightarrow> fwClock \<Rightarrow> bool" where
  "at_time k clk \<longleftrightarrow> kMW k = KernelMW clk \<and> 0 \<le> kTime k \<and> kTime k < fwWeek"

definition sched_now :: "kernel \<Rightarrow> fwClock \<Rightarrow> FwTime list \<Rightarrow> bool" where
  "sched_now k clk sch \<longleftrightarrow> sched_active sch (kTime k + LocalOff clk)"

lemma timeStmts_match [simp]: "list_all is_match (timeStmts e)"
  by (simp add: timeStmts_def is_match_def)

lemma timeStmts_hold: "list_all (holds k p) (timeStmts e) \<longleftrightarrow> time_holds e (kTime k mod 86400) (kernel_day (kMW k) (kTime k))"
  by (auto simp: timeStmts_def time_holds_def)

lemma sched_now_exprs:
  "at_time k clk \<Longrightarrow> sched_now k clk sch \<longleftrightarrow> (\<exists>e \<in> set (fw_time_exprs sch clk). list_all (holds k p) (timeStmts e))"
  using time_exprs_exact [of "kTime k" sch clk] by (simp add: at_time_def sched_now_def timeStmts_hold)

text \<open>What a traffic rule says about a packet.\<close>

definition rule_applies :: "'c FwConfig_scheme \<Rightarrow> FwRule \<Rightarrow> pkt \<Rightarrow> bool" where
  "rule_applies c x p \<longleftrightarrow>
     (isZone (rlSrc x) \<longrightarrow> pIif p \<in> set (fwZoneIfs c (rlSrc x))) \<and> (isZone (rlDest x) \<longrightarrow> pOif p \<in> set (fwZoneIfs c (rlDest x)))
     \<and> (rlSrcMAC x = [] \<or> pMac p \<in> ToLower ` set (rlSrcMAC x))
     \<and> in_any (rlSrcIP x) (pSrc p) \<and> in_any (rlDestIP x) (pDst p)
     \<and> (rlProto x = [] \<or> pL4 p \<in> set (rlProto x) \<or> (pL4 p = ''ipv6-icmp'' \<and> ''icmp'' \<in> set (rlProto x)))
     \<and> (rlDestPort x = [] \<or> in_ports (rlDestPort x) (pDport p))"

definition actionVerdict :: "FwRule \<Rightarrow> verdict" where
  "actionVerdict x = (if rlAction x = ''accept'' then VAccept else if rlAction x = ''reject'' then VReject else VDrop)"

lemma portsOf_in: "fwPortList s \<noteq> None \<Longrightarrow> anyPort (portsOf s) n \<longleftrightarrow> in_ports s n"
  by (auto simp: portsOf_def fwPortList_def anyPort_def in_ports_def Let_def split: if_splits)

lemma ruleBase_match [simp]: "list_all is_match (ruleBase c x)" "list_all is_match (ruleAddrs fam x)" "list_all is_match (ruleProto fam x)"
  by (auto simp: ruleBase_def ruleAddrs_def ruleProto_def is_match_def Let_def split: option.splits list.splits)

lemma ruleBase_hold:
  "list_all (holds k p) (ruleBase c x) \<longleftrightarrow>
     (isZone (rlSrc x) \<longrightarrow> pIif p \<in> set (fwZoneIfs c (rlSrc x))) \<and> (isZone (rlDest x) \<longrightarrow> pOif p \<in> set (fwZoneIfs c (rlDest x)))
     \<and> (rlSrcMAC x = [] \<or> pMac p \<in> ToLower ` set (rlSrcMAC x))"
  by (auto simp: ruleBase_def lowerAll_def)

lemma addrPair_Nil [simp]: "ofFam f (addrPair []) = []"
  by (cases f) (auto simp: addrPair_def ofFam_def fwAddrs_def dedup_def fwMaxList_def)

lemma addrPair_in:
  assumes "fwAddrs xs \<noteq> None" "length b = (if f = Fam4 then 4 else 16)"
  shows "(\<exists>s \<in> set (ofFam f (addrPair xs)). addr_in s b) \<longleftrightarrow> (\<exists>x \<in> set xs. addr_in x b)"
proof -
  obtain v4 v6 where f: "fwAddrs xs = Some (v4, v6)" using assms(1) by auto
  then show ?thesis
    using fwAddrs_in [OF f, of b] assms(2) by (cases f) (auto simp: ofFam_def addrPair_def)
qed

text \<open>What the validation leaves of a rule.\<close>

definition rule_ok :: "FwRule \<Rightarrow> bool" where
  "rule_ok x \<longleftrightarrow>
     rlAction x \<in> {''accept'', ''drop'', ''reject''} \<and> (rlDest x = ''router'' \<longrightarrow> rlAction x \<noteq> ''accept'')
     \<and> fwAddrs (rlSrcIP x) \<noteq> None \<and> fwAddrs (rlDestIP x) \<noteq> None
     \<and> set (rlProto x) \<subseteq> {''tcp'', ''udp'', ''icmp''} \<and> distinct (rlProto x)
     \<and> (rlDestPort x \<noteq> [] \<longrightarrow> fwPortList (rlDestPort x) \<noteq> None \<and> rlProto x \<noteq> [] \<and> ''icmp'' \<notin> set (rlProto x))"

lemma checkProtos_Nil: "checkProtos p seen xs = [] \<Longrightarrow> set xs \<subseteq> {''tcp'', ''udp'', ''icmp''} \<and> distinct xs \<and> set xs \<inter> set seen = {}"
  by (induction p seen xs rule: checkProtos.induct) (auto split: if_splits)

lemma checkRuleAddrs_Nil: "checkRuleAddrs p x = [] \<Longrightarrow> fwAddrs (rlSrcIP x) \<noteq> None \<and> fwAddrs (rlDestIP x) \<noteq> None"
  by (auto simp: checkRuleAddrs_def split: option.splits if_splits)

lemma fwCheckRule_ok: "fwCheckRule c p x = [] \<Longrightarrow> rule_ok x"
  using checkProtos_Nil [of p "[]" "rlProto x"] checkRuleAddrs_Nil [of p x]
  by (auto simp: fwCheckRule_def rule_ok_def split: if_splits)

lemma ruleFams_addrs:
  assumes fam: "fam \<in> set (ruleFams x)" and h: "list_all (holds k p) (ruleAddrs fam x)"
    and ok: "fwAddrs (rlSrcIP x) \<noteq> None" "fwAddrs (rlDestIP x) \<noteq> None" and wf: "wf_pkt p"
  shows "(fam = None \<or> fam = Some (pFam p)) \<and> in_any (rlSrcIP x) (pSrc p) \<and> in_any (rlDestIP x) (pDst p)"
proof (cases fam)
  case None
  then show ?thesis using fam by (auto simp: ruleFams_def in_any_def split: if_splits)
next
  case (Some f)
  have given: "rlSrcIP x \<noteq> [] \<or> rlDestIP x \<noteq> []" using fam Some by (auto simp: ruleFams_def split: if_splits)
  have ne: "rlSrcIP x \<noteq> [] \<Longrightarrow> ofFam f (addrPair (rlSrcIP x)) \<noteq> []" "rlDestIP x \<noteq> [] \<Longrightarrow> ofFam f (addrPair (rlDestIP x)) \<noteq> []"
    using fam Some given by (auto simp: ruleFams_def fwFamilies_def ofFam_def split: if_splits family.splits)
  have src: "rlSrcIP x \<noteq> [] \<Longrightarrow> addrOf f p (pSrc p) (ofFam f (addrPair (rlSrcIP x)))"
    using h ne(1) Some by (simp add: ruleAddrs_def Let_def)
  have dst: "rlDestIP x \<noteq> [] \<Longrightarrow> addrOf f p (pDst p) (ofFam f (addrPair (rlDestIP x)))"
    using h ne(2) Some by (simp add: ruleAddrs_def Let_def)
  have f: "pFam p = f" using given src dst by (auto simp: addrOf_def)
  have l: "length (pSrc p) = (if f = Fam4 then 4 else 16)" "length (pDst p) = (if f = Fam4 then 4 else 16)" using wf f by (auto simp: wf_pkt_def)
  show ?thesis
    using f Some src dst addrPair_in [OF ok(1) l(1)] addrPair_in [OF ok(2) l(2)] by (auto simp: in_any_def addrOf_def)
qed

lemma ruleFams_exists:
  assumes i: "in_any (rlSrcIP x) (pSrc p)" "in_any (rlDestIP x) (pDst p)"
    and ok: "fwAddrs (rlSrcIP x) \<noteq> None" "fwAddrs (rlDestIP x) \<noteq> None" and wf: "wf_pkt p"
  shows "\<exists>fam \<in> set (ruleFams x). list_all (holds k p) (ruleAddrs fam x)"
proof (cases "rlSrcIP x = [] \<and> rlDestIP x = []")
  case True
  then show ?thesis by (simp add: ruleFams_def ruleAddrs_def)
next
  case False
  let ?f = "pFam p" and ?s = "ofFam (pFam p) (addrPair (rlSrcIP x))" and ?d = "ofFam (pFam p) (addrPair (rlDestIP x))"
  have l: "length (pSrc p) = (if ?f = Fam4 then 4 else 16)" "length (pDst p) = (if ?f = Fam4 then 4 else 16)" using wf by (auto simp: wf_pkt_def)
  have s: "rlSrcIP x \<noteq> [] \<Longrightarrow> \<exists>s \<in> set ?s. addr_in s (pSrc p)" using i(1) addrPair_in [OF ok(1) l(1)] by (simp add: in_any_def)
  have d: "rlDestIP x \<noteq> [] \<Longrightarrow> \<exists>s \<in> set ?d. addr_in s (pDst p)" using i(2) addrPair_in [OF ok(2) l(2)] by (simp add: in_any_def)
  have ne: "rlSrcIP x \<noteq> [] \<Longrightarrow> ?s \<noteq> []" "rlDestIP x \<noteq> [] \<Longrightarrow> ?d \<noteq> []" using s d by auto
  have "Some ?f \<in> set (ruleFams x)"
    using False ne by (cases ?f) (auto simp: ruleFams_def fwFamilies_def ofFam_def)
  moreover have "list_all (holds k p) (ruleAddrs (Some ?f) x)"
    using s d by (cases "rlSrcIP x = []"; cases "rlDestIP x = []") (auto simp: ruleAddrs_def Let_def addrOf_def)
  ultimately show ?thesis by blast
qed

lemma of_two:
  assumes "set ps \<subseteq> {a, b, d}" "d \<notin> set ps" "distinct ps" "ps \<noteq> []"
  shows "ps = [a] \<or> ps = [b] \<or> ps = [a, b] \<or> ps = [b, a]"
proof -
  obtain x xs where x: "ps = x # xs" using assms(4) by (cases ps) auto
  show ?thesis
  proof (cases xs)
    case (Cons y ys)
    then have "ys = []" using assms x by (cases ys) auto
    then show ?thesis using assms x Cons by auto
  qed (use assms x in auto)
qed

lemma two_protos:
  assumes "set ps \<subseteq> {''tcp'', ''udp'', ''icmp''}" "distinct ps" "ps \<noteq> []" "''icmp'' \<notin> set ps"
  shows "ps = [''tcp''] \<or> ps = [''udp''] \<or> ps = [''tcp'', ''udp''] \<or> ps = [''udp'', ''tcp'']"
  using assms(1,4,2,3) by (rule of_two)

lemma among_three: "S \<subseteq> {a, b, d} \<Longrightarrow> y \<in> S \<longleftrightarrow> (y = a \<and> a \<in> S) \<or> (y = b \<and> b \<in> S) \<or> (y = d \<and> d \<in> S)"
  by blast

lemma ruleProto_hold:
  assumes ok: "rule_ok x" and wf: "wf_pkt p" and fam: "fam = None \<or> fam = Some (pFam p)"
  shows "list_all (holds k p) (ruleProto fam x) \<longleftrightarrow>
     (rlProto x = [] \<or> pL4 p \<in> set (rlProto x) \<or> (pL4 p = ''ipv6-icmp'' \<and> ''icmp'' \<in> set (rlProto x)))
     \<and> (rlDestPort x = [] \<or> in_ports (rlDestPort x) (pDport p))"
proof (cases "rlDestPort x = []")
  case False
  then have p: "fwPortList (rlDestPort x) \<noteq> None" "rlProto x \<noteq> []" "''icmp'' \<notin> set (rlProto x)"
    and ps: "set (rlProto x) \<subseteq> {''tcp'', ''udp'', ''icmp''}" "distinct (rlProto x)" using ok by (auto simp: rule_ok_def)
  have "list_all (holds k p) (ruleProto fam x) \<longleftrightarrow> pL4 p \<in> set (rlProto x) \<and> anyPort (portsOf (rlDestPort x)) (pDport p)"
    using two_protos [OF ps p(2,3)]
  proof (elim disjE)
    assume e: "rlProto x = [''udp'', ''tcp'']"
    show ?thesis unfolding ruleProto_def e using False by (simp add: disj_commute)
  qed (simp_all add: ruleProto_def False)
  then show ?thesis using False p(2,3) portsOf_in [OF p(1)] by simp
next
  case True
  have "set (rlProto x) \<subseteq> {''tcp'', ''udp'', ''icmp''}" using ok by (simp add: rule_ok_def)
  then have m: "pL4 p \<in> set (rlProto x) \<longleftrightarrow> (pL4 p = ''tcp'' \<and> ''tcp'' \<in> set (rlProto x))
      \<or> (pL4 p = ''udp'' \<and> ''udp'' \<in> set (rlProto x)) \<or> (pL4 p = ''icmp'' \<and> ''icmp'' \<in> set (rlProto x))" by (rule among_three)
  have f: "pL4 p = ''icmp'' \<Longrightarrow> pFam p = Fam4" "pL4 p = ''ipv6-icmp'' \<Longrightarrow> pFam p = Fam6" using wf by (auto simp: wf_pkt_def)
  show ?thesis
  proof (cases "rlProto x = []")
    case False
    have "list_all (holds k p) (ruleProto fam x) \<longleftrightarrow> (pL4 p = ''tcp'' \<and> ''tcp'' \<in> set (rlProto x))
      \<or> (pL4 p = ''udp'' \<and> ''udp'' \<in> set (rlProto x))
      \<or> (''icmp'' \<in> set (rlProto x) \<and> (pL4 p = ''icmp'' \<and> fam \<noteq> Some Fam6 \<or> pL4 p = ''ipv6-icmp'' \<and> fam \<noteq> Some Fam4))"
      using True False by (auto simp: ruleProto_def)
    then show ?thesis unfolding m using f fam True False by auto
  qed (simp add: ruleProto_def True)
qed

lemma lineMatch_match [simp]: "list_all is_match (lineMatch c x fam tm)"
  by (simp add: lineMatch_def)

lemma verdict_line:
  assumes "rule_ok x"
  shows "evalRule jmp k p (lineMatch c x fam tm @ ruleVerdict x @ r) =
    (if list_all (holds k p) (lineMatch c x fam tm) then Some (actionVerdict x) else None)"
proof -
  have "evalRule jmp k p (ruleVerdict x @ r) = Some (actionVerdict x)"
    using assms by (auto simp: ruleVerdict_def actionVerdict_def rule_ok_def)
  then show ?thesis by (simp add: evalRule_matches)
qed

lemma log_line: "evalRule jmp k p (lineMatch c x fam tm @ [Limit l, Log s]) = None"
  by (simp add: evalRule_matches)

lemma rule_lines_exact:
  assumes ok: "rule_ok x" and wf: "wf_pkt p" and t: "at_time k clk" and w: "rlWhen x = None"
  shows "evalRules jmp k p (fwRuleLines c x clk) =
    (if rule_applies c x p \<and> sched_now k clk (rlSchedule x) then Some (actionVerdict x) else None)"
proof -
  let ?P = "\<lambda>fam tm. list_all (holds k p) (lineMatch c x fam tm)"
  have w': "\<not> rlWhen x \<noteq> None" using w by simp
  have ev: "evalRules jmp k p (fwRuleLines c x clk) =
    (if \<exists>fam \<in> set (ruleFams x). \<exists>tm \<in> set (fw_time_exprs (rlSchedule x) clk). ?P fam tm then Some (actionVerdict x) else None)"
    unfolding fwRuleLines_def if_not_P [OF w']
    by (intro evalRules_concat) (simp add: windowLines_def verdict_line [OF ok] log_line)
  have "(\<exists>fam \<in> set (ruleFams x). \<exists>tm \<in> set (fw_time_exprs (rlSchedule x) clk). ?P fam tm) \<longleftrightarrow> list_all (holds k p) (ruleBase c x)
      \<and> (\<exists>fam \<in> set (ruleFams x). list_all (holds k p) (ruleAddrs fam x) \<and> list_all (holds k p) (ruleProto fam x))
      \<and> sched_now k clk (rlSchedule x)"
    unfolding sched_now_exprs [OF t, of _ p] lineMatch_def by auto
  also have "\<dots> \<longleftrightarrow> rule_applies c x p \<and> sched_now k clk (rlSchedule x)"
  proof -
    have a: "fwAddrs (rlSrcIP x) \<noteq> None" "fwAddrs (rlDestIP x) \<noteq> None" using ok by (auto simp: rule_ok_def)
    have "(\<exists>fam \<in> set (ruleFams x). list_all (holds k p) (ruleAddrs fam x) \<and> list_all (holds k p) (ruleProto fam x)) \<longleftrightarrow>
       in_any (rlSrcIP x) (pSrc p) \<and> in_any (rlDestIP x) (pDst p)
       \<and> (rlProto x = [] \<or> pL4 p \<in> set (rlProto x) \<or> (pL4 p = ''ipv6-icmp'' \<and> ''icmp'' \<in> set (rlProto x)))
       \<and> (rlDestPort x = [] \<or> in_ports (rlDestPort x) (pDport p))" (is "?l \<longleftrightarrow> ?i \<and> ?j \<and> ?q")
    proof
      assume ?l
      then obtain fam where fam: "fam \<in> set (ruleFams x)" "list_all (holds k p) (ruleAddrs fam x)" "list_all (holds k p) (ruleProto fam x)" by blast
      note f = ruleFams_addrs [OF fam(1,2) a wf]
      show "?i \<and> ?j \<and> ?q" using f ruleProto_hold [OF ok wf, of fam k] fam(3) by blast
    next
      assume r: "?i \<and> ?j \<and> ?q"
      then obtain fam where fam: "fam \<in> set (ruleFams x)" "list_all (holds k p) (ruleAddrs fam x)"
        using ruleFams_exists [OF _ _ a wf] by blast
      note f = ruleFams_addrs [OF fam a wf]
      show ?l using fam f ruleProto_hold [OF ok wf, of fam k] r by blast
    qed
    then show ?thesis unfolding ruleBase_hold rule_applies_def by blast
  qed
  finally show ?thesis unfolding ev by simp
qed

section \<open>Validated entries\<close>

lemma fwEntries_Nil:
  assumes "fwEntries sec name desc chk i seen xs = []"
  shows "\<forall>x \<in> set xs. (\<exists>p. chk p x = []) \<and> reLabel (name x)" "distinct (map name xs)" "set (map name xs) \<inter> set seen = {}"
  using assms
  by (induction sec name desc chk i seen xs rule: fwEntries.induct) (auto simp: Let_def fwCheckName_def split: if_splits)

lemma fwValidate_rules:
  assumes "fwValidate c = []"
  shows "\<forall>x \<in> set (Rules (Fw c)). rule_ok x" "distinct (map rlName (Rules (Fw c)))"
proof -
  have e: "fwEntries ''firewall.rules'' rlName rlDesc (fwCheckRule c) 0 [] (Rules (Fw c)) = []"
    using assms by (simp add: fwValidate_def Let_def)
  show "\<forall>x \<in> set (Rules (Fw c)). rule_ok x" using fwEntries_Nil(1) [OF e] fwCheckRule_ok by blast
  show "distinct (map rlName (Rules (Fw c)))" by (rule fwEntries_Nil(2) [OF e])
qed

text \<open>The kernel as \<open>fwLoad\<close> leaves it: the presence chains hold the rules that are active, and no two rules share a chain.\<close>

definition loaded :: "'c FwConfig_scheme \<Rightarrow> fwClock \<Rightarrow> string list \<Rightarrow> kernel \<Rightarrow> bool" where
  "loaded c clk act k \<longleftrightarrow> at_time k clk \<and> kChains k = presenceChains c clk act \<and> inj_on presenceChain (rlName ` set (presenceRules c))"

definition in_force :: "kernel \<Rightarrow> 'c FwConfig_scheme \<Rightarrow> fwClock \<Rightarrow> string list \<Rightarrow> pkt \<Rightarrow> FwRule \<Rightarrow> bool" where
  "in_force k c clk act p x \<longleftrightarrow>
     on (rlEnabled x) \<and> (rlWhen x = None \<or> rlName x \<in> set act) \<and> sched_now k clk (rlSchedule x) \<and> rule_applies c x p"

lemma when_none:
  "rule_ok (x\<lparr>rlWhen := None\<rparr>) = rule_ok x" "rule_applies c (x\<lparr>rlWhen := None\<rparr>) p = rule_applies c x p"
  "actionVerdict (x\<lparr>rlWhen := None\<rparr>) = actionVerdict x"
  by (simp_all add: rule_ok_def rule_applies_def actionVerdict_def)

lemma rule_eval:
  assumes v: "fwValidate c = []" and k: "loaded c clk act k" and wf: "wf_pkt p" and x: "x \<in> set (Rules (Fw c))" "on (rlEnabled x)"
  shows "evalRules (presence k p) k p (fwRuleLines c x clk) = (if in_force k c clk act p x then Some (actionVerdict x) else None)"
proof -
  have ok: "rule_ok x" using fwValidate_rules(1) [OF v] x by blast
  have t: "at_time k clk" using k by (simp add: loaded_def)
  show ?thesis
  proof (cases "rlWhen x")
    case None
    then show ?thesis using rule_lines_exact [OF ok wf t None, of "presence k p" c] x(2) by (simp add: in_force_def conj_commute)
  next
    case (Some w)
    have r: "x \<in> set (presenceRules c)" using x Some by (simp add: presenceRules_def)
    have d: "distinct (map rlName (presenceRules c))"
      using fwValidate_rules(2) [OF v] by (simp add: presenceRules_def distinct_map_filter)
    have "kChains k (presenceChain (rlName x)) = (if rlName x \<in> set act then fwRuleLines c (x\<lparr>rlWhen := None\<rparr>) clk else [])"
      using chain_of [OF _ d r, of clk act] k by (simp add: loaded_def)
    then show ?thesis
      using Some x(2) rule_lines_exact [of "x\<lparr>rlWhen := None\<rparr>" p k clk "\<lambda>_. None" c] ok wf t
      by (simp add: fwRuleLines_def [of c x] presence_def when_none in_force_def)
  qed
qed

text \<open>The first rule in force decides.\<close>

definition firstRule :: "kernel \<Rightarrow> 'c FwConfig_scheme \<Rightarrow> fwClock \<Rightarrow> string list \<Rightarrow> pkt \<Rightarrow> FwRule list \<Rightarrow> verdict option" where
  "firstRule k c clk act p xs = map_option actionVerdict (find (in_force k c clk act p) xs)"

lemma rules_eval:
  assumes v: "fwValidate c = []" and k: "loaded c clk act k" and wf: "wf_pkt p" and xs: "set xs \<subseteq> set (Rules (Fw c))"
  shows "evalRules (presence k p) k p (concat (map (\<lambda>x. fwRuleLines c x clk) (filter (\<lambda>x. on (rlEnabled x) \<and> P x) xs)))
    = firstRule k c clk act p (filter P xs)"
  using xs
proof (induction xs)
  case (Cons x xs)
  have n: "\<not> on (rlEnabled x) \<Longrightarrow> \<not> in_force k c clk act p x" by (simp add: in_force_def)
  show ?case using Cons n rule_eval [OF v k wf, of x] by (auto simp: firstRule_def)
qed (simp add: firstRule_def)

end
