(* ===== verification/Fw_Input.thy ===== *)
theory Fw_Input
  imports Fw_Policy
begin

text \<open>
  The input chain for packets from a WAN: it refines the policy \<open>wanInput\<close> (\<open>wan_input_policy\<close>), as long as no two
  presence rules share a chain.
\<close>

section \<open>Open ports\<close>

text \<open>Whether a packet is one of those an \<open>open\<close> entry names: its WANs, protocols, ports and sources.\<close>

definition via_wan :: "'c Config_scheme \<Rightarrow> string list \<Rightarrow> pkt \<Rightarrow> bool" where
  "via_wan c ws p \<longleftrightarrow> (\<exists>w \<in> set (WANs c). Ifname w = pIif p \<and> (ws = [] \<or> wanName w \<in> set ws))"

definition opens :: "'c FwConfig_scheme \<Rightarrow> OpenPort \<Rightarrow> pkt \<Rightarrow> bool" where
  "opens c x p \<longleftrightarrow>
     on (opEnabled x) \<and> via_wan c (opWAN x) p \<and> pL4 p \<in> set (opProto x) \<and> in_ports (opPort x) (pDport p) \<and> in_any (opSrcIP x) (pSrc p)"

lemma fwWANSet_mem: "pIif p \<in> set (fwWANSet c ws) \<longleftrightarrow> via_wan c ws p"
  by (force simp: fwWANSet_def via_wan_def WANIfnames_def)

lemma fwSrcMatches_match: "src \<in> set (fwSrcMatches xs) \<Longrightarrow> list_all is_match src"
  by (auto simp: fwSrcMatches_def is_match_def split: if_splits prod.splits)

lemma fwSrcMatches_hold:
  assumes ok: "fwAddrs xs \<noteq> None" and wf: "wf_pkt p"
  shows "(\<exists>src \<in> set (fwSrcMatches xs). list_all (holds k p) src) \<longleftrightarrow> in_any xs (pSrc p)"
proof (cases "xs = []")
  case False
  let ?s = "ofFam (pFam p) (addrPair xs)"
  have l: "length (pSrc p) = (if pFam p = Fam4 then 4 else 16)" using wf by (simp add: wf_pkt_def)
  have "(\<exists>src \<in> set (fwSrcMatches xs). list_all (holds k p) src) \<longleftrightarrow> (\<exists>s \<in> set ?s. addr_in s (pSrc p))"
    using False
    by (cases "pFam p"; cases "addrPair xs"; cases "fst (addrPair xs) = []"; cases "snd (addrPair xs) = []")
       (auto simp: fwSrcMatches_def addrOf_def ofFam_def)
  then show ?thesis using addrPair_in [OF ok l] False by (simp add: in_any_def)
qed (simp add: fwSrcMatches_def in_any_def)

lemma fwValidate_open:
  assumes "fwValidate c = []" "x \<in> set (OpenPorts (Fw c))"
  shows "fwPortList (opPort x) \<noteq> None" "validProtos (opProto x)" "fwAddrs (opSrcIP x) \<noteq> None" "fwCheckWANs c p [] (opWAN x) = []"
proof -
  have e: "fwEntries ''firewall.open'' opName opDesc (checkOpen c) 0 [] (OpenPorts (Fw c)) = []"
    using assms(1) by (simp add: fwValidate_def Let_def)
  obtain q where q: "checkOpen c q x = []" using fwEntries_Nil(1) [OF e] assms(2) by blast
  then show "fwPortList (opPort x) \<noteq> None" "validProtos (opProto x)" "fwAddrs (opSrcIP x) \<noteq> None"
    by (auto simp: checkOpen_def split: if_splits)
  have "fwCheckWANs c p seen ws = [] \<longleftrightarrow> fwCheckWANs c q seen ws = []" for seen ws
    by (induction ws arbitrary: seen) auto
  then show "fwCheckWANs c p [] (opWAN x) = []" using q by (simp add: checkOpen_def split: if_splits)
qed

lemma openRules_eval:
  assumes v: "fwValidate c = []" and wf: "wf_pkt p"
  shows "evalRules jmp k p (openRules c) = (if \<exists>x \<in> set (OpenPorts (Fw c)). opens c x p then Some VAccept else None)"
proof -
  let ?P = "\<lambda>x src l4. via_wan c (opWAN x) p \<and> list_all (holds k p) src \<and> pL4 p = l4 \<and> anyPort (portsOf (opPort x)) (pDport p)"
  have "evalRules jmp k p (openRules c) =
    (if \<exists>x \<in> set (filter (\<lambda>x. on (opEnabled x)) (OpenPorts (Fw c))). \<exists>src \<in> set (fwSrcMatches (opSrcIP x)). \<exists>l4 \<in> set (opProto x). ?P x src l4
     then Some VAccept else None)"
    unfolding openRules_def openLines_def
    by (intro evalRules_concat evalRules_map) (simp add: openRule_def evalRule_matches fwSrcMatches_match fwWANSet_mem)
  moreover have "(\<exists>src \<in> set (fwSrcMatches (opSrcIP x)). \<exists>l4 \<in> set (opProto x). ?P x src l4) \<and> on (opEnabled x) \<longleftrightarrow> opens c x p"
    if "x \<in> set (OpenPorts (Fw c))" for x
    using fwSrcMatches_hold [OF fwValidate_open(3) [OF v that] wf, of k] portsOf_in [OF fwValidate_open(1) [OF v that], of "pDport p"]
    unfolding opens_def by blast
  ultimately show ?thesis by auto
qed

section \<open>Input from a WAN\<close>

definition from_wan :: "'c FwConfig_scheme \<Rightarrow> pkt \<Rightarrow> bool" where
  "from_wan c p \<longleftrightarrow> pIif p \<in> set (WANIfnames c) \<and> pIif p \<notin> set (LANBridges c) \<and> pIif p \<noteq> ''lo'' \<and> pIif p \<noteq> ''tailscale0''"

text \<open>The traffic the protocols need, and what the config allows of ping.\<close>

definition protocol_ok :: "kernel \<Rightarrow> 'c FwConfig_scheme \<Rightarrow> pkt \<Rightarrow> bool" where
  "protocol_ok k c p \<longleftrightarrow>
     (on (WANPing (Fw c)) \<and> pFam p = Fam4 \<and> pL4 p = ''icmp'' \<and> pIcmp p = ''echo-request'' \<and> kLimit k ''limit rate 20/second'')
     \<or> (pFam p = Fam6 \<and> pL4 p = ''ipv6-icmp'' \<and>
          (pIcmp p \<in> set (icmp6Errors @ nd6) \<or> pIcmp p = ''echo-request'' \<and> kLimit k ''limit rate 20/second''
           \<or> pIcmp p \<in> set mld6 \<and> addr_in ''fe80::/10'' (pSrc p)))
     \<or> (pFam p = Fam6 \<and> pL4 p = ''udp'' \<and> pSport p = 547 \<and> pDport p = 546 \<and> pIif p \<in> set (dhcp6WAN c) \<and> addr_in ''fe80::/10'' (pDst p))
     \<or> (pFam p = Fam4 \<and> pL4 p = ''udp'' \<and> pSport p = 67 \<and> pDport p = 68 \<and> pIif p \<in> set (dhcpWAN c))
     \<or> pL4 p = ''igmp''"

definition syn_flood :: "kernel \<Rightarrow> 'c FwConfig_scheme \<Rightarrow> pkt \<Rightarrow> bool" where
  "syn_flood k c p \<longleftrightarrow> SynFlood (Fw c) \<and> pL4 p = ''tcp'' \<and> pSyn p \<and> kLimit k ''limit rate over 50/second burst 100 packets''"

lemma port_in_digits: "port_in ''547'' n \<longleftrightarrow> n = 547" "port_in ''546'' n \<longleftrightarrow> n = 546" "port_in ''67'' n \<longleftrightarrow> n = 67" "port_in ''68'' n \<longleftrightarrow> n = 68"
  "port_in ''53'' n \<longleftrightarrow> n = 53"
proof -
  have "portRange ''547'' = (547, 547)" "portRange ''546'' = (546, 546)" "portRange ''67'' = (67, 67)" "portRange ''68'' = (68, 68)" "portRange ''53'' = (53, 53)"
    by code_simp+
  then show "port_in ''547'' n \<longleftrightarrow> n = 547" "port_in ''546'' n \<longleftrightarrow> n = 546" "port_in ''67'' n \<longleftrightarrow> n = 67" "port_in ''68'' n \<longleftrightarrow> n = 68"
    "port_in ''53'' n \<longleftrightarrow> n = 53"
    by (auto simp: port_in_def)
qed

lemma accept_rules:
  "\<lbrakk>list_all is_match ms; evalRules jmp k p rs = (if Q then Some VAccept else None)\<rbrakk> \<Longrightarrow>
   evalRules jmp k p ((ms @ Accept # r) # rs) = (if list_all (holds k p) ms \<or> Q then Some VAccept else None)"
  by (simp add: evalRule_matches)

lemma firstOf2_if [simp]:
  "firstOf2 (if a then Some v else None) (if b then Some v else None) = (if a \<or> b then Some v else None)"
  by simp

text \<open>One accepting rule that is left out when a condition fails.\<close>

lemma opt_accept:
  "list_all is_match ms \<Longrightarrow>
   evalRules jmp k p (if b then [ms @ Accept # r] else []) = (if b \<and> list_all (holds k p) ms then Some VAccept else None)"
  by (simp add: evalRule_matches)

lemma protocolInput_eval:
  "evalRules jmp k p (protocolInput c) =
     (if syn_flood k c p then Some VDrop else if protocol_ok k c p then Some VAccept else None)"
proof -
  let ?a = "\<lambda>ms. list_all (holds k p) ms"
  let ?ping = "[IcmpEcho, Limit ''limit rate 20/second'']" and ?err = "[Nfproto Fam6, Icmp6 (icmp6Errors @ nd6)]"
  let ?echo = "[Nfproto Fam6, Icmp6 [''echo-request''], Limit ''limit rate 20/second'']" and ?mld = "[Saddr Fam6 [''fe80::/10''], Icmp6 mld6]"
  let ?d6 = "[Iif (dhcp6WAN c), Daddr Fam6 [''fe80::/10''], Sport ''udp'' ''547'', Dport ''udp'' [''546'']]"
  let ?d4 = "[Iif (dhcpWAN c), Nfproto Fam4, Sport ''udp'' ''67'', Dport ''udp'' [''68'']]"
  have syn: "evalRules jmp k p (if SynFlood (Fw c) then [[SynOnly, Limit ''limit rate over 50/second burst 100 packets'', Drop]] else [])
      = (if syn_flood k c p then Some VDrop else None)"
    by (simp add: syn_flood_def)
  define others where "others = ((if on (WANPing (Fw c)) then [?ping @ Accept # []] else [])
       @ [?err @ Accept # [], ?echo @ Accept # [], ?mld @ Accept # []]
       @ (if dhcp6WAN c \<noteq> [] then [?d6 @ Accept # [Note ''dhcpv6-client'']] else [])
       @ (if dhcpWAN c \<noteq> [] then [?d4 @ Accept # [Note ''dhcp-client'']] else [])
       @ [[L4proto [''igmp'']] @ Accept # []])"
  have acc: "evalRules jmp k p others
    = (if on (WANPing (Fw c)) \<and> ?a ?ping \<or> (?a ?err \<or> ?a ?echo \<or> ?a ?mld) \<or> dhcp6WAN c \<noteq> [] \<and> ?a ?d6 \<or> dhcpWAN c \<noteq> [] \<and> ?a ?d4
          \<or> pL4 p = ''igmp'' then Some VAccept else None)"
  proof -
    have l: "list_all is_match ?ping" "list_all is_match ?err" "list_all is_match ?echo" "list_all is_match ?mld" "list_all is_match ?d6"
      "list_all is_match ?d4" "list_all is_match [L4proto [''igmp'']]" by (simp_all add: is_match_def)
    have three: "evalRules jmp k p [?err @ Accept # [], ?echo @ Accept # [], ?mld @ Accept # []]
        = (if ?a ?err \<or> ?a ?echo \<or> ?a ?mld then Some VAccept else None)"
      using accept_rules [OF l(2) accept_rules [OF l(3) accept_rules [OF l(4), where Q = False]]] by simp
    have igmp: "evalRules jmp k p [[L4proto [''igmp'']] @ Accept # []] = (if pL4 p = ''igmp'' then Some VAccept else None)" by simp
    show ?thesis
      unfolding others_def evalRules_append opt_accept [OF l(1)] opt_accept [OF l(5)] opt_accept [OF l(6)] three igmp firstOf2_if ..
  qed
  have "(on (WANPing (Fw c)) \<and> ?a ?ping \<or> (?a ?err \<or> ?a ?echo \<or> ?a ?mld) \<or> dhcp6WAN c \<noteq> [] \<and> ?a ?d6 \<or> dhcpWAN c \<noteq> [] \<and> ?a ?d4
          \<or> pL4 p = ''igmp'') \<longleftrightarrow> protocol_ok k c p"
  proof -
    have e1: "?a ?ping \<longleftrightarrow> pFam p = Fam4 \<and> pL4 p = ''icmp'' \<and> pIcmp p = ''echo-request'' \<and> kLimit k ''limit rate 20/second''" by simp
    have e2: "?a ?err \<longleftrightarrow> pFam p = Fam6 \<and> pL4 p = ''ipv6-icmp'' \<and> pIcmp p \<in> set (icmp6Errors @ nd6)" by simp
    have e3: "?a ?echo \<longleftrightarrow> pFam p = Fam6 \<and> pL4 p = ''ipv6-icmp'' \<and> pIcmp p = ''echo-request'' \<and> kLimit k ''limit rate 20/second''" by simp
    have e4: "?a ?mld \<longleftrightarrow> pFam p = Fam6 \<and> pL4 p = ''ipv6-icmp'' \<and> pIcmp p \<in> set mld6 \<and> addr_in ''fe80::/10'' (pSrc p)"
      by (auto simp: addrOf_def)
    have e5: "dhcp6WAN c \<noteq> [] \<and> ?a ?d6 \<longleftrightarrow>
        pFam p = Fam6 \<and> pL4 p = ''udp'' \<and> pSport p = 547 \<and> pDport p = 546 \<and> pIif p \<in> set (dhcp6WAN c) \<and> addr_in ''fe80::/10'' (pDst p)"
      by (auto simp: addrOf_def anyPort_def port_in_digits)
    have e6: "dhcpWAN c \<noteq> [] \<and> ?a ?d4 \<longleftrightarrow> pFam p = Fam4 \<and> pL4 p = ''udp'' \<and> pSport p = 67 \<and> pDport p = 68 \<and> pIif p \<in> set (dhcpWAN c)"
      by (auto simp: anyPort_def port_in_digits)
    show ?thesis unfolding protocol_ok_def e1 e2 e3 e4 e5 e6 by argo
  qed
  note ok = this
  have "protocolInput c = (if SynFlood (Fw c) then [[SynOnly, Limit ''limit rate over 50/second burst 100 packets'', Drop]] else []) @ others"
    unfolding protocolInput_def others_def append_Cons append_Nil ..
  then show ?thesis using syn acc unfolding ok by (simp only: evalRules_append) simp
qed

text \<open>The policy for new packets from a WAN to the router, in the order the administrator reads it.\<close>

definition wanInput :: "others \<Rightarrow> kernel \<Rightarrow> 'c FwConfig_scheme \<Rightarrow> fwClock \<Rightarrow> string list \<Rightarrow> pkt \<Rightarrow> verdict" where
  "wanInput os k c clk act p =
     (case firstRule k c clk act p (filter (\<lambda>x. rlDest x = ''router'') (Rules (Fw c))) of
        Some v \<Rightarrow> v
      | None \<Rightarrow>
          if syn_flood k c p then VDrop
          else if protocol_ok k c p then VAccept
          else (case before os ''input'' p of
                  Some v \<Rightarrow> v
                | None \<Rightarrow>
                    if \<exists>x \<in> set (OpenPorts (Fw c)). opens c x p then VAccept
                    else (case after os ''input'' p of Some v \<Rightarrow> v | None \<Rightarrow> VDrop)))"

lemma accessInput_wan: "from_wan c p \<Longrightarrow> evalRules jmp k p (fwAccessInput c clk) = None"
  by (auto simp: evalRules_None fwAccessInput_def accessInputLine_def Let_def from_wan_def)

lemma zone_bridges:
  "i \<in> set (fwZoneIfs c ''lan'') \<Longrightarrow> i \<in> set (LANBridges c) \<or> i = ''tailscale0''" "i \<in> set (fwZoneIfs c ''guest'') \<Longrightarrow> i \<in> set (LANBridges c)"
  by (auto simp: fwZoneIfs_def LANBridges_def)

lemma guestInput_wan: "from_wan c p \<Longrightarrow> evalRules jmp k p (concat (map guestInput (fwZoneIfs c ''guest''))) = None"
proof -
  assume w: "from_wan c p"
  have "evalRule jmp k p r = None" if "br \<in> set (fwZoneIfs c ''guest'')" "r \<in> set (guestInput br)" for br r
  proof -
    have "pIif p \<noteq> br" using w zone_bridges(2) [OF that(1)] by (auto simp: from_wan_def)
    then show ?thesis using that(2) by (auto simp: guestInput_def)
  qed
  then show ?thesis by (auto simp: evalRules_None)
qed

lemma wanDrop_eval: "from_wan c p \<Longrightarrow> evalRules jmp k p (wanDrop c) = Some VDrop"
  by (auto simp: wanDrop_def from_wan_def WANIfnames_def)

lemma fwHookRules_simps:
  "fwHookRules c clk ''input'' = openRules c" "fwHookRules c clk ''forward_first'' = []" "fwHookRules c clk ''forward'' = pinholeRules c"
  by (simp_all add: fwHookRules_def)

lemma ctState_new: "pCt p = New \<Longrightarrow> evalRule jmp k p (ctState c) = None"
  by (simp add: ctState_def)

lemma input_refines:
  assumes v: "fwValidate c = []" and k: "loaded c clk act k" and wf: "wf_pkt p" and w: "from_wan c p" and new: "pCt p = New"
  shows "inputVerdict os k c clk p = wanInput os k c clk act p"
proof -
  let ?jmp = "presence k p"
  have router: "evalRules ?jmp k p (routerRules c clk) = firstRule k c clk act p (filter (\<lambda>x. rlDest x = ''router'') (Rules (Fw c)))"
    using rules_eval [OF v k wf subset_refl] by (simp add: routerRules_def)
  have lan: "evalRule ?jmp k p [Iif (fwZoneIfs c ''lan''), Accept] = None"
    using w zone_bridges(1) [of "pIif p" c] by (auto simp: from_wan_def)
  have lo: "evalRule ?jmp k p [IifLo, Accept] = None" using w by (simp add: from_wan_def)
  have "evalLines os k c clk p (inputChain c clk) =
     firstOf2 (firstRule k c clk act p (filter (\<lambda>x. rlDest x = ''router'') (Rules (Fw c))))
      (firstOf2 (if syn_flood k c p then Some VDrop else if protocol_ok k c p then Some VAccept else None)
       (firstOf2 (before os ''input'' p)
        (firstOf2 (if \<exists>x \<in> set (OpenPorts (Fw c)). opens c x p then Some VAccept else None)
         (firstOf2 (after os ''input'' p) (Some VDrop)))))"
    unfolding inputChain_def evalLines_append evalLines_rules evalRules_append
    by (simp only: accessInput_wan [OF w] router protocolInput_eval guestInput_wan [OF w] wanDrop_eval [OF w] ctState_new [OF new] lan lo
        evalRules.simps evalLines.simps evalLine_hook fwHookRules_simps openRules_eval [OF v wf] if_True firstOf2_simps firstOf2_assoc option.case)
  then show ?thesis
    unfolding inputVerdict_def wanInput_def orDrop_def firstOf2_def
    by (cases "\<exists>x \<in> set (OpenPorts (Fw c)). opens c x p") (simp_all split: option.split)
qed

text \<open>
  C5. What the input chain does with a new packet from a WAN, refined to a policy: the rules towards the router first, then
  the SYN-flood limit, the ICMP, DHCP and IGMP the protocols need, other modules' rules, and the ports \<open>firewall.open\<close> opens
  on that WAN for that protocol, port and source; everything else is dropped. The hundred-odd rendered rules and this
  list of cases give the same verdict for every packet, kernel state and validated config.
\<close>

theorem wan_input_policy:
  assumes "fwValidate c = []" and "loaded c clk act k" and "wf_pkt p" and "from_wan c p" and "pCt p = New"
  shows "inputVerdict os k c clk p = wanInput os k c clk act p"
  using assms by (rule input_refines)

section \<open>A config\<close>

definition lab_fw :: Firewall where
  "lab_fw = \<lparr>Offload = ''software'', SynFlood = True, WANPing = None, DropInvalid = None, LogDrops = False,
     Forwards = [], OpenPorts = [\<lparr>opName = ''web'', opEnabled = None, opProto = [''tcp''], opPort = ''443,8000-8100'', opWAN = [],
        opSrcIP = [''198.51.100.0/24''], opDesc = []\<rparr>], IPv6Allow = [], Rules = [], Access = []\<rparr>"

definition lab_of :: "'c \<Rightarrow> Firewall \<Rightarrow> 'c FwConfig_scheme" where
  "lab_of m fw = \<lparr>Watchdog = None, History = 20, Bridge = ''br-lan'', LanIPv4 = ''192.168.1.1/24'', LanIPv6RA = True,
     Networks = [\<lparr>netName = ''guest'', netIPv4 = ''192.168.20.1/24'', netZone = ''guest'', netIPv6RA = True\<rparr>],
     WANs = [\<lparr>wanName = ''wan'', wanDev = ''eth1'', wanVLAN = 0, wanProto = ''dhcp'', wanIPv6 = True, wanModem = []\<rparr>], nftRules = [],
     Mode = [], Gateway = [], BypassSec = \<lparr>Clients = [], bpMACs = [], bpNAT = None\<rparr>, Fw = fw, Devices = [], Groups = [], Hosts = [], \<dots> = m\<rparr>"

definition lab_cfg :: FwConfig where
  "lab_cfg = lab_of () lab_fw"

definition lab_clk :: fwClock where "lab_clk = \<lparr>LocalOff = 3600, KernelMW = 0\<rparr>"

definition lab_kernel :: "(string \<Rightarrow> rule list) \<Rightarrow> kernel" where
  "lab_kernel chs = \<lparr>kSets = (\<lambda>s b. False), kLimit = (\<lambda>l. False), kTime = 100000, kMW = 0, kChains = chs\<rparr>"

definition lab_pkt :: "bytes \<Rightarrow> int \<Rightarrow> pkt" where
  "lab_pkt src port = \<lparr>pIif = ''eth1'', pOif = [], pMac = ''02:00:00:00:00:01'', pFam = Fam4, pSrc = src, pDst = [203, 0, 113, 5], pL4 = ''tcp'',
     pSport = 40000, pDport = port, pIcmp = [], pSyn = True, pCt = New, pDnat = False, pSnat = False, pFib = ''local''\<rparr>"

definition lab_others :: others where "lab_others = \<lparr>before = (\<lambda>h p. None), after = (\<lambda>h p. None)\<rparr>"

lemma lab_valid: "fwValidate lab_cfg = []"
  by code_simp

lemma lab_from_wan: "from_wan lab_cfg (lab_pkt s n)"
  unfolding from_wan_def lab_pkt_def pkt.simps by code_simp

lemma lab_loaded:
  "presenceRules c = [] \<Longrightarrow> loaded c lab_clk [] (lab_kernel (\<lambda>ch. []))"
  by (simp add: loaded_def at_time_def lab_kernel_def lab_clk_def fwWeek_def presenceChains_def scriptRules_def fun_eq_iff)

theorem wan_input_policy_witness:
  "inputVerdict lab_others (lab_kernel (\<lambda>ch. [])) lab_cfg lab_clk (lab_pkt [198, 51, 100, 7] 8080) = VAccept
   \<and> inputVerdict lab_others (lab_kernel (\<lambda>ch. [])) lab_cfg lab_clk (lab_pkt [198, 51, 101, 7] 8080) = VDrop"
proof -
  have l: "loaded lab_cfg lab_clk [] (lab_kernel (\<lambda>ch. []))"
    by (rule lab_loaded) code_simp
  have w: "wf_pkt (lab_pkt [198, 51, 100, 7] 8080)" "wf_pkt (lab_pkt [198, 51, 101, 7] 8080)" by (simp_all add: wf_pkt_def lab_pkt_def)
  have n: "pCt (lab_pkt s i) = New" for s i by (simp add: lab_pkt_def)
  have a: "wanInput lab_others (lab_kernel (\<lambda>ch. [])) lab_cfg lab_clk [] (lab_pkt [198, 51, 100, 7] 8080) = VAccept"
    "wanInput lab_others (lab_kernel (\<lambda>ch. [])) lab_cfg lab_clk [] (lab_pkt [198, 51, 101, 7] 8080) = VDrop"
    by code_simp+
  show ?thesis
    using wan_input_policy [OF lab_valid l w(1) lab_from_wan n] wan_input_policy [OF lab_valid l w(2) lab_from_wan n] a by metis
qed

section \<open>The order of the traffic rules\<close>

text \<open>
  The traffic rules of a validated config decide as the ordered list the config writes: at any packet, time and set of
  present devices, the lines rendered for the rules between zones give the verdict of the first enabled rule whose zones,
  MACs, addresses, protocols, ports, weekly windows and presence condition all fit, and no verdict when none does; the
  rules towards the router likewise, and those never accept.
\<close>

theorem traffic_rules_first_match:
  assumes "fwValidate c = []" and "loaded c clk act k" and "wf_pkt p"
  shows "evalRules (presence k p) k p (fwHookRules c clk ''forward_early'') =
      firstOf2 (firstRule k c clk act p (filter (\<lambda>x. rlDest x \<noteq> ''router'') (Rules (Fw c)))) (evalRules (presence k p) k p (modemRules c))
    \<and> evalRules (presence k p) k p (routerRules c clk) = firstRule k c clk act p (filter (\<lambda>x. rlDest x = ''router'') (Rules (Fw c)))
    \<and> evalRules (presence k p) k p (routerRules c clk) \<noteq> Some VAccept"
proof -
  have "firstRule k c clk act p (filter (\<lambda>x. rlDest x = ''router'') (Rules (Fw c))) \<noteq> Some VAccept"
    using fwValidate_rules(1) [OF assms(1)] by (auto simp: firstRule_def find_Some_iff rule_ok_def actionVerdict_def dest!: nth_mem)
  then show ?thesis
    using rules_eval [OF assms subset_refl] by (simp add: fwHookRules_def routerRules_def)
qed

definition lab_rule :: FwRule where
  "lab_rule = \<lparr>rlName = ''kids'', rlEnabled = None, rlAction = ''reject'', rlSrc = ''lan'', rlDest = ''wan'', rlSrcIP = [], rlSrcMAC = [''02:00:00:00:00:0C''],
     rlDestIP = [''203.0.113.0/24''], rlProto = [''tcp''], rlDestPort = ''80,443'', rlSchedule = [\<lparr>Days = [], Time = ''00:00-08:00''\<rparr>],
     rlWhen = None, rlCounter = True, rlLog = True, rlDesc = []\<rparr>"

definition lab_cfg1 :: FwConfig where
  "lab_cfg1 = lab_of () (lab_fw\<lparr>OpenPorts := [], Rules := [lab_rule, lab_rule\<lparr>rlName := ''rest'', rlAction := ''accept'', rlSrcMAC := [], rlSchedule := []\<rparr>]\<rparr>)"

definition lab_out :: pkt where
  "lab_out = (lab_pkt [192, 168, 1, 30] 443)\<lparr>pIif := ''br-lan'', pOif := ''eth1'', pMac := ''02:00:00:00:00:0c''\<rparr>"

theorem traffic_rules_first_match_witness:
  "evalRules (presence (lab_kernel (\<lambda>ch. [])) lab_out) (lab_kernel (\<lambda>ch. [])) lab_out (fwHookRules lab_cfg1 lab_clk ''forward_early'') = Some VReject"
proof -
  have v: "fwValidate lab_cfg1 = []" by code_simp
  have l: "loaded lab_cfg1 lab_clk [] (lab_kernel (\<lambda>ch. []))" by (rule lab_loaded) code_simp
  have w: "wf_pkt lab_out" by (simp add: wf_pkt_def lab_out_def lab_pkt_def)
  have "firstRule (lab_kernel (\<lambda>ch. [])) lab_cfg1 lab_clk [] lab_out (filter (\<lambda>x. rlDest x \<noteq> ''router'') (Rules (Fw lab_cfg1))) = Some VReject"
    by code_simp
  then show ?thesis using traffic_rules_first_match [OF v l w] by simp
qed

end
