(* ===== verification/Fw_Forward.thy ===== *)
theory Fw_Forward
  imports Fw_Input
begin

text \<open>
  The forward chain: device access control (\<open>access_cut\<close>), what a new connection between two networks meets
  (\<open>forward_policy\<close>, with \<open>guest_confined\<close> for the guest zone), and where port forwards lead (\<open>forwards_unambiguous\<close>).
\<close>

section \<open>Device access control\<close>

text \<open>The packets an access entry drops in its windows: from its devices to a WAN, and from a WAN to an address it learned.\<close>

definition blocked_by :: "kernel \<Rightarrow> 'c FwConfig_scheme \<Rightarrow> fwClock \<Rightarrow> pkt \<Rightarrow> nat \<Rightarrow> bool" where
  "blocked_by k c clk p i \<longleftrightarrow>
     (let a = Access (Fw c) ! i in
      sched_now k clk (acSchedule a)
      \<and> (pIif p \<in> set (LANBridges c) \<and> pMac p \<in> set (fwAccessMACs c a) \<and> pOif p \<in> set (WANIfnames c)
         \<or> pIif p \<in> set (WANIfnames c)
           \<and> (pFam p = Fam4 \<and> kSets k (accessSet i ''_4'') (pDst p) \<or> pFam p = Fam6 \<and> kSets k (accessSet i ''_6'') (pDst p))))"

definition blocked :: "kernel \<Rightarrow> 'c FwConfig_scheme \<Rightarrow> fwClock \<Rightarrow> pkt \<Rightarrow> bool" where
  "blocked k c clk p \<longleftrightarrow> (\<exists>i \<in> set (fwAccessEntries c). blocked_by k c clk p i)"

lemma drop_rule:
  "\<lbrakk>list_all is_match ms; list_all is_match ns\<rbrakk> \<Longrightarrow>
   evalRule jmp k p (ms @ ns @ [Counter, Drop, n]) = (if list_all (holds k p) ms \<and> list_all (holds k p) ns then Some VDrop else None)"
  by (simp add: evalRule_matches)

lemma accessWindow_eval:
  "evalRules jmp k p (accessWindow c i tm) =
     (if list_all (holds k p) (timeStmts tm)
       \<and> (pIif p \<in> set (LANBridges c) \<and> pMac p \<in> set (fwAccessMACs c (Access (Fw c) ! i)) \<and> pOif p \<in> set (WANIfnames c)
         \<or> pIif p \<in> set (WANIfnames c)
           \<and> (pFam p = Fam4 \<and> kSets k (accessSet i ''_4'') (pDst p) \<or> pFam p = Fam6 \<and> kSets k (accessSet i ''_6'') (pDst p)))
      then Some VDrop else None)"
proof -
  let ?T = "list_all (holds k p) (timeStmts tm)" and ?macs = "fwAccessMACs c (Access (Fw c) ! i)"
  have r1: "evalRule jmp k p ([Iif (LANBridges c), Ether ?macs, Oif (WANIfnames c)] @ timeStmts tm @ [Counter, Drop, n]) =
      (if (pIif p \<in> set (LANBridges c) \<and> pMac p \<in> set ?macs \<and> pOif p \<in> set (WANIfnames c)) \<and> ?T then Some VDrop else None)" for n
    by (subst drop_rule) (simp_all add: is_match_def)
  have r2: "evalRule jmp k p ([Iif (WANIfnames c), DaddrIn f s] @ timeStmts tm @ [Counter, Drop, n]) =
      (if (pIif p \<in> set (WANIfnames c) \<and> pFam p = f \<and> kSets k s (pDst p)) \<and> ?T then Some VDrop else None)" for f s n
    by (subst drop_rule) (simp_all add: is_match_def)
  have three: "evalRules jmp k p [a, b, d] = (if A \<or> B \<or> D then Some VDrop else None)"
    if "evalRule jmp k p a = (if A then Some VDrop else None)" "evalRule jmp k p b = (if B then Some VDrop else None)"
      "evalRule jmp k p d = (if D then Some VDrop else None)" for a b d A B D
    using that by simp
  show ?thesis
    unfolding accessWindow_def Let_def three [OF r1 r2 r2] by (rule arg_cong [where f = "\<lambda>b. if b then Some VDrop else None"]) blast
qed

lemma accessForward_eval:
  assumes "at_time k clk"
  shows "evalRules jmp k p (fwAccessForward c clk) = (if blocked k c clk p then Some VDrop else None)"
proof -
  have one: "evalRules jmp k p (accessLines c clk i) = (if blocked_by k c clk p i then Some VDrop else None)" for i
  proof -
    have "evalRules jmp k p (concat (map (accessWindow c i) (fw_time_exprs (acSchedule (Access (Fw c) ! i)) clk)))
      = (if blocked_by k c clk p i then Some VDrop else None)"
      unfolding evalRules_concat [OF accessWindow_eval] blocked_by_def Let_def sched_now_exprs [OF assms, of _ p] by auto
    then show ?thesis by (simp add: accessLines_def Let_def)
  qed
  show ?thesis unfolding fwAccessForward_def blocked_def by (rule evalRules_concat) (rule one)
qed


section \<open>IPv6 pinholes\<close>

lemma dropWhile_zero: "\<exists>k. xs = replicate k 0 @ dropWhile (\<lambda>v. v = 0) xs" for xs :: "nat list"
proof (induction xs)
  case (Cons x xs)
  then obtain k where k: "xs = replicate k 0 @ dropWhile (\<lambda>v. v = 0) xs" by blast
  show ?case
  proof (cases "x = 0")
    case True
    then show ?thesis using k by (intro exI [of _ "Suc k"]) simp
  qed (auto intro: exI [of _ 0])
qed simp

lemma iid_roundtrip:
  assumes "length b = 8"
  shows "ParseIP (fwIIDString b) = Some (replicate 8 0 @ b)"
proof -
  define gs where "gs = groups b"
  have gs: "concat (map gbytes gs) = b" "\<forall>g \<in> set gs. g < 65536" "length gs = 4"
    using groups_gbytes [of b 4] assms by (simp_all add: gs_def)
  obtain k where k: "take 3 gs = replicate k 0 @ dropWhile (\<lambda>v. v = 0) (take 3 gs)" using dropWhile_zero by blast
  define hs where "hs = dropWhile (\<lambda>v. v = 0) (take 3 gs) @ drop 3 gs"
  have g: "gs = replicate k 0 @ hs" unfolding hs_def using k by (metis append.assoc append_take_drop_id)
  have ne: "hs \<noteq> []" using gs(3) by (simp add: hs_def)
  have s: "fwIIDString b = CHR '':'' # CHR '':'' # hexes hs" by (simp add: fwIIDString_def hexes_def hs_def Let_def flip: gs_def)
  have lh: "k + length hs = 4" using g gs(3) by (metis length_append length_replicate)
  have hb: "\<forall>x \<in> set hs. x < 65536" using gs(2) g by simp
  have bb: "b = replicate (2 * k) 0 @ concat (map gbytes hs)"
  proof -
    have "concat (replicate k (gbytes 0)) = replicate (2 * k) 0" by (induction k) (simp_all add: gbytes_def)
    then show ?thesis using gs(1) unfolding g by simp
  qed
  have ex: "expand (concat (map gbytes hs)) (Some 0) = Some (replicate 8 0 @ b)"
  proof -
    have "replicate (16 - 2 * length hs) 0 = replicate 8 0 @ replicate (2 * k) (0 :: 8 word)"
      using lh by (simp flip: replicate_add)
    then show ?thesis using lh by (simp add: expand_def bb)
  qed
  have "v6Loop [] (Some 0) (hexes hs) = Some (concat (map gbytes hs), Some 0, [])" using v6Loop_hexes [OF ne hb, of "[]"] lh by simp
  then have p6: "parseIPv6 (fwIIDString b) = Some (replicate 8 0 @ b)"
    using ex hexes_hd [OF ne] by (simp add: parseIPv6_def s HasPrefix_def)
  have c: "hexDigit c \<noteq> None \<or> c = CHR '':''" if "c \<in> set (fwIIDString b)" for c using that hexes_chars by (auto simp: s)
  then have "CHR ''%'' \<notin> set (fwIIDString b)" by fastforce
  then show ?thesis using p6 by (simp add: ParseIP_def ParseAddr_def) (simp add: s)
qed

text \<open>The identifier an entry names: from the MAC by EUI-64, or the low half of the address it writes.\<close>

definition iidBytes :: "FwV6Allow \<Rightarrow> bytes" where
  "iidBytes a =
     (if alMAC a \<noteq> [] then
        (case ParseMAC (alMAC a) of Some [h0, h1, h2, h3, h4, h5] \<Rightarrow> [h0 XOR 0x02, h1, h2, 0xff, 0xfe, h3, h4, h5] | _ \<Rightarrow> [])
      else (case ParseIP (alIID a) of Some ip \<Rightarrow> drop 8 ip | None \<Rightarrow> []))"

lemma iid_matches:
  assumes c: "checkAllow6 cfg q a = []" and d: "length dst = 16"
  shows "iidMatches (iid a) dst \<longleftrightarrow> drop 8 dst = iidBytes a"
proof -
  have "\<exists>b. length b = 8 \<and> iid a = fwIIDString b \<and> iidBytes a = b"
  proof (cases "alMAC a = []")
    case False
    then have "reMAC (alMAC a)" using c by (auto simp: checkAllow6_def split: if_splits)
    from reMAC_parse [OF this] show ?thesis using False by (auto simp: iid_def fwEUI64_def iidBytes_def)
  next
    case True
    then have "fwParseIID (alIID a) \<noteq> []" using c by (auto simp: checkAllow6_def split: if_splits)
    then obtain ip where "ParseIP (alIID a) = Some ip" "fwParseIID (alIID a) = fwIIDString (drop 8 ip)"
      by (auto simp: fwParseIID_def split: if_splits option.splits)
    then show ?thesis using True ParseIP_Fam ParseAddr_length by (fastforce simp: iid_def iidBytes_def)
  qed
  then obtain b where b: "length b = 8" "iid a = fwIIDString b" "iidBytes a = b" by blast
  show ?thesis unfolding b(3) iidMatches_def b(2) iid_roundtrip [OF b(1)] by simp
qed

text \<open>What a pinhole lets in.\<close>

definition pinhole :: "'c FwConfig_scheme \<Rightarrow> FwV6Allow \<Rightarrow> pkt \<Rightarrow> bool" where
  "pinhole c a p \<longleftrightarrow>
     on (alEnabled a) \<and> via_wan c (alWAN a) p \<and> pOif p \<in> set (LANBridges c) \<and> pFam p = Fam6 \<and> drop 8 (pDst p) = iidBytes a
     \<and> in_any (alSrcIP a) (pSrc p) \<and> pL4 p \<in> set (alProto a) \<and> in_ports (alPort a) (pDport p)"

lemma fwValidate_allow:
  assumes "fwValidate c = []" "a \<in> set (IPv6Allow (Fw c))"
  obtains q where "checkAllow6 c q a = []" "fwPortList (alPort a) \<noteq> None" "fwAddrs (alSrcIP a) \<noteq> None"
proof -
  have e: "fwEntries ''firewall.ipv6_allow'' alName alDesc (checkAllow6 c) 0 [] (IPv6Allow (Fw c)) = []"
    using assms(1) by (simp add: fwValidate_def Let_def)
  obtain q where q: "checkAllow6 c q a = []" using fwEntries_Nil(1) [OF e] assms(2) by blast
  then have "fwPortList (alPort a) \<noteq> None" "fwAddrs (alSrcIP a) \<noteq> None" by (auto simp: checkAllow6_def split: if_splits option.splits)
  then show ?thesis using that q by blast
qed

lemma pinholeRules_eval:
  assumes v: "fwValidate c = []" and wf: "wf_pkt p"
  shows "evalRules jmp k p (pinholeRules c) = (if \<exists>a \<in> set (IPv6Allow (Fw c)). pinhole c a p then Some VAccept else None)"
proof -
  let ?P = "\<lambda>a src l4. via_wan c (alWAN a) p \<and> pOif p \<in> set (LANBridges c) \<and> list_all (holds k p) src
     \<and> (pFam p = Fam6 \<and> iidMatches (iid a) (pDst p)) \<and> pL4 p = l4 \<and> anyPort (portsOf (alPort a)) (pDport p)"
  have ev: "evalRules jmp k p (pinholeRules c) =
    (if \<exists>a \<in> set (filter (\<lambda>a. on (alEnabled a)) (IPv6Allow (Fw c))). \<exists>src \<in> set (fwSrcMatches (alSrcIP a)). \<exists>l4 \<in> set (alProto a). ?P a src l4
     then Some VAccept else None)"
    unfolding pinholeRules_def pinholeLines_def
    by (intro evalRules_concat evalRules_map) (simp add: pinholeRule_def evalRule_matches fwSrcMatches_match fwWANSet_mem)
  have "(\<exists>src \<in> set (fwSrcMatches (alSrcIP a)). \<exists>l4 \<in> set (alProto a). ?P a src l4) \<and> on (alEnabled a) \<longleftrightarrow> pinhole c a p"
    if a: "a \<in> set (IPv6Allow (Fw c))" for a
  proof -
    obtain q where q: "checkAllow6 c q a = []" "fwPortList (alPort a) \<noteq> None" "fwAddrs (alSrcIP a) \<noteq> None"
      by (rule fwValidate_allow [OF v a])
    have "pFam p = Fam6 \<Longrightarrow> length (pDst p) = 16" using wf by (simp add: wf_pkt_def)
    then show ?thesis
      using iid_matches [OF q(1), of "pDst p"] fwSrcMatches_hold [OF q(3) wf, of k] portsOf_in [OF q(2), of "pDport p"]
      unfolding pinhole_def by blast
  qed
  then show ?thesis unfolding ev by auto
qed

section \<open>New connections between networks\<close>

text \<open>
  The policy for the first packet of a forwarded connection, in order: access control, traffic rules (and the way to a
  modem's management address), the trusted zone, guests to a WAN, forwarded ports, pinholes, the ICMPv6 every path needs.
  The other modules' rules stand where their hooks are.
\<close>

definition newForward :: "others \<Rightarrow> kernel \<Rightarrow> 'c FwConfig_scheme \<Rightarrow> fwClock \<Rightarrow> string list \<Rightarrow> pkt \<Rightarrow> verdict" where
  "newForward os k c clk act p =
     orDrop
      (firstOf2 (before os ''forward_first'' p) (firstOf2 (after os ''forward_first'' p)
      (firstOf2 (if blocked k c clk p then Some VDrop else None)
      (firstOf2 (before os ''forward_early'' p)
      (firstOf2 (firstRule k c clk act p (filter (\<lambda>x. rlDest x \<noteq> ''router'') (Rules (Fw c))))
      (firstOf2 (evalRules (presence k p) k p (modemRules c))
      (firstOf2 (after os ''forward_early'' p)
      (if pIif p \<in> set (fwZoneIfs c ''lan'') then Some VAccept
       else if pIif p \<in> set (fwZoneIfs c ''guest'') \<and> pOif p \<in> set (WANIfnames c) then Some VAccept
       else if pDnat p then Some VAccept
       else firstOf2 (before os ''forward'' p)
         (if \<exists>a \<in> set (IPv6Allow (Fw c)). pinhole c a p then Some VAccept
          else firstOf2 (after os ''forward'' p)
            (if pFam p = Fam6 \<and> pL4 p = ''ipv6-icmp'' \<and> pIcmp p \<in> set (icmp6Errors @ [''echo-request'']) then Some VAccept else None))))))))))"

lemma flowRules_new: "pCt p = New \<Longrightarrow> evalRules jmp k p (if ft then flowRules nat6 c clk else []) = None"
  by (auto simp: evalRules_None flowRules_def)

lemma via_wan_if: "via_wan c ws p \<Longrightarrow> pIif p \<in> set (WANIfnames c)"
  by (force simp: via_wan_def WANIfnames_def)

lemma modemRules_lan: "pIif p \<notin> set (fwZoneIfs c ''lan'') \<Longrightarrow> evalRules jmp k p (modemRules c) = None"
  by (auto simp: evalRules_None modemRules_def modemLines_def fwZoneIfs_def)

lemma firstOf2_cond: "firstOf2 (if b then Some v else d) e = (if b then Some v else firstOf2 d e)"
  by simp

lemma forward_refines:
  assumes v: "fwValidate c = []" and k: "loaded c clk act k" and wf: "wf_pkt p" and new: "pCt p = New"
  shows "forwardVerdict os k ft nat6 c clk p = newForward os k c clk act p"
proof -
  let ?jmp = "presence k p"
  have t: "at_time k clk" using k by (simp add: loaded_def)
  have rules: "evalRules ?jmp k p (fwHookRules c clk ''forward_early'') =
      firstOf2 (firstRule k c clk act p (filter (\<lambda>x. rlDest x \<noteq> ''router'') (Rules (Fw c)))) (evalRules ?jmp k p (modemRules c))"
    using rules_eval [OF v k wf subset_refl] by (simp add: fwHookRules_def)
  have zones: "evalRules ?jmp k p ([[Iif (fwZoneIfs c ''lan''), Accept]]
      @ map (\<lambda>br. [IifOne br, Oif (WANIfnames c), Accept]) (fwZoneIfs c ''guest'') @ [[CtDnat, Accept]]) =
      (if pIif p \<in> set (fwZoneIfs c ''lan'') then Some VAccept
       else if pIif p \<in> set (fwZoneIfs c ''guest'') \<and> pOif p \<in> set (WANIfnames c) then Some VAccept
       else if pDnat p then Some VAccept else None)"
  proof -
    have "evalRules ?jmp k p (map (\<lambda>br. [IifOne br, Oif (WANIfnames c), Accept]) (fwZoneIfs c ''guest'')) =
      (if \<exists>br \<in> set (fwZoneIfs c ''guest''). pIif p = br \<and> pOif p \<in> set (WANIfnames c) then Some VAccept else None)"
      by (rule evalRules_map) simp
    then show ?thesis by simp
  qed
  have icmp: "evalRules ?jmp k p [[Nfproto Fam6, Icmp6 (icmp6Errors @ [''echo-request'']), Accept]] =
      (if pFam p = Fam6 \<and> pL4 p = ''ipv6-icmp'' \<and> pIcmp p \<in> set (icmp6Errors @ [''echo-request'']) then Some VAccept else None)" by simp
  have "evalLines os k c clk p (forwardChain ft nat6 c clk) =
      firstOf2 (firstOf2 (before os ''forward_first'' p) (after os ''forward_first'' p))
      (firstOf2 (if blocked k c clk p then Some VDrop else None)
      (firstOf2 (firstOf2 (before os ''forward_early'' p) (firstOf2 (evalRules ?jmp k p (fwHookRules c clk ''forward_early'')) (after os ''forward_early'' p)))
      (firstOf2 (if pIif p \<in> set (fwZoneIfs c ''lan'') then Some VAccept
       else if pIif p \<in> set (fwZoneIfs c ''guest'') \<and> pOif p \<in> set (WANIfnames c) then Some VAccept
       else if pDnat p then Some VAccept else None)
      (firstOf2 (firstOf2 (before os ''forward'' p)
         (firstOf2 (if \<exists>a \<in> set (IPv6Allow (Fw c)). pinhole c a p then Some VAccept else None) (after os ''forward'' p)))
       (if pFam p = Fam6 \<and> pL4 p = ''ipv6-icmp'' \<and> pIcmp p \<in> set (icmp6Errors @ [''echo-request'']) then Some VAccept else None)))))"
    unfolding forwardChain_def evalLines_append evalLines_rules zones icmp
    unfolding evalRules_append accessForward_eval [OF t] flowRules_new [OF new] evalLines.simps evalLine_hook fwHookRules_simps pinholeRules_eval [OF v wf]
    by (simp only: evalRules.simps ctState_new [OF new] firstOf2_simps option.case)
  then show ?thesis
    unfolding forwardVerdict_def newForward_def rules
    by (simp only: firstOf2_assoc firstOf2_cond firstOf2_simps)
qed

text \<open>
  C6. The forward chain refines the policy a new connection between networks is held to: for every packet, kernel state
  and validated config the rendered rules give the verdict of \<open>newForward\<close>: access control first, then the traffic rules in
  their order, the trusted zone, guests to a WAN, forwarded ports, IPv6 pinholes by identifier (an address whose low 64
  bits are the entry's, or the EUI-64 of its MAC, under whatever prefix), the ICMPv6 a path needs; the rest is dropped.
\<close>

theorem forward_policy:
  assumes "fwValidate c = []" and "loaded c clk act k" and "wf_pkt p" and "pCt p = New"
  shows "forwardVerdict os k ft nat6 c clk p = newForward os k c clk act p"
  using assms by (rule forward_refines)

text \<open>
  C16. A guest network reaches the internet and nothing else, ping aside. A new packet from a guest network towards another
  LAN-side network, to no forwarded port and for no accepting traffic rule, is accepted exactly when it is ICMPv6 of the
  types the last rule of the chain lets through everywhere: the errors, and also echo requests, so a guest can ping the
  hosts of the trusted network over IPv6 although the documentation gives guests the WAN only.
\<close>

theorem guest_confined:
  assumes "fwValidate c = []" and "loaded c clk act k" and "wf_pkt p" and "pCt p = New"
    and "pIif p \<in> set (fwZoneIfs c ''guest'')" and "pIif p \<notin> set (fwZoneIfs c ''lan'')" and "pIif p \<notin> set (WANIfnames c)"
    and "pOif p \<notin> set (WANIfnames c)" and "\<not> pDnat p"
    and "firstRule k c clk act p (filter (\<lambda>x. rlDest x \<noteq> ''router'') (Rules (Fw c))) = None"
    and "\<forall>h. before os h p = None \<and> after os h p = None"
  shows "forwardVerdict os k ft nat6 c clk p =
    (if pFam p = Fam6 \<and> pL4 p = ''ipv6-icmp'' \<and> pIcmp p \<in> set (icmp6Errors @ [''echo-request'']) then VAccept else VDrop)"
proof -
  have "\<not> blocked k c clk p" using assms(7,8) by (auto simp: blocked_def blocked_by_def Let_def)
  moreover have "\<not> pinhole c a p" for a using assms(7) via_wan_if [of c _ p] by (auto simp: pinhole_def)
  ultimately show ?thesis
    unfolding forward_refines [OF assms(1-4)] newForward_def using assms(5-11) by (simp add: orDrop_def modemRules_lan)
qed

section \<open>Port forwards\<close>

definition takes :: "'c FwConfig_scheme \<Rightarrow> pkt \<Rightarrow> Forward \<Rightarrow> bool" where
  "takes c p f \<longleftrightarrow>
     on (fdEnabled f) \<and> via_wan c (fdWAN f) p \<and> pL4 p \<in> set (fdProto f) \<and> port_in (fdPort f) (pDport p) \<and> in_any (fdSrcIP f) (pSrc p)"

definition clash_free :: "claim \<Rightarrow> claim \<Rightarrow> bool" where
  "clash_free a b \<longleftrightarrow>
     cRestricted a \<or> cRestricted b \<or> cWhat a = cWhat b \<or> cHi a < cLo b \<or> cHi b < cLo a
     \<or> set (cProtos a) \<inter> set (cProtos b) = {} \<or> set (cWANs a) \<inter> set (cWANs b) = {}"

lemma claimsClash_Nil: "claimsClash a b = [] \<longleftrightarrow> clash_free a b"
  by (auto simp: claimsClash_def clash_free_def)

lemma clash_free_sym: "clash_free a b \<Longrightarrow> clash_free b a"
  by (auto simp: clash_free_def)

lemma overlapsOf_Nil:
  assumes "overlapsOf as os = []"
  shows "\<lbrakk>a \<in> set as; b \<in> set as; a \<noteq> b\<rbrakk> \<Longrightarrow> clash_free a b" "\<lbrakk>a \<in> set as; b \<in> set os\<rbrakk> \<Longrightarrow> clash_free a b"
  using assms by (induction as os rule: overlapsOf.induct) (auto simp: claimsClash_Nil intro: clash_free_sym)

lemma fwValidate_forward:
  assumes "fwValidate c = []" "f \<in> set (Forwards (Fw c))"
  shows "validPorts (fdPort f)" "fwAddrs (fdSrcIP f) \<noteq> None" "\<forall>v4 v6. fwAddrs (fdSrcIP f) = Some (v4, v6) \<longrightarrow> v6 = []"
proof -
  have e: "fwEntries ''firewall.forwards'' fdName fdDesc (checkForward c) 0 [] (Forwards (Fw c)) = []"
    using assms(1) by (simp add: fwValidate_def Let_def)
  obtain q where q: "checkForward c q f = []" using fwEntries_Nil(1) [OF e] assms(2) by blast
  then show "validPorts (fdPort f)" "fwAddrs (fdSrcIP f) \<noteq> None" "\<forall>v4 v6. fwAddrs (fdSrcIP f) = Some (v4, v6) \<longrightarrow> v6 = []"
    by (auto simp: checkForward_def split: if_splits option.splits)
qed

lemma fwValidate_names: "fwValidate c = [] \<Longrightarrow> distinct (map fdName (Forwards (Fw c)))"
proof -
  assume "fwValidate c = []"
  then have "fwEntries ''firewall.forwards'' fdName fdDesc (checkForward c) 0 [] (Forwards (Fw c)) = []" by (simp add: fwValidate_def Let_def)
  then show ?thesis by (rule fwEntries_Nil(2))
qed

lemma same_wan:
  assumes "distinct (WANIfnames c)" "via_wan c ws p" "via_wan c ws' p"
  shows "set (wanNames c ws) \<inter> set (wanNames c ws') \<noteq> {}"
proof -
  obtain w w' where w: "w \<in> set (WANs c)" "Ifname w = pIif p" "ws = [] \<or> wanName w \<in> set ws"
    "w' \<in> set (WANs c)" "Ifname w' = pIif p" "ws' = [] \<or> wanName w' \<in> set ws'"
    using assms(2,3) by (auto simp: via_wan_def)
  have "w = w'" using assms(1) w by (auto simp: WANIfnames_def distinct_map inj_on_def)
  then have "wanName w \<in> set (wanNames c ws) \<inter> set (wanNames c ws')" using w by (auto simp: wanNames_def)
  then show ?thesis by blast
qed

lemma forward_claim:
  assumes v: "fwValidate c = []" and d: "distinct (WANIfnames c)" and f: "f \<in> set (Forwards (Fw c))" "takes c p f" "fdSrcIP f = []"
  shows "forwardClaim c f \<in> set (forwardClaims c)"
    "\<lbrakk>g \<in> set (Forwards (Fw c)); takes c p g; fdSrcIP g = []\<rbrakk> \<Longrightarrow> clash_free (forwardClaim c f) (forwardClaim c g) \<Longrightarrow> fdName f = fdName g"
    "\<lbrakk>x \<in> set (OpenPorts (Fw c)); opens c x p; opSrcIP x = []\<rbrakk> \<Longrightarrow> \<exists>b \<in> set (openClaims c). \<not> clash_free (forwardClaim c f) b"
proof -
  show "forwardClaim c f \<in> set (forwardClaims c)"
    using f fwValidate_forward(1) [OF v f(1)] by (auto simp: forwardClaims_def forwardCounts_def takes_def)
  show "fdName f = fdName g" if g: "g \<in> set (Forwards (Fw c))" "takes c p g" "fdSrcIP g = []"
    and cl: "clash_free (forwardClaim c f) (forwardClaim c g)"
    using cl f g same_wan [OF d, of "fdWAN f" p "fdWAN g"]
    by (auto simp: clash_free_def forwardClaim_def takes_def port_in_def split: prod.splits)
  show "\<exists>b \<in> set (openClaims c). \<not> clash_free (forwardClaim c f) b" if x: "x \<in> set (OpenPorts (Fw c))" "opens c x p" "opSrcIP x = []"
  proof -
    obtain ps where ps: "fwPortList (opPort x) = Some ps" using fwValidate_open(1) [OF v x(1)] by auto
    have "anyPort ps (pDport p)" using portsOf_in [of "opPort x" "pDport p"] ps x(2) by (simp add: portsOf_def opens_def)
    then obtain s where s: "s \<in> set ps" "port_in s (pDport p)" by (auto simp: anyPort_def)
    have "openClaim c x s \<in> set (openClaims c)" using x ps s by (auto simp: openClaims_def openClaimsOf_def opens_def)
    moreover have "\<not> clash_free (forwardClaim c f) (openClaim c x s)"
      using f x s(2) same_wan [OF d, of "fdWAN f" p "opWAN x"]
      by (auto simp: clash_free_def forwardClaim_def openClaim_def takes_def opens_def port_in_def split: prod.splits)
    ultimately show ?thesis by blast
  qed
qed

lemma dnat_source:
  assumes v: "fwValidate c = []" and f: "f \<in> set (Forwards (Fw c))" and wf: "wf_pkt p" and p4: "pFam p = Fam4"
  shows "list_all (holds k p) (let v4 = fst (addrPair (fdSrcIP f)) in if v4 \<noteq> [] then [Saddr Fam4 v4] else []) \<longleftrightarrow> in_any (fdSrcIP f) (pSrc p)"
proof (cases "fdSrcIP f = []")
  case True
  then show ?thesis using addrPair_Nil [of Fam4] by (simp add: ofFam_def in_any_def)
next
  case False
  obtain v4 v6 where a: "fwAddrs (fdSrcIP f) = Some (v4, v6)" using fwValidate_forward(2) [OF v f] by auto
  then have "v6 = []" using fwValidate_forward(3) [OF v f] by blast
  have "v4 \<noteq> []"
  proof
    assume "v4 = []"
    moreover obtain x where "x \<in> set (fdSrcIP f)" using False by (cases "fdSrcIP f") auto
    ultimately show False using fwAddrs_Some [OF a] \<open>v6 = []\<close> by fastforce
  qed
  moreover have "length (pSrc p) = 4" using wf p4 by (simp add: wf_pkt_def)
  ultimately show ?thesis using fwAddrs_in(1) [OF a] False p4 by (simp add: addrPair_def a addrOf_def in_any_def)
qed

lemma dnatLines_eval:
  assumes v: "fwValidate c = []" and f: "f \<in> set (Forwards (Fw c))" "on (fdEnabled f)" and wf: "wf_pkt p" and p4: "pFam p = Fam4"
  shows "evalRules jmp k p (dnatLines c f) = (if takes c p f then Some (VDnat (fwdTo c f)) else None)"
proof -
  let ?s = "let v4 = fst (addrPair (fdSrcIP f)) in if v4 \<noteq> [] then [Saddr Fam4 v4] else []"
  have m: "list_all is_match ?s" by (simp add: is_match_def Let_def)
  have "evalRules jmp k p (dnatLines c f) =
    (if \<exists>l4 \<in> set (fdProto f). via_wan c (fdWAN f) p \<and> list_all (holds k p) ?s \<and> pL4 p = l4 \<and> port_in (fdPort f) (pDport p)
     then Some (VDnat (fwdTo c f)) else None)"
    unfolding dnatLines_def
  proof (rule evalRules_map)
    fix l4
    have "evalRule jmp k p (?s @ [Dport l4 [nftPorts (fdPort f)], Dnat (fwdTo c f), Note (fdName f)]) =
        (if list_all (holds k p) ?s \<and> pL4 p = l4 \<and> port_in (fdPort f) (pDport p) then Some (VDnat (fwdTo c f)) else None)"
      by (subst evalRule_matches [OF m]) (simp add: anyPort_def nftPorts_def)
    then show "evalRule jmp k p (dnatRule c f l4) =
        (if via_wan c (fdWAN f) p \<and> list_all (holds k p) ?s \<and> pL4 p = l4 \<and> port_in (fdPort f) (pDport p) then Some (VDnat (fwdTo c f)) else None)"
      by (simp add: dnatRule_def fwWANSet_mem)
  qed
  then show ?thesis using dnat_source [OF v f(1) wf p4, of k] f(2) by (simp add: takes_def)
qed

lemma dnatTo_first:
  assumes v: "fwValidate c = []" and wf: "wf_pkt p" and p4: "pFam p = Fam4"
  shows "dnatTo k c p = map_option (fwdTo c) (find (takes c p) (Forwards (Fw c)))"
proof -
  have "evalRules jmp k p (concat (map (dnatLines c) (filter (\<lambda>f. on (fdEnabled f)) fs))) = map_option (\<lambda>f. VDnat (fwdTo c f)) (find (takes c p) fs)"
    if "set fs \<subseteq> set (Forwards (Fw c))" for jmp fs using that
  proof (induction fs)
    case (Cons f fs)
    have "\<not> on (fdEnabled f) \<Longrightarrow> \<not> takes c p f" by (simp add: takes_def)
    then show ?case using Cons dnatLines_eval [OF v _ _ wf p4, of f] by auto
  qed simp
  from this [OF subset_refl, of "\<lambda>_. None"] show ?thesis
    unfolding dnatTo_def dnatRules_def fwEnabledForwards_def by (cases "find (takes c p) (Forwards (Fw c))") simp_all
qed

text \<open>
  C17. Where a forwarded port leads is what the config says, without a choice: a new IPv4 connection from a WAN is sent to
  the target of the first enabled forward that takes its WAN, protocol, port and source; two forwards without a source
  list never take the same packet, and such a forward never takes a packet an \<open>open\<close> entry without a source list opens on
  the router, so neither is shadowed. The WANs have different interfaces.
\<close>

theorem forwards_unambiguous:
  assumes "fwValidate c = []" and "distinct (WANIfnames c)" and "wf_pkt p" and "pFam p = Fam4"
  shows "dnatTo k c p = map_option (fwdTo c) (find (takes c p) (Forwards (Fw c)))
    \<and> (\<forall>f \<in> set (Forwards (Fw c)). \<forall>g \<in> set (Forwards (Fw c)). fdSrcIP f = [] \<and> fdSrcIP g = [] \<and> takes c p f \<and> takes c p g \<longrightarrow> f = g)
    \<and> (\<forall>f \<in> set (Forwards (Fw c)). \<forall>x \<in> set (OpenPorts (Fw c)). \<not> (fdSrcIP f = [] \<and> opSrcIP x = [] \<and> takes c p f \<and> opens c x p))"
proof (intro conjI ballI impI)
  show "dnatTo k c p = map_option (fwdTo c) (find (takes c p) (Forwards (Fw c)))" by (rule dnatTo_first [OF assms(1,3,4)])
  have ov: "overlapsOf (forwardClaims c) (openClaims c) = []" using assms(1) by (simp add: fwValidate_def fwCheckOverlaps_def Let_def)
  note claim = forward_claim [OF assms(1,2)]
  fix f assume f: "f \<in> set (Forwards (Fw c))"
  { fix g assume g: "g \<in> set (Forwards (Fw c))" and b: "fdSrcIP f = [] \<and> fdSrcIP g = [] \<and> takes c p f \<and> takes c p g"
    have "clash_free (forwardClaim c f) (forwardClaim c g)"
    proof (cases "forwardClaim c f = forwardClaim c g")
      case True
      then show ?thesis by (simp add: clash_free_def)
    next
      case False
      then show ?thesis using overlapsOf_Nil(1) [OF ov claim(1) claim(1)] f g b by blast
    qed
    then have "fdName f = fdName g" using claim(2) f g b by blast
    then show "f = g" using fwValidate_names [OF assms(1)] f g by (auto simp: distinct_map inj_on_def) }
  { fix x assume x: "x \<in> set (OpenPorts (Fw c))"
    show "\<not> (fdSrcIP f = [] \<and> opSrcIP x = [] \<and> takes c p f \<and> opens c x p)"
      using overlapsOf_Nil(2) [OF ov claim(1)] claim(3) f x by blast }
qed

section \<open>A config\<close>

definition lab_forwards :: Firewall where
  "lab_forwards = lab_fw\<lparr>Forwards := [\<lparr>fdName = ''nas'', fdEnabled = None, fdProto = [''tcp''], fdPort = ''8443'', fdTo = ''192.168.1.10'', fdToPort = ''443'',
       fdWAN = [''wan''], fdSrcIP = [], fdDesc = []\<rparr>],
     Access := [\<lparr>acName = ''tv'', acEnabled = None, acMACs = [''02:00:00:00:00:0C''], acDevices = [],
       acSchedule = [\<lparr>Days = [''mon''], Time = ''22:00-06:00''\<rparr>], acDesc = []\<rparr>]\<rparr>"

definition lab_cfg2 :: FwConfig where "lab_cfg2 = lab_of () lab_forwards"

lemma lab2_valid: "fwValidate lab_cfg2 = []"
  by code_simp

lemma lab2_loaded: "loaded lab_cfg2 lab_clk [] (lab_kernel (\<lambda>ch. []))"
  by (rule lab_loaded) code_simp

definition lab_night :: kernel where "lab_night = lab_kernel (\<lambda>ch. [])\<lparr>kTime := 169200\<rparr>"


definition lab_ping :: pkt where
  "lab_ping = (lab_pkt (replicate 16 1) 0)\<lparr>pIif := ''br-guest'', pOif := ''br-lan'', pFam := Fam6, pDst := replicate 16 2, pL4 := ''ipv6-icmp'',
     pIcmp := ''echo-request''\<rparr>"

lemma lab_ping_wf: "wf_pkt lab_ping" "pCt lab_ping = New"
  by (simp_all add: lab_ping_def lab_pkt_def wf_pkt_def)

theorem forward_policy_witness:
  "forwardVerdict lab_others (lab_kernel (\<lambda>ch. [])) True False lab_cfg2 lab_clk lab_ping =
   newForward lab_others (lab_kernel (\<lambda>ch. [])) lab_cfg2 lab_clk [] lab_ping"
  by (rule forward_policy [OF lab2_valid lab2_loaded lab_ping_wf])

theorem guest_confined_witness:
  "forwardVerdict lab_others (lab_kernel (\<lambda>ch. [])) True False lab_cfg2 lab_clk lab_ping = VAccept"
proof -
  have r: "firstRule k lab_cfg2 lab_clk act p (filter (\<lambda>x. rlDest x \<noteq> ''router'') (Rules (Fw lab_cfg2))) = None" for k act p
    by (simp add: lab_cfg2_def lab_of_def lab_forwards_def lab_fw_def firstRule_def)
  have g: "pIif lab_ping \<in> set (fwZoneIfs lab_cfg2 ''guest'')" "pIif lab_ping \<notin> set (fwZoneIfs lab_cfg2 ''lan'')"
    "pIif lab_ping \<notin> set (WANIfnames lab_cfg2)" "pOif lab_ping \<notin> set (WANIfnames lab_cfg2)" "\<not> pDnat lab_ping" by code_simp+
  have o: "\<forall>h. before lab_others h lab_ping = None \<and> after lab_others h lab_ping = None" by (simp add: lab_others_def)
  show ?thesis
    unfolding guest_confined [OF lab2_valid lab2_loaded lab_ping_wf g r o] by (simp add: lab_ping_def)
qed

theorem forwards_unambiguous_witness:
  "dnatTo (lab_kernel (\<lambda>ch. [])) lab_cfg2 (lab_pkt [198, 51, 100, 7] 8443) = Some ''192.168.1.10:443''"
proof -
  have "distinct (WANIfnames lab_cfg2)" by code_simp
  moreover have "wf_pkt (lab_pkt [198, 51, 100, 7] 8443)" "pFam (lab_pkt [198, 51, 100, 7] 8443) = Fam4" by (simp_all add: wf_pkt_def lab_pkt_def)
  moreover have "map_option (fwdTo lab_cfg2) (find (takes lab_cfg2 (lab_pkt [198, 51, 100, 7] 8443)) (Forwards (Fw lab_cfg2))) = Some ''192.168.1.10:443''"
    by code_simp
  ultimately show ?thesis using forwards_unambiguous [OF lab2_valid, of "lab_pkt [198, 51, 100, 7] 8443"] by simp
qed

end
