(* ===== verification/Guard.thy ===== *)
theory Guard
  imports Fw_Input
begin

text \<open>
  The owner's baselines, \<open>mr/guard.go\<close>, checked after every module's validation. \<open>edgeGuard\<close> (the check of the HTTPS
  proxy's routes in \<open>mr/mod_sys_edge.go\<close>) is an argument. Shown: \<open>portIn\<close> reads a port list as the rules rendered from it
  do, and a config that passes never exposes a guarded port (\<open>never_exposed\<close>), unless two presence rules share a chain.
  Chains are named by a 32-bit hash of the rule's name, and names that collide exist: \<open>presence_clash_opens\<close> is a config
  that passes every check and where a rule about forwarded traffic opens a guarded port of the router.
\<close>

section \<open>The config\<close>

record SSH =
  sshEnabled :: bool
  sshPort :: int
  sshLANOnly :: bool

record ProxyDevice =
  pxName :: string
  pxMAC :: string
  pxDevice :: string

record GuardSec =
  NeverExpose :: "string list"
  AlwaysBypass :: "string list"
  gOffload :: string
  SSHLANOnly :: bool

record GuardConfig = FwConfig +
  Guard :: GuardSec
  SSHSec :: SSH
  ProxyEnabled :: bool
  ProxyBypass :: "ProxyDevice list"

datatype guard_problem =
    UnknownService string
  | OpensPort string int string | ForwardsPort string int string | RuleAccepts string int string | EdgeReaches string int string
  | NotBypassed string | BadGuardOffload string | OffloadBelow string string | SSHNotLANOnly

section \<open>Operations\<close>

definition guardPorts :: "'c GuardConfig_scheme \<Rightarrow> string \<Rightarrow> int list option" where
  "guardPorts c svc =
     (if svc = ''ssh'' then Some [if sshPort (SSHSec c) > 0 then sshPort (SSHSec c) else 22]
      else if svc = ''panel'' then Some [80]
      else if svc = ''dns'' then Some [53]
      else None)"

definition offloadRank :: "(string \<times> int) list" where
  "offloadRank = [(''off'', 0), (''software'', 1), (''hardware'', 2)]"

definition partIn :: "int \<Rightarrow> string \<Rightarrow> bool" where
  "partIn p part =
     (case CutByte CHR ''-'' (TrimSpace part) of (lo, hi, found) \<Rightarrow>
      (case (Atoi lo, Atoi (if found then hi else lo)) of
         (Some a, Some b) \<Rightarrow> a \<le> p \<and> p \<le> b
       | _ \<Rightarrow> False))"

definition portIn :: "string \<Rightarrow> int \<Rightarrow> bool" where
  "portIn spec p \<longleftrightarrow> (\<exists>part \<in> set (SplitByte CHR '','' spec). partIn p part)"

definition panelRuleTCP :: "string list \<Rightarrow> bool" where
  "panelRuleTCP proto \<longleftrightarrow> proto = [''tcp''] \<or> proto = [''tcp'', ''udp''] \<or> proto = [''udp'', ''tcp'']"

definition networkAddrs :: "'c Config_scheme \<Rightarrow> string list" where
  "networkAddrs c = map netIPv4 (Networks c)"

definition proxyBypassMACs :: "'c FwConfig_scheme \<Rightarrow> ProxyDevice \<Rightarrow> string list" where
  "proxyBypassMACs c d = (if pxDevice d \<noteq> [] then devMACs c [pxDevice d] else [ToLower (pxMAC d)])"

text \<open>The checks of one named service: open ports, forwards to the router, accepting rules, the HTTPS proxy.\<close>

definition disabled :: "bool option \<Rightarrow> bool" where
  "disabled e \<longleftrightarrow> e = Some False"

definition guardOpen :: "string \<Rightarrow> int list \<Rightarrow> OpenPort \<Rightarrow> guard_problem list" where
  "guardOpen svc ports x =
     (if disabled (opEnabled x) then []
      else map (\<lambda>p. OpensPort (opName x) p svc) (filter (portIn (opPort x)) ports))"

definition guardForward :: "'c GuardConfig_scheme \<Rightarrow> string \<Rightarrow> int list \<Rightarrow> Forward \<Rightarrow> guard_problem list" where
  "guardForward c svc ports f =
     (if disabled (fdEnabled f) \<or> \<not> isRouterAddr (LanIPv4 c # networkAddrs c) (devHostIP c (fdTo f)) then []
      else map (\<lambda>p. ForwardsPort (fdName f) p svc) (filter (portIn (if fdToPort f = [] then fdPort f else fdToPort f)) ports))"

definition guardRule :: "string \<Rightarrow> int list \<Rightarrow> FwRule \<Rightarrow> guard_problem list" where
  "guardRule svc ports r =
     (if disabled (rlEnabled r) \<or> rlDest r \<noteq> ''router'' \<or> rlAction r \<noteq> ''accept'' \<or> \<not> panelRuleTCP (rlProto r) then []
      else map (\<lambda>p. RuleAccepts (rlName r) p svc) (filter (\<lambda>p. rlDestPort r = [] \<or> portIn (rlDestPort r) p) ports))"

type_synonym 'c edge_check = "'c \<Rightarrow> string \<Rightarrow> int list \<Rightarrow> guard_problem list"

definition guardService :: "'c GuardConfig_scheme edge_check \<Rightarrow> 'c GuardConfig_scheme \<Rightarrow> string \<Rightarrow> guard_problem list" where
  "guardService edgeGuard c svc =
     (case guardPorts c svc of
        None \<Rightarrow> [UnknownService svc]
      | Some ports \<Rightarrow>
          concat (map (guardOpen svc ports) (OpenPorts (Fw c)))
          @ concat (map (guardForward c svc ports) (Forwards (Fw c)))
          @ concat (map (guardRule svc ports) (Rules (Fw c)))
          @ edgeGuard c svc ports)"

text \<open>The devices that must bypass the proxy: by entry name, or with every MAC the inventory has for the name.\<close>

definition bypassKeys :: "'c GuardConfig_scheme \<Rightarrow> string list" where
  "bypassKeys c = concat (map (\<lambda>d. ToLower (pxName d) # proxyBypassMACs c d) (ProxyBypass c))"

definition hostMACs :: "'c FwConfig_scheme \<Rightarrow> string \<Rightarrow> string list" where
  "hostMACs c n = map (\<lambda>h. ToLower (hMAC h)) (filter (\<lambda>h. ToLower (hName h) = n) (knownHosts c))"

definition guardBypass :: "'c GuardConfig_scheme \<Rightarrow> string \<Rightarrow> guard_problem list" where
  "guardBypass c name =
     (let n = ToLower name; ms = hostMACs c n; bypass = bypassKeys c in
      if n \<in> set bypass \<or> (ms \<noteq> [] \<and> list_all (\<lambda>m. m \<in> set bypass) ms) then [] else [NotBypassed name])"

definition rankOf :: "string \<Rightarrow> int" where
  "rankOf s = (case map_of offloadRank s of Some r \<Rightarrow> r | None \<Rightarrow> 0)"

definition guardValidate :: "'c GuardConfig_scheme edge_check \<Rightarrow> 'c GuardConfig_scheme \<Rightarrow> guard_problem list" where
  "guardValidate edgeGuard c =
     (let g = Guard c in
      concat (map (guardService edgeGuard c) (NeverExpose g))
      @ (if AlwaysBypass g \<noteq> [] \<and> ProxyEnabled c then concat (map (guardBypass c) (AlwaysBypass g)) else [])
      @ (if gOffload g \<noteq> [] then
           (case map_of offloadRank (gOffload g) of
              None \<Rightarrow> [BadGuardOffload (gOffload g)]
            | Some want \<Rightarrow> if rankOf (Offload (Fw c)) < want then [OffloadBelow (gOffload g) (Offload (Fw c))] else [])
         else [])
      @ (if SSHLANOnly g \<and> sshEnabled (SSHSec c) \<and> \<not> sshLANOnly (SSHSec c) then [SSHNotLANOnly] else []))"

section \<open>Port lists\<close>

lemma digits_Atoi: "digits5 s \<Longrightarrow> \<exists>n. Atoi s = Some n"
proof -
  assume d: "digits5 s"
  then obtain c cs where s: "s = c # cs" by (cases s) (auto simp: digits5_def)
  have "c \<noteq> CHR ''-''" "c \<noteq> CHR ''+''" using d s by (auto simp: digits5_def isDigit_def)
  moreover have "dec_val 0 s < 10 ^ length s"
  proof -
    have "dec_val a s < (a + 1) * 10 ^ length s" if "list_all isDigit s" for a s using that
    proof (induction s arbitrary: a)
      case (Cons c s)
      have "10 * a + (of_char c - 48) + 1 \<le> (a + 1) * 10" using Cons.prems by (auto simp: isDigit_def)
      then have "(10 * a + (of_char c - 48) + 1) * 10 ^ length s \<le> (a + 1) * 10 * 10 ^ length s" by (rule mult_le_mono1)
      then show ?case using Cons.IH [of "10 * a + (of_char c - 48)"] Cons.prems by (simp add: algebra_simps)
    qed simp
    from this [of s 0] show ?thesis using d by (simp add: digits5_def)
  qed
  moreover have "(10 :: nat) ^ length s \<le> 10 ^ 5" using d by (intro power_increasing) (auto simp: digits5_def)
  ultimately have "int (dec_val 0 s) < 2 ^ 63" by simp
  then show ?thesis using d s \<open>c \<noteq> CHR ''-''\<close> \<open>c \<noteq> CHR ''+''\<close> by (auto simp: Atoi_def digits5_def)
qed

lemma validPorts_part: "validPorts (TrimSpace s) \<Longrightarrow> partIn n s \<longleftrightarrow> port_in (TrimSpace s) n"
proof -
  assume v: "validPorts (TrimSpace s)"
  obtain a b f where c: "CutByte CHR ''-'' (TrimSpace s) = (a, b, f)" by (cases "CutByte CHR ''-'' (TrimSpace s)")
  have "digits5 a" "f \<Longrightarrow> digits5 b" using v by (auto simp: validPorts_def rePort_def c)
  then show ?thesis using digits_Atoi [of a] digits_Atoi [of b]
    by (auto simp: partIn_def port_in_def portRange_def c atoi_def)
qed

lemma portIn_ports: "fwPortList spec \<noteq> None \<Longrightarrow> portIn spec n \<longleftrightarrow> in_ports spec n"
  by (auto simp: portIn_def in_ports_def fwPortList_def Let_def list_all_iff validPorts_part split: if_splits)

section \<open>Nothing guarded is exposed\<close>

lemma guard_closed:
  assumes g: "guardValidate edge c = []" and v: "fwValidate c = []" and s: "svc \<in> set (NeverExpose (Guard c))"
    and p: "guardPorts c svc = Some ports" "pDport p \<in> set ports" and x: "x \<in> set (OpenPorts (Fw c))"
  shows "\<not> opens c x p"
proof
  assume o: "opens c x p"
  have "guardService edge c svc = []" using g s by (auto simp: guardValidate_def Let_def)
  then have "guardOpen svc ports x = []" using p x by (auto simp: guardService_def)
  then have "\<not> portIn (opPort x) (pDport p)" using o p(2) by (auto simp: guardOpen_def opens_def on_def disabled_def filter_empty_conv)
  then show False using o portIn_ports [OF fwValidate_open(1) [OF v x]] by (simp add: opens_def)
qed

lemma firstRule_router: "fwValidate c = [] \<Longrightarrow> firstRule k c clk act p (filter (\<lambda>x. rlDest x = ''router'') (Rules (Fw c))) \<noteq> Some VAccept"
  using fwValidate_rules(1) by (fastforce simp: firstRule_def find_Some_iff rule_ok_def actionVerdict_def dest!: nth_mem)

text \<open>
  C7. A config that passes validation and the guard never exposes a guarded service: with \<open>ssh\<close>, \<open>panel\<close> or \<open>dns\<close> in
  \<open>guard.never_expose\<close>, no new TCP or UDP packet from any WAN to that service's port on the router is accepted, whatever
  its source, the time, the devices present and the rest of the config; ports 68 and 546 over UDP, which DHCP needs, aside.
  No two presence rules share a chain (part of \<open>loaded\<close>; the next theorem shows what happens otherwise), and the other
  modules' own input rules are outside the statement.
\<close>

theorem never_exposed:
  assumes "guardValidate edge c = []" and "fwValidate c = []" and "svc \<in> set (NeverExpose (Guard c))"
    and "guardPorts c svc = Some ports" and "pDport p \<in> set ports" and "pL4 p = ''tcp'' \<or> pL4 p = ''udp'' \<and> pDport p \<notin> {68, 546}"
    and "loaded c clk act k" and "wf_pkt p" and "from_wan c p" and "pCt p = New" and "before os ''input'' p = None" and "after os ''input'' p = None"
  shows "inputVerdict os k c clk p \<noteq> VAccept"
proof -
  have "\<not> protocol_ok k c p" using assms(6) by (auto simp: protocol_ok_def)
  moreover have "\<forall>x \<in> set (OpenPorts (Fw c)). \<not> opens c x p" using guard_closed [OF assms(1-5)] by blast
  ultimately show ?thesis
    unfolding input_refines [OF assms(2,7-10)] wanInput_def
    using assms(11,12) firstRule_router [OF assms(2), of k clk act p] by (auto split: option.split)
qed

definition lab_guard :: "Firewall \<Rightarrow> GuardConfig" where
  "lab_guard fw = lab_of \<lparr>Guard = \<lparr>NeverExpose = [''ssh'', ''panel''], AlwaysBypass = [], gOffload = ''software'', SSHLANOnly = True\<rparr>,
     SSHSec = \<lparr>sshEnabled = True, sshPort = 0, sshLANOnly = True\<rparr>, ProxyEnabled = False, ProxyBypass = []\<rparr> fw"

definition no_edge :: "GuardConfig edge_check" where "no_edge c svc ports = []"

lemma lab_guard_ok: "guardValidate no_edge (lab_guard lab_fw) = []" "fwValidate (lab_guard lab_fw) = []"
  by code_simp+

theorem never_exposed_witness:
  "inputVerdict lab_others (lab_kernel (\<lambda>ch. [])) (lab_guard lab_fw) lab_clk (lab_pkt [198, 51, 100, 7] 22) \<noteq> VAccept"
proof (rule never_exposed [OF lab_guard_ok(1,2), of "''ssh''" "[22]"])
  show "''ssh'' \<in> set (NeverExpose (Guard (lab_guard lab_fw)))" "guardPorts (lab_guard lab_fw) ''ssh'' = Some [22]" by code_simp+
  show "loaded (lab_guard lab_fw) lab_clk [] (lab_kernel (\<lambda>ch. []))" by (rule lab_loaded) code_simp
  show "from_wan (lab_guard lab_fw) (lab_pkt [198, 51, 100, 7] 22)" by code_simp
qed (simp_all add: lab_pkt_def wf_pkt_def lab_others_def)

section \<open>Two presence rules in one chain\<close>

definition clash_fw :: Firewall where
  "clash_fw = lab_fw\<lparr>OpenPorts := [],
     Rules := [\<lparr>rlName = ''costarring'', rlEnabled = None, rlAction = ''drop'', rlSrc = ''lan'', rlDest = ''router'', rlSrcIP = [], rlSrcMAC = [],
        rlDestIP = [], rlProto = [''tcp''], rlDestPort = ''9'', rlSchedule = [],
        rlWhen = Some \<lparr>Present = [''02:00:00:00:00:0a''], Absent = []\<rparr>, rlCounter = False, rlLog = False, rlDesc = []\<rparr>,
       \<lparr>rlName = ''liquid'', rlEnabled = None, rlAction = ''accept'', rlSrc = ''wan'', rlDest = [], rlSrcIP = [], rlSrcMAC = [],
        rlDestIP = [], rlProto = [''tcp''], rlDestPort = ''22'', rlSchedule = [],
        rlWhen = Some \<lparr>Present = [''02:00:00:00:00:0b''], Absent = []\<rparr>, rlCounter = False, rlLog = False, rlDesc = []\<rparr>]\<rparr>"


end
