(* ===== verification/Watchcat.thy ===== *)
theory Watchcat
  imports Fw_Nft
begin

text \<open>
  The watchcat, \<open>mr/mod_sys_watchcat.go\<close>: when every WAN is down, \<open>mr watchcat tick\<close> (once a minute) redials, then
  restarts the network, then reboots, each step after a longer wait. \<open>wcStep\<close> is the state machine, \<open>wcTick\<close> one run of
  the command on the state file (lost at a reboot) and the file with the time of the last reboot (kept). Times are
  seconds; a validated \<open>after\<close> is at most four hours, so the 64-bit sums and shifts of the source stay in range.
  Shown: no step is taken while a WAN is up, while a change waits for its confirmation, in the ten minutes after a boot
  or before the outage has lasted \<open>after\<close> minutes, and two reboots are at least \<open>reboot_hours\<close> apart over any number of
  boots (\<open>watchcat_reboot_gap\<close>); an outage is answered by a redial, a restart and a reboot at fixed minutes
  (\<open>watchcat_schedule\<close>).
\<close>

section \<open>The state machine\<close>

record wcState =
  DownSince :: int
  NextAt :: int
  wcStepNo :: int

definition wcState0 :: wcState where
  "wcState0 = \<lparr>DownSince = 0, NextAt = 0, wcStepNo = 0\<rparr>"

record wcIn =
  wcNow :: int
  LastReboot :: int
  Uptime :: int
  Online :: bool
  wcPending :: bool
  After :: int
  Gap :: int

definition wcBootQuiet :: int where "wcBootQuiet = 600"

text \<open>The action array; an index below 0 is the panic \<open>None\<close>.\<close>

definition wcActions :: "string list" where
  "wcActions = [''redial'', ''restart'', ''reboot'']"

definition wcAct :: "wcState \<Rightarrow> wcIn \<Rightarrow> string option" where
  "wcAct s inp =
     (if wcStepNo s < 0 then None
      else (let act = wcActions ! nat (min (wcStepNo s) 2) in
            Some (if act = ''reboot'' \<and> LastReboot inp > 0 \<and> wcNow inp - LastReboot inp < Gap inp then ''restart'' else act)))"

definition wcDown :: "wcState \<Rightarrow> wcIn \<Rightarrow> wcState" where
  "wcDown s inp = (if DownSince s = 0 then s\<lparr>DownSince := wcNow inp\<rparr> else s)"

definition wcWaits :: "wcState \<Rightarrow> wcIn \<Rightarrow> bool" where
  "wcWaits s inp \<longleftrightarrow>
     wcPending inp \<or> Uptime inp < wcBootQuiet \<or> wcNow inp - DownSince s < After inp \<or> wcNow inp < NextAt s"

definition wcStep :: "wcState \<Rightarrow> wcIn \<Rightarrow> (wcState \<times> string) option" where
  "wcStep s inp =
     (if Online inp then Some (wcState0, if wcStepNo s > 0 then ''recovered'' else [])
      else
        (let s1 = wcDown s inp in
         if wcWaits s1 inp then Some (s1, [])
         else map_option (\<lambda>act.
                (s1\<lparr>NextAt := wcNow inp + After inp * 2 ^ nat (min (wcStepNo s1) 3), wcStepNo := wcStepNo s1 + 1\<rparr>, act)) (wcAct s1 inp)))"

section \<open>The config section\<close>

record WatchcatSec =
  wcEnabled :: bool
  wcAfter :: int
  RebootHours :: int
  wcTargets :: "string list"

datatype wc_problem = NeedsRouter | BadAfter int | BadRebootHours int | TooManyTargets | BadTargetAddr string

definition wcDefaults :: "WatchcatSec \<Rightarrow> WatchcatSec" where
  "wcDefaults w =
     (if \<not> wcEnabled w then w
      else w\<lparr>wcAfter := (if wcAfter w = 0 then 10 else wcAfter w), RebootHours := (if RebootHours w = 0 then 6 else RebootHours w)\<rparr>)"

text \<open>\<open>netip.ParseAddr\<close> gives an IPv4 address exactly for four decimal fields.\<close>

definition wcValidate :: "'c FwConfig_scheme \<Rightarrow> WatchcatSec \<Rightarrow> wc_problem list" where
  "wcValidate c w =
     (if \<not> wcEnabled w then []
      else
        (if \<not> routerMode c \<or> WANs c = [] then [NeedsRouter] else [])
        @ (if wcAfter w < 3 \<or> wcAfter w > 240 then [BadAfter (wcAfter w)] else [])
        @ (if RebootHours w < 1 \<or> RebootHours w > 168 then [BadRebootHours (RebootHours w)] else [])
        @ (if length (wcTargets w) > 4 then [TooManyTargets] else [])
        @ map BadTargetAddr (filter (\<lambda>t. parseIPv4Fields t = None) (wcTargets w)))"

definition wcCronLine :: "WatchcatSec \<Rightarrow> string list" where
  "wcCronLine w =
     (if \<not> wcEnabled w then []
      else [''# watchcat (system.watchcat)'', ''* * * * * /usr/sbin/mr watchcat tick''])"

section \<open>One tick\<close>

text \<open>The multi-WAN checker's file: when it was written, its interval, and the state of each WAN.\<close>

record wanHealth =
  hTime :: int
  hInterval :: int
  hStates :: "string list"

definition wcOnline :: "WatchcatSec \<Rightarrow> string list \<Rightarrow> wanHealth option \<Rightarrow> (string \<Rightarrow> bool) \<Rightarrow> int \<Rightarrow> bool" where
  "wcOnline w multiwanTargets health ping t =
     (case health of
        Some f \<Rightarrow>
          if hStates f \<noteq> [] \<and> t - hTime f < 3 * max (hInterval f) 5 + 60 then ''up'' \<in> set (hStates f)
          else list_ex ping (if wcTargets w \<noteq> [] then wcTargets w
                             else if multiwanTargets \<noteq> [] then multiwanTargets else [''1.1.1.1'', ''223.5.5.5''])
      | None \<Rightarrow> list_ex ping (if wcTargets w \<noteq> [] then wcTargets w
                             else if multiwanTargets \<noteq> [] then multiwanTargets else [''1.1.1.1'', ''223.5.5.5'']))"

definition netService :: "WAN \<Rightarrow> string" where
  "netService w =
     (if wanProto w = ''pppoe'' then ''mr-pppoe.'' @ wanName w
      else if wanProto w = ''dhcp'' then ''mr-udhcpc.'' @ wanName w else [])"

text \<open>The commands of an action, in order.\<close>

definition wcRun :: "'c Config_scheme \<Rightarrow> string \<Rightarrow> string list list" where
  "wcRun c act =
     (if act = ''redial'' then
        map (\<lambda>svc. [''rc-service'', svc, ''restart'']) (filter (\<lambda>svc. svc \<noteq> []) (map netService (WANs c)))
      else if act = ''restart'' then [[''rc-service'', ''mr-network'', ''restart'']]
      else if act = ''reboot'' then [[''sync''], [''reboot'']]
      else [])"

text \<open>What a tick sees; \<open>inRec\<close> is the clock when a reboot is recorded, \<open>inWritten\<close> whether that write works.\<close>

record wcSeen =
  inNow :: int
  inUptime :: int
  inOnline :: bool
  inPending :: bool
  inRec :: int
  inWritten :: bool

definition wcInput :: "WatchcatSec \<Rightarrow> string \<Rightarrow> wcSeen \<Rightarrow> wcIn" where
  "wcInput w rebootFile x =
     \<lparr>wcNow = inNow x, LastReboot = atoi (TrimSpace rebootFile), Uptime = inUptime x, Online = inOnline x, wcPending = inPending x,
      After = wcAfter w * 60, Gap = RebootHours w * 3600\<rparr>"

text \<open>The new state file, the reboot file, the action and its commands.\<close>

definition wcTick :: "'c Config_scheme \<Rightarrow> WatchcatSec \<Rightarrow> wcSeen \<Rightarrow> wcState \<Rightarrow> string \<Rightarrow> (wcState \<times> string \<times> string \<times> string list list) option" where
  "wcTick c w x s rebootFile =
     (if \<not> wcEnabled w then Some (s, rebootFile, [], [])
      else (case wcStep s (wcInput w rebootFile x) of
              None \<Rightarrow> None
            | Some (s', act) \<Rightarrow>
                Some (s', if act = ''reboot'' \<and> inWritten x then Itoa (inRec x) @ lf else rebootFile, act, wcRun c act)))"

section \<open>Steps\<close>

lemma wcDown_simps [simp]:
  "wcStepNo (wcDown s inp) = wcStepNo s" "NextAt (wcDown s inp) = NextAt s" "DownSince s \<noteq> 0 \<Longrightarrow> wcDown s inp = s"
  by (simp_all add: wcDown_def)

lemma wcAct_values: "wcAct s inp = Some act \<Longrightarrow> act \<in> set wcActions"
proof -
  assume a: "wcAct s inp = Some act"
  then have "nat (min (wcStepNo s) 2) < length wcActions" by (simp add: wcActions_def)
  then have "wcActions ! nat (min (wcStepNo s) 2) \<in> set wcActions" by (rule nth_mem)
  moreover have "''restart'' \<in> set wcActions" by (simp add: wcActions_def)
  ultimately show ?thesis using a by (auto simp: wcAct_def Let_def split: if_splits)
qed

lemma wcAct_reboot:
  assumes "wcAct s inp = Some ''reboot''"
  shows "wcStepNo s \<ge> 2 \<and> (LastReboot inp \<le> 0 \<or> wcNow inp - LastReboot inp \<ge> Gap inp)"
proof -
  have r: "wcActions ! nat (min (wcStepNo s) 2) = ''reboot''" "\<not> (LastReboot inp > 0 \<and> wcNow inp - LastReboot inp < Gap inp)" "wcStepNo s \<ge> 0"
    using assms by (auto simp: wcAct_def Let_def split: if_splits)
  have "\<not> wcStepNo s < 2"
  proof
    assume "wcStepNo s < 2"
    then have "wcStepNo s = 0 \<or> wcStepNo s = 1" using r(3) by auto
    then show False using r(1) by (auto simp: wcActions_def)
  qed
  then show ?thesis using r(2) by auto
qed

lemma wcStep_total: "wcStepNo s \<ge> 0 \<Longrightarrow> \<exists>s' act. wcStep s inp = Some (s', act) \<and> wcStepNo s' \<ge> 0"
  by (simp add: wcStep_def wcAct_def wcState0_def Let_def)

lemma wcStep_guard:
  assumes "wcStep s inp = Some (s', act)" "act \<in> set wcActions"
  shows "\<not> Online inp" "\<not> wcWaits (wcDown s inp) inp" "wcAct (wcDown s inp) inp = Some act"
  using assms by (auto simp: wcStep_def Let_def wcActions_def split: if_splits)

lemma reboot_file: "0 < n \<Longrightarrow> n < 2 ^ 63 \<Longrightarrow> atoi (TrimSpace (Itoa n @ lf)) = n"
proof -
  assume n: "0 < n" "n < 2 ^ 63"
  have "list_all (\<lambda>ch. \<not> isSpace ch) (Itoa_nat (nat n))"
    using Itoa_nat_digits [of "nat n"] by (auto simp: list_all_iff isDigit_def isSpace_def)
  moreover have "Itoa n = Itoa_nat (nat n)" using n by (simp add: Itoa_def)
  moreover have "Atoi (Itoa_nat (nat n)) = Some n" using Atoi_Itoa_nat [of "nat n"] n by simp
  ultimately show ?thesis using TrimSpace_pad [of "Itoa n" lf] by (simp add: atoi_def lf_def)
qed

section \<open>Over reboots\<close>

text \<open>
  Any number of ticks and boots: a tick sees a clock that does not go back and its write of the reboot file works; a boot
  loses the state file and keeps the other. The log has the newest entry first.
\<close>

type_synonym wcRunState = "wcState \<times> string \<times> int \<times> (wcSeen \<times> string) list"

inductive wcReach :: "'c Config_scheme \<Rightarrow> WatchcatSec \<Rightarrow> wcRunState \<Rightarrow> bool" for c w where
  start: "0 < t \<Longrightarrow> wcReach c w (wcState0, rf, t, [])"
| tick: "wcReach c w (s, rf, t, log) \<Longrightarrow> t \<le> inNow x \<Longrightarrow> inNow x \<le> inRec x \<Longrightarrow> inRec x < 2 ^ 63 \<Longrightarrow> inWritten x \<Longrightarrow>
     wcTick c w x s rf = Some (s', rf', act, cmds) \<Longrightarrow> wcReach c w (s', rf', inRec x, (x, act) # log)"
| boot: "wcReach c w (s, rf, t, log) \<Longrightarrow> wcReach c w (wcState0, rf, t, log)"

definition reboots :: "(wcSeen \<times> string) list \<Rightarrow> wcSeen list" where
  "reboots log = map fst (filter (\<lambda>e. snd e = ''reboot'') log)"

lemma reboots_simps [simp]:
  "reboots [] = []" "reboots ((x, act) # log) = (if act = ''reboot'' then x # reboots log else reboots log)"
  by (simp_all add: reboots_def)

definition wcInv :: "WatchcatSec \<Rightarrow> wcRunState \<Rightarrow> bool" where
  "wcInv w st \<longleftrightarrow> (case st of (s, rf, t, log) \<Rightarrow>
     wcStepNo s \<ge> 0 \<and> 0 < t
     \<and> (\<forall>(x, act) \<in> set log. act \<in> set wcActions \<longrightarrow> \<not> inOnline x \<and> \<not> inPending x \<and> inUptime x \<ge> wcBootQuiet)
     \<and> (\<forall>x \<in> set (reboots log). 0 < atoi (TrimSpace rf) \<and> inNow x \<le> atoi (TrimSpace rf) \<and> inNow x \<le> t)
     \<and> sorted_wrt (\<lambda>y x. inNow x + RebootHours w * 3600 \<le> inNow y) (reboots log))"

lemma wcTick_inv:
  assumes inv: "wcInv w (s, rf, t, log)" and x: "t \<le> inNow x" "inNow x \<le> inRec x" "inRec x < 2 ^ 63" "inWritten x"
    and r: "wcTick c w x s rf = Some (s', rf', act, cmds)"
  shows "wcInv w (s', rf', inRec x, (x, act) # log)"
proof (cases "wcEnabled w")
  case False
  then show ?thesis using inv x r by (fastforce simp: wcInv_def wcTick_def wcActions_def)
next
  case True
  then obtain st: "wcStep s (wcInput w rf x) = Some (s', act)" and rf': "rf' = (if act = ''reboot'' then Itoa (inRec x) @ lf else rf)"
    using r x(4) by (auto simp: wcTick_def split: option.splits)
  have t: "0 < t" and n: "wcStepNo s \<ge> 0" using inv by (simp_all add: wcInv_def)
  have n': "wcStepNo s' \<ge> 0" using wcStep_total [OF n, of "wcInput w rf x"] st by auto
  have g: "act \<in> set wcActions \<Longrightarrow> \<not> inOnline x \<and> \<not> inPending x \<and> inUptime x \<ge> wcBootQuiet"
    using wcStep_guard(1,2) [OF st] by (simp add: wcInput_def wcWaits_def)
  show ?thesis
  proof (cases "act = ''reboot''")
    case False
    then show ?thesis using inv x t n' g rf' by (fastforce simp: wcInv_def)
  next
    case reb: True
    have "act \<in> set wcActions" by (simp add: reb wcActions_def)
    then have "wcAct (wcDown s (wcInput w rf x)) (wcInput w rf x) = Some ''reboot''" using wcStep_guard(3) [OF st] reb by simp
    then have gap: "atoi (TrimSpace rf) \<le> 0 \<or> inNow x - atoi (TrimSpace rf) \<ge> RebootHours w * 3600"
      using wcAct_reboot by (fastforce simp: wcInput_def)
    have "atoi (TrimSpace rf') = inRec x" using reboot_file [of "inRec x"] x t reb rf' by simp
    moreover have "inNow y + RebootHours w * 3600 \<le> inNow x" "inNow y \<le> inRec x" if "y \<in> set (reboots log)" for y
      using inv that gap x by (fastforce simp: wcInv_def)+
    ultimately show ?thesis using inv x t n' g by (simp add: wcInv_def reb)
  qed
qed

lemma wcReach_inv: "wcReach c w st \<Longrightarrow> wcInv w st"
proof (induction rule: wcReach.induct)
  case (tick s rf t log x s' rf' act cmds)
  then show ?case by (blast intro: wcTick_inv)
qed (auto simp: wcInv_def wcState0_def)

text \<open>
  C25. The watchcat is never rash and its reboots are rare: over any number of ticks and boots, each redial, restart and
  reboot happened while every WAN was down, no change was pending and the router had been up for ten minutes, and any two
  reboots are at least \<open>reboot_hours\<close> apart, although the state of the escalation is lost at each boot.
\<close>

theorem watchcat_reboot_gap:
  assumes "wcReach c w (s, rf, t, log)"
  shows "sorted_wrt (\<lambda>y x. inNow x + RebootHours w * 3600 \<le> inNow y) (reboots log)
    \<and> (\<forall>(x, act) \<in> set log. act \<in> set wcActions \<longrightarrow> \<not> inOnline x \<and> \<not> inPending x \<and> inUptime x \<ge> wcBootQuiet)"
  using wcReach_inv [OF assms] by (simp add: wcInv_def)

section \<open>An outage\<close>

text \<open>The state before each tick of a sequence, and the action of the tick.\<close>

primrec wcBefore :: "(nat \<Rightarrow> wcIn) \<Rightarrow> nat \<Rightarrow> wcState option" where
  "wcBefore f 0 = Some wcState0"
| "wcBefore f (Suc i) = (case wcBefore f i of None \<Rightarrow> None | Some s \<Rightarrow> map_option fst (wcStep s (f i)))"

definition wcActionAt :: "(nat \<Rightarrow> wcIn) \<Rightarrow> nat \<Rightarrow> string option" where
  "wcActionAt f i = (case wcBefore f i of None \<Rightarrow> None | Some s \<Rightarrow> map_option snd (wcStep s (f i)))"

text \<open>A tick a minute from \<open>t\<close> on, everything down, nothing pending, the router up for long.\<close>

definition outage :: "int \<Rightarrow> int \<Rightarrow> int \<Rightarrow> int \<Rightarrow> nat \<Rightarrow> wcIn" where
  "outage t m gap lastReboot i =
     \<lparr>wcNow = t + 60 * int i, LastReboot = lastReboot, Uptime = 600 + 60 * int i, Online = False, wcPending = False, After = 60 * m, Gap = gap\<rparr>"

definition outageState :: "int \<Rightarrow> int \<Rightarrow> nat \<Rightarrow> wcState" where
  "outageState t m i =
     (if i = 0 then wcState0
      else if int i \<le> m then \<lparr>DownSince = t, NextAt = 0, wcStepNo = 0\<rparr>
      else if int i \<le> 2 * m then \<lparr>DownSince = t, NextAt = t + 120 * m, wcStepNo = 1\<rparr>
      else \<lparr>DownSince = t, NextAt = t + 240 * m, wcStepNo = 2\<rparr>)"

definition outageAction :: "int \<Rightarrow> int \<Rightarrow> int \<Rightarrow> int \<Rightarrow> nat \<Rightarrow> string" where
  "outageAction t m gap lastReboot i =
     (if int i = m then ''redial''
      else if int i = 2 * m then ''restart''
      else if int i = 4 * m then (if lastReboot > 0 \<and> t + 240 * m - lastReboot < gap then ''restart'' else ''reboot'')
      else [])"

lemma outage_down:
  assumes "0 < t"
  shows "wcDown (outageState t m i) (outage t m gap l i) = (if i = 0 then \<lparr>DownSince = t, NextAt = 0, wcStepNo = 0\<rparr> else outageState t m i)"
  using assms by (simp add: wcDown_def outageState_def outage_def wcState0_def)

lemma outage_step:
  assumes t: "0 < t" and m: "0 < m" and i: "int i \<le> 4 * m"
  shows "\<exists>s'. wcStep (outageState t m i) (outage t m gap l i) = Some (s', outageAction t m gap l i)
    \<and> (int i < 4 * m \<longrightarrow> s' = outageState t m (Suc i))"
proof -
  consider "int i < m" | "int i = m" | "m < int i" "int i < 2 * m" | "int i = 2 * m" | "2 * m < int i" "int i < 4 * m" | "int i = 4 * m"
    using i by linarith
  then show ?thesis
    unfolding wcStep_def Let_def outage_down [OF t]
    by cases (use t m in \<open>auto simp: outage_def outageState_def outageAction_def wcWaits_def wcAct_def wcActions_def wcBootQuiet_def\<close>)
qed

lemma outage_before: "0 < t \<Longrightarrow> 0 < m \<Longrightarrow> int i \<le> 4 * m \<Longrightarrow> wcBefore (outage t m gap l) i = Some (outageState t m i)"
proof (induction i)
  case (Suc i)
  obtain s' where "wcStep (outageState t m i) (outage t m gap l i) = Some (s', outageAction t m gap l i)" "s' = outageState t m (Suc i)"
    using outage_step [OF Suc.prems(1,2), of i gap l] Suc.prems(3) by auto
  then show ?case using Suc by simp
qed (simp add: outageState_def)

text \<open>
  An outage is answered on time: with a tick a minute, every WAN down and nothing in the way, the watchcat redials
  exactly \<open>after\<close> minutes into the outage, restarts the network after twice and reboots after four times as long (it
  restarts once more instead where the last reboot is less than \<open>reboot_hours\<close> ago), and does nothing in between.
\<close>

theorem watchcat_schedule:
  assumes "0 < t" "0 < m" "int i \<le> 4 * m"
  shows "wcActionAt (outage t m gap l) i = Some
    (if int i = m then ''redial'' else if int i = 2 * m then ''restart''
     else if int i = 4 * m then (if l > 0 \<and> t + 240 * m - l < gap then ''restart'' else ''reboot'') else [])"
proof -
  obtain s' where "wcStep (outageState t m i) (outage t m gap l i) = Some (s', outageAction t m gap l i)"
    using outage_step [OF assms] by blast
  then show ?thesis by (simp add: wcActionAt_def outage_before [OF assms] outageAction_def)
qed

theorem watchcat_schedule_witness:
  "map (wcActionAt (outage 1000 3 21600 0)) [0, 3, 4, 6, 12] = map Some [[], ''redial'', [], ''restart'', ''reboot'']"
  using watchcat_schedule [of 1000 3 _ 21600 0] by simp

definition lab_wc :: WatchcatSec where
  "lab_wc = \<lparr>wcEnabled = True, wcAfter = 3, RebootHours = 6, wcTargets = []\<rparr>"

definition lab_seen :: "int \<Rightarrow> wcSeen" where
  "lab_seen t = \<lparr>inNow = t, inUptime = 900, inOnline = False, inPending = False, inRec = t, inWritten = True\<rparr>"

definition lab_net :: Config where
  "lab_net = \<lparr>Watchdog = None, History = 20, Bridge = ''br-lan'', LanIPv4 = ''192.168.1.1/24'', LanIPv6RA = True, Networks = [],
     WANs = [\<lparr>wanName = ''wan'', wanDev = ''eth1'', wanVLAN = 0, wanProto = ''dhcp'', wanIPv6 = True, wanModem = []\<rparr>], nftRules = []\<rparr>"

lemma lab_tick:
  assumes "wcReach lab_net lab_wc (s, rf, t, log)" "t \<le> n" "n < 2 ^ 63" "wcTick lab_net lab_wc (lab_seen n) s rf = Some (s', rf', act, cmds)"
  shows "wcReach lab_net lab_wc (s', rf', n, (lab_seen n, act) # log)"
  using wcReach.tick [OF assms(1), of "lab_seen n" s' rf' act cmds] assms(2-4) by (simp add: lab_seen_def)

text \<open>Four ticks end in a reboot; the boot after it is in the run as well.\<close>

lemma lab_reach:
  "wcReach lab_net lab_wc (wcState0, Itoa 1720 @ lf, 1720,
     [(lab_seen 1720, ''reboot''), (lab_seen 1360, ''restart''), (lab_seen 1180, ''redial''), (lab_seen 1000, [])])"
proof -
  have 0: "wcReach lab_net lab_wc (wcState0, [], 1000, [])" by (rule wcReach.start) simp
  note 1 = lab_tick [OF 0, of 1000 "\<lparr>DownSince = 1000, NextAt = 0, wcStepNo = 0\<rparr>" "[]" "[]" "[]"]
  note 2 = lab_tick [OF 1, of 1180 "\<lparr>DownSince = 1000, NextAt = 1360, wcStepNo = 1\<rparr>" "[]" "''redial''" "[[''rc-service'', ''mr-udhcpc.wan'', ''restart'']]"]
  note 3 = lab_tick [OF 2, of 1360 "\<lparr>DownSince = 1000, NextAt = 1720, wcStepNo = 2\<rparr>" "[]" "''restart''" "[[''rc-service'', ''mr-network'', ''restart'']]"]
  note 4 = lab_tick [OF 3, of 1720 "\<lparr>DownSince = 1000, NextAt = 2440, wcStepNo = 3\<rparr>" "Itoa 1720 @ lf" "''reboot''" "[[''sync''], [''reboot'']]"]
  show ?thesis by (rule wcReach.boot, rule 4) (simp | code_simp)+
qed

theorem watchcat_reboot_gap_witness:
  "reboots [(lab_seen 1720, ''reboot''), (lab_seen 1360, ''restart''), (lab_seen 1180, ''redial''), (lab_seen 1000, [])] = [lab_seen 1720]
   \<and> \<not> inPending (lab_seen 1720) \<and> inUptime (lab_seen 1720) \<ge> wcBootQuiet"
  using watchcat_reboot_gap [OF lab_reach] by (auto simp: wcActions_def)

end
