(* ===== verification/Sys_Cron.thy ===== *)
theory Sys_Cron
  imports Fw_Nft Watchcat
begin

text \<open>
  Scheduled tasks: \<open>mr/mod_sys_cron.go\<close>, \<open>mergeManaged\<close> of \<open>mr/mod_sys_ssh.go\<close> and \<open>wolTarget\<close> of \<open>mr/mod_sys_wol.go\<close>.
  A time is the wall clock's minute, hour, day, month and weekday. The crontab lines of the other parts (DDNS, dialling,
  certificates, \<open>\<dots>\<close>) are an argument.
  Shown: a schedule that is accepted fires at one minute of the hour, a reboot at one time of the day, and its crontab line
  consists of cron characters only (\<open>schedule_rate\<close>); the off / on state of a window is the newest firing's
  (\<open>window_newest\<close>); rewriting a managed block keeps every other line of the file and is idempotent (\<open>managed_block\<close>).
\<close>

section \<open>Cron expressions\<close>

datatype cronError =
    ListTooLong | BadNumber string | OutOfRange int int int | BadStep string | Backwards string | StepNeedsRange
  | FieldCount nat | InField string cronError | MinuteNotFixed | HourNotFixed

definition cronFields :: "(string \<times> int \<times> int) list" where
  "cronFields = [(''minute'', 0, 59), (''hour'', 0, 23), (''day'', 1, 31), (''month'', 1, 12), (''weekday'', 0, 6)]"

definition cronNum :: "int \<Rightarrow> int \<Rightarrow> string \<Rightarrow> cronError + int" where
  "cronNum lo hi x =
     (if x = [] \<or> length x > 2 \<or> \<not> list_all isDigit x then Inl (BadNumber x)
      else let n = atoi x in if n < lo \<or> n > hi then Inl (OutOfRange n lo hi) else Inr n)"

definition stepOK :: "int \<Rightarrow> int \<Rightarrow> string \<Rightarrow> bool" where
  "stepOK lo hi step \<longleftrightarrow> (case Atoi step of None \<Rightarrow> False | Some n \<Rightarrow> 1 \<le> n \<and> n \<le> hi - lo + 1 \<and> length step \<le> 2)"

definition cronRange :: "int \<Rightarrow> int \<Rightarrow> string \<Rightarrow> cronError option" where
  "cronRange lo hi rng =
     (case CutByte CHR ''-'' rng of (a, b, _) \<Rightarrow>
      (case cronNum lo hi a of
         Inl e \<Rightarrow> Some e
       | Inr x \<Rightarrow> (case cronNum lo hi b of Inl e \<Rightarrow> Some e | Inr y \<Rightarrow> if x > y then Some (Backwards rng) else None)))"

definition cronItem :: "int \<Rightarrow> int \<Rightarrow> string \<Rightarrow> cronError option" where
  "cronItem lo hi it =
     (case CutByte CHR ''/'' it of (rng, step, hasStep) \<Rightarrow>
      if hasStep \<and> \<not> stepOK lo hi step then Some (BadStep step)
      else if rng = ''*'' then None
      else if CHR ''-'' \<in> set rng then cronRange lo hi rng
      else (case cronNum lo hi rng of Inl e \<Rightarrow> Some e | Inr _ \<Rightarrow> if hasStep then Some StepNeedsRange else None))"

text \<open>The first error of the items, or whether the field is one number.\<close>

definition parseCronField :: "string \<Rightarrow> int \<Rightarrow> int \<Rightarrow> cronError + bool" where
  "parseCronField s lo hi =
     (let items = SplitByte CHR '','' s in
      if length items > 16 then Inl ListTooLong
      else (case List.map_filter (cronItem lo hi) items of
              e # _ \<Rightarrow> Inl e
            | [] \<Rightarrow> Inr (length items = 1 \<and> \<not> (\<exists>c \<in> set s. c \<in> set ''*-/''))))"

definition cronField :: "string \<times> string \<times> int \<times> int \<Rightarrow> cronError + bool" where
  "cronField p = (case p of (x, name, lo, hi) \<Rightarrow> (case parseCronField x lo hi of Inl e \<Rightarrow> Inl (InField name e) | Inr b \<Rightarrow> Inr b))"

definition firstInl :: "('e + 'a) list \<Rightarrow> 'e option" where
  "firstInl rs = (case List.map_filter (\<lambda>r. case r of Inl e \<Rightarrow> Some e | Inr _ \<Rightarrow> None) rs of [] \<Rightarrow> None | e # _ \<Rightarrow> Some e)"

definition checkCron :: "string \<Rightarrow> string \<Rightarrow> cronError + string" where
  "checkCron spec action =
     (let f = Fields spec; rs = map cronField (zip f cronFields) in
      if length f \<noteq> 5 then Inl (FieldCount (length f))
      else (case firstInl rs of
              Some e \<Rightarrow> Inl e
            | None \<Rightarrow>
                if rs ! 0 \<noteq> Inr True then Inl MinuteNotFixed
                else if action = ''reboot'' \<and> rs ! 1 \<noteq> Inr True then Inl HourNotFixed
                else Inr (Join f '' '')))"

record cronTime =
  tMinute :: int
  tHour :: int
  tDay :: int
  tMonth :: int
  tWeekday :: int

text \<open>The values one item of a field stands for, and one field.\<close>

definition itemIn :: "int \<Rightarrow> int \<Rightarrow> int \<Rightarrow> string \<Rightarrow> bool" where
  "itemIn fmin fmax v it =
     (case CutByte CHR ''/'' it of (rng, step, _) \<Rightarrow>
      (let st = max (atoi step) 1;
           (lo, hi) = (if rng = ''*'' then (fmin, fmax)
                       else (case CutByte CHR ''-'' rng of (a, b, isRange) \<Rightarrow> (atoi a, if isRange then atoi b else atoi a)))
       in lo \<le> v \<and> v \<le> hi \<and> (v - lo) mod st = 0))"

definition fieldIn :: "string list \<Rightarrow> nat \<Rightarrow> int \<Rightarrow> bool" where
  "fieldIn f i v =
     (case cronFields ! i of (_, lo, hi) \<Rightarrow> list_ex (itemIn lo hi v) (SplitByte CHR '','' (f ! i)))"

definition cronMatch :: "string \<Rightarrow> cronTime \<Rightarrow> bool" where
  "cronMatch spec t =
     (let f = Fields spec in
      if length f \<noteq> 5 then False
      else if \<not> fieldIn f 0 (tMinute t) \<or> \<not> fieldIn f 1 (tHour t) \<or> \<not> fieldIn f 3 (tMonth t) then False
      else (let dom = fieldIn f 2 (tDay t); dow = fieldIn f 4 (tWeekday t) in
            if f ! 2 = ''*'' then dow else if f ! 4 = ''*'' then dom else dom \<or> dow))"

section \<open>Schedules\<close>

record Schedule =
  scName :: string
  scEnabled :: "bool option"
  scCron :: string
  scAction :: string
  scTarget :: string

datatype schedError =
    TakesTarget string | NetworkRestart | NotAService string | NoWAN string | StaticWAN string | NoHost string | NotATarget string
  | NotUnicast string | NoRadio string string | UnknownAction string

definition reHostname :: "string \<Rightarrow> bool" where
  "reHostname s \<longleftrightarrow> s \<noteq> [] \<and> length s \<le> 63 \<and> alnum (hd s) \<and> list_all (\<lambda>c. alnum c \<or> c = CHR ''-'') (tl s)"

text \<open>\<open>strings.EqualFold\<close> on ASCII text.\<close>

definition EqualFold :: "string \<Rightarrow> string \<Rightarrow> bool" where
  "EqualFold s t \<longleftrightarrow> ToLower s = ToLower t"

text \<open>\<open>wolTarget\<close> without a network name: the MAC to wake.\<close>

definition unicastMAC :: "string \<Rightarrow> bytes option \<Rightarrow> schedError + bytes" where
  "unicastMAC target mac =
     (case mac of
        Some m \<Rightarrow> if length m \<noteq> 6 \<or> hd m AND 1 \<noteq> 0 \<or> m = replicate 6 0 then Inl (NotUnicast target) else Inr m
      | None \<Rightarrow> Inl (NotUnicast target))"

definition wolTarget :: "'c FwConfig_scheme \<Rightarrow> string \<Rightarrow> schedError + bytes" where
  "wolTarget c target =
     (if reMAC target then unicastMAC target (ParseMAC target)
      else if reHostname target then
        (case find (\<lambda>h. hName h \<noteq> [] \<and> EqualFold (hName h) target) (knownHosts c) of
           None \<Rightarrow> Inl (NoHost target)
         | Some h \<Rightarrow> (case ParseMAC (hMAC h) of None \<Rightarrow> Inl (NoHost target) | Some m \<Rightarrow> unicastMAC target (Some m)))
      else Inl (NotATarget target))"

text \<open>\<open>svcs\<close> are the services the config enables, \<open>phys\<close> its radios.\<close>

definition scheduleService :: "string list \<Rightarrow> string list \<Rightarrow> 'c FwConfig_scheme \<Rightarrow> string \<Rightarrow> string \<Rightarrow> schedError + string" where
  "scheduleService svcs phys c action target =
     (if action = ''reboot'' then (if target \<noteq> [] then Inl (TakesTarget action) else Inr [])
      else if action = ''restart'' then
        (if target = ''mr-network'' then Inl NetworkRestart else if target \<in> set svcs then Inr target else Inl (NotAService target))
      else if action = ''reconnect'' then
        (case WANByName c target of
           None \<Rightarrow> Inl (NoWAN target)
         | Some w \<Rightarrow> if netService w = [] then Inl (StaticWAN target) else Inr (netService w))
      else if action = ''wol'' then (case wolTarget c target of Inl e \<Rightarrow> Inl e | Inr _ \<Rightarrow> Inr [])
      else if action = ''wifi-off'' \<or> action = ''wifi-on'' then
        (if target = [] \<or> target \<in> set phys then Inr [] else Inl (NoRadio action target))
      else if action = ''leds-off'' \<or> action = ''leds-on'' then (if target \<noteq> [] then Inl (TakesTarget action) else Inr [])
      else Inl (UnknownAction action))"

datatype sched_problem = TooManySchedules | SchedName string string | SchedDup string string | SchedCron string cronError | SchedTask string schedError

definition checkSchedule :: "string list \<Rightarrow> string list \<Rightarrow> 'c FwConfig_scheme \<Rightarrow> string \<Rightarrow> string list \<Rightarrow> Schedule \<Rightarrow> sched_problem list" where
  "checkSchedule svcs phys c p names s =
     (if \<not> reLabel (scName s) then [SchedName p (scName s)] else if scName s \<in> set names then [SchedDup p (scName s)] else [])
     @ (case checkCron (scCron s) (scAction s) of Inl e \<Rightarrow> [SchedCron p e] | Inr _ \<Rightarrow> [])
     @ (case scheduleService svcs phys c (scAction s) (scTarget s) of Inl e \<Rightarrow> [SchedTask p e] | Inr _ \<Rightarrow> [])"

fun checkSchedules :: "string list \<Rightarrow> string list \<Rightarrow> 'c FwConfig_scheme \<Rightarrow> nat \<Rightarrow> string list \<Rightarrow> Schedule list \<Rightarrow> sched_problem list" where
  "checkSchedules svcs phys c i names [] = []"
| "checkSchedules svcs phys c i names (s # ss) =
     checkSchedule svcs phys c (''schedules['' @ Itoa_nat i @ '']'') names s @ checkSchedules svcs phys c (Suc i) (scName s # names) ss"

definition validateSchedules :: "string list \<Rightarrow> string list \<Rightarrow> 'c FwConfig_scheme \<Rightarrow> Schedule list \<Rightarrow> sched_problem list" where
  "validateSchedules svcs phys c ss =
     (if length ss > 32 then [TooManySchedules] else []) @ checkSchedules svcs phys c 0 [] ss"

definition mrBin :: string where "mrBin = ''/usr/sbin/mr''"

definition scheduleLines :: "string list \<Rightarrow> string list \<Rightarrow> 'c FwConfig_scheme \<Rightarrow> Schedule \<Rightarrow> string list" where
  "scheduleLines svcs phys c s =
     (if \<not> on (scEnabled s) then []
      else (case (checkCron (scCron s) (scAction s), scheduleService svcs phys c (scAction s) (scTarget s)) of
              (Inr spec, Inr _) \<Rightarrow>
                [''# '' @ scName s,
                 spec @ '' '' @ mrBin @ '' sys run '' @ scAction s @ (if scTarget s \<noteq> [] then '' '' @ scTarget s else [])]
            | _ \<Rightarrow> []))"

text \<open>\<open>extra\<close> are the lines of the other parts, in their order.\<close>

definition renderCronLines :: "string list \<Rightarrow> string list \<Rightarrow> 'c FwConfig_scheme \<Rightarrow> Schedule list \<Rightarrow> string list \<Rightarrow> string list" where
  "renderCronLines svcs phys c ss extra = concat (map (scheduleLines svcs phys c) ss) @ extra"

section \<open>Managed blocks\<close>

record mergeState =
  kept :: "string list"
  blockAt :: "nat option"
  inBlock :: bool
  hadBlock :: bool

definition mergeLine :: "string \<Rightarrow> string \<Rightarrow> string \<Rightarrow> mergeState \<Rightarrow> mergeState" where
  "mergeLine bgn fin l m =
     (if l = bgn then m\<lparr>hadBlock := True, inBlock := True, blockAt := (case blockAt m of None \<Rightarrow> Some (length (kept m)) | p \<Rightarrow> p)\<rparr>
      else if l = fin then m\<lparr>hadBlock := True, inBlock := False\<rparr>
      else if inBlock m then m else m\<lparr>kept := kept m @ [l]\<rparr>)"

definition fileLines :: "string \<Rightarrow> string list" where
  "fileLines cur = (let text = TrimSuffix cur lf in if text = [] then [] else SplitByte CHR 0x0A text)"

definition scanBlock :: "string \<Rightarrow> string \<Rightarrow> string list \<Rightarrow> mergeState" where
  "scanBlock bgn fin ls = fold (mergeLine bgn fin) ls \<lparr>kept = [], blockAt = None, inBlock = False, hadBlock = False\<rparr>"

definition mergeManaged :: "string \<Rightarrow> string \<Rightarrow> string \<Rightarrow> string list \<Rightarrow> string \<times> bool" where
  "mergeManaged cur bgn fin ls =
     (let m = scanBlock bgn fin (fileLines cur) in
      if \<not> hadBlock m \<and> ls = [] then (cur, False)
      else (let at = (case blockAt m of None \<Rightarrow> length (kept m) | Some p \<Rightarrow> p);
                out = take at (kept m) @ (if ls \<noteq> [] then bgn # ls @ [fin] else []) @ drop at (kept m)
            in (if out = [] then [] else Join out lf @ lf, True)))"

definition cronBegin :: string where "cronBegin = ''# --- begin mini-router schedules (router.yaml schedules) ---''"
definition cronEnd :: string where "cronEnd = ''# --- end mini-router schedules ---''"

definition renderCrontab :: "string list \<Rightarrow> string list \<Rightarrow> 'c FwConfig_scheme \<Rightarrow> Schedule list \<Rightarrow> string list \<Rightarrow> string \<Rightarrow> string \<times> bool" where
  "renderCrontab svcs phys c ss extra cur = mergeManaged cur cronBegin cronEnd (renderCronLines svcs phys c ss extra)"

section \<open>Windows\<close>

text \<open>
  \<open>wall m\<close> is the wall clock \<open>m\<close> minutes ago. The loop returns at the first minute at which a schedule fires; of several at
  one minute the last in the list counts.
\<close>

definition windowScheds :: "Schedule list \<Rightarrow> string \<Rightarrow> string \<Rightarrow> string \<Rightarrow> Schedule list" where
  "windowScheds ss off onAct target =
     filter (\<lambda>s. on (scEnabled s) \<and> (scAction s = off \<or> scAction s = onAct) \<and> (scTarget s = [] \<or> scTarget s = target)
                 \<and> (case checkCron (scCron s) (scAction s) of Inr _ \<Rightarrow> True | Inl _ \<Rightarrow> False)) ss"

definition firedAt :: "Schedule list \<Rightarrow> cronTime \<Rightarrow> string" where
  "firedAt ss t = fold (\<lambda>s res. if cronMatch (scCron s) t then scAction s else res) ss []"

fun schedScan :: "Schedule list \<Rightarrow> string \<Rightarrow> (nat \<Rightarrow> cronTime) \<Rightarrow> nat \<Rightarrow> nat \<Rightarrow> bool" where
  "schedScan ss off wall m 0 = False"
| "schedScan ss off wall m (Suc n) =
     (let res = firedAt ss (wall m) in if res \<noteq> [] then res = off else schedScan ss off wall (Suc m) n)"

definition schedOff :: "Schedule list \<Rightarrow> string \<Rightarrow> string \<Rightarrow> string \<Rightarrow> (nat \<Rightarrow> cronTime) \<Rightarrow> bool" where
  "schedOff scheds off onAct target wall =
     (let ss = windowScheds scheds off onAct target in
      if ss = [] then False else schedScan ss off wall 0 (8 * 24 * 60))"

section \<open>Accepted schedules\<close>

lemma fields_from_words:
  "list_all (\<lambda>c. \<not> isSpace c) w \<Longrightarrow> p \<in> set (fields_from w s) \<Longrightarrow> p \<noteq> [] \<and> list_all (\<lambda>c. \<not> isSpace c) p"
  by (induction w s rule: fields_from.induct) (auto split: if_splits)

lemma fields_from_Join:
  assumes "isSpace sp" "\<forall>p \<in> set (q # qs). p \<noteq> [] \<and> list_all (\<lambda>c. \<not> isSpace c) p"
  shows "fields_from [] (Join (q # qs) [sp]) = q # qs"
  using assms(2)
proof (induction qs arbitrary: q)
  case Nil
  then show ?case using fields_word [of q "[]" "[]"] by simp
next
  case (Cons r rs)
  then show ?case using fields_word [of q "[]" "sp # Join (r # rs) [sp]"] assms(1) by simp
qed

lemma Fields_Join: "Fields (Join (Fields s) '' '') = Fields s"
proof (cases "Fields s")
  case (Cons q qs)
  have "isSpace CHR '' ''" by (simp add: isSpace_def)
  then show ?thesis using fields_from_Join [of "CHR '' ''" q qs] fields_from_words [of "[]" _ s] Cons by (simp add: Fields_def)
qed (simp add: Fields_def)

lemma cronNum_Inr: "cronNum lo hi x = Inr n \<Longrightarrow> n = atoi x \<and> lo \<le> n \<and> n \<le> hi \<and> list_all isDigit x"
  by (auto simp: cronNum_def Let_def split: if_splits)

text \<open>A field that is one number stands for that number.\<close>

lemma single_field:
  assumes "parseCronField s lo hi = Inr True"
  shows "\<exists>n. lo \<le> n \<and> n \<le> hi \<and> (\<forall>v. list_ex (itemIn lo hi v) (SplitByte CHR '','' s) \<longleftrightarrow> v = n)"
proof -
  have it: "List.map_filter (cronItem lo hi) (SplitByte CHR '','' s) = []" "length (SplitByte CHR '','' s) = 1"
    and c: "\<not> (\<exists>c \<in> set s. c \<in> set ''*-/'')"
    using assms unfolding parseCronField_def Let_def by (simp_all split: if_splits list.splits)
  obtain x where x: "SplitByte CHR '','' s = [x]" using it(2) by (auto simp: length_Suc_conv)
  then have sx: "s = x" using Join_SplitByte [of "CHR '',''" s] by simp
  have m: "CHR ''*'' \<notin> set s" "CHR ''-'' \<notin> set s" "CHR ''/'' \<notin> set s" using c by (meson list.set_intros)+
  note cut = CutByte_not_found [OF m(3)] CutByte_not_found [OF m(2)]
  have ns: "s \<noteq> ''*''" using m(1) by (rule contrapos_nn) simp
  have "cronItem lo hi s = None" using it(1) x sx by (simp add: map_filter_def split: if_splits)
  then obtain n where n: "cronNum lo hi s = Inr n" 
    using m(2) ns by (cases "cronNum lo hi s") (simp_all add: cronItem_def cut)
  have "atoi [] = 0" by code_simp
  then have "itemIn lo hi v s \<longleftrightarrow> v = n" for v using cronNum_Inr [OF n] ns by (auto simp: itemIn_def cut)
  then show ?thesis using cronNum_Inr [OF n] x sx by auto
qed

definition cronChar :: "char \<Rightarrow> bool" where
  "cronChar ch \<longleftrightarrow> isDigit ch \<or> ch \<in> set ''*,-/+ ''"

lemma cronChar_lits [simp]:
  "cronChar CHR ''*''" "cronChar CHR '',''" "cronChar CHR ''-''" "cronChar CHR ''/''" "cronChar CHR ''+''" "cronChar CHR '' ''"
  by (simp_all add: cronChar_def)

lemma digit_chars: "list_all isDigit x \<Longrightarrow> \<forall>ch \<in> set x. cronChar ch"
  by (simp add: cronChar_def list_all_iff)

lemma sign_digits:
  "Atoi (ch # cs) = Some n \<Longrightarrow> list_all isDigit cs \<and> (isDigit ch \<or> ch = CHR ''-'' \<or> ch = CHR ''+'')"
  unfolding Atoi_def list.case Let_def by (simp split: if_splits)

lemma step_chars: "stepOK lo hi x \<Longrightarrow> \<forall>ch \<in> set x. cronChar ch"
proof -
  assume "stepOK lo hi x"
  then obtain n where n: "Atoi x = Some n" by (auto simp: stepOK_def split: option.splits)
  show ?thesis
  proof (cases x)
    case (Cons ch cs)
    have d: "list_all isDigit cs" "isDigit ch \<or> ch = CHR ''-'' \<or> ch = CHR ''+''" using sign_digits n Cons by blast+
    then have "cronChar ch" using cronChar_lits by (auto simp: cronChar_def)
    moreover have "\<forall>c \<in> set cs. cronChar c" by (rule digit_chars [OF d(1)])
    ultimately show ?thesis using Cons by simp
  qed simp
qed

lemma CutByte_parts:
  "CutByte c s = (a, b, ok) \<Longrightarrow> set s \<subseteq> set a \<union> set b \<union> {c}"
  "CutByte c s = (a, b, False) \<Longrightarrow> b = [] \<and> a = s"
proof (induction s arbitrary: a b ok)
  case (Cons x s)
  obtain a' b' ok' where r: "CutByte c s = (a', b', ok')" by (cases "CutByte c s")
  {
    case 1
    then show ?case using Cons.IH(1) [OF r] by (auto simp: r split: if_splits)
  next
    case 2
    then show ?case using Cons.IH(2) r by (auto split: if_splits)
  }
qed simp_all

lemma cronItem_None:
  assumes "cronItem lo hi it = None" "CutByte CHR ''/'' it = (rng, step, h)"
  shows "h \<Longrightarrow> stepOK lo hi step" "rng = ''*'' \<or> cronRange lo hi rng = None \<or> (\<exists>x. cronNum lo hi rng = Inr x)"
proof -
  show "h \<Longrightarrow> stepOK lo hi step" using assms unfolding cronItem_def by (simp split: if_splits)
  show "rng = ''*'' \<or> cronRange lo hi rng = None \<or> (\<exists>x. cronNum lo hi rng = Inr x)"
  proof (cases "rng = ''*''")
    case False
    then show ?thesis using assms unfolding cronItem_def by (cases "cronNum lo hi rng") (simp_all split: if_splits)
  qed simp
qed

lemma item_chars: "cronItem lo hi it = None \<Longrightarrow> \<forall>ch \<in> set it. cronChar ch"
proof -
  assume i: "cronItem lo hi it = None"
  obtain rng step h where c: "CutByte CHR ''/'' it = (rng, step, h)" by (cases "CutByte CHR ''/'' it") auto
  have st: "\<forall>ch \<in> set step. cronChar ch"
    using cronItem_None(1) [OF i c] step_chars CutByte_parts(2) [of "CHR ''/''" it rng step] c by (cases h) auto
  consider "rng = ''*''" | "cronRange lo hi rng = None" | x where "cronNum lo hi rng = Inr x" using cronItem_None(2) [OF i c] by (elim disjE exE)
  then have "\<forall>ch \<in> set rng. cronChar ch"
  proof cases
    case 2
    obtain a b k where ab: "CutByte CHR ''-'' rng = (a, b, k)" by (cases "CutByte CHR ''-'' rng") auto
    obtain x where x: "cronNum lo hi a = Inr x" using 2 by (cases "cronNum lo hi a") (simp_all add: cronRange_def ab)
    obtain y where y: "cronNum lo hi b = Inr y" using 2 by (cases "cronNum lo hi b") (simp_all add: cronRange_def ab x)
    have "\<forall>ch \<in> set a \<union> set b. cronChar ch" using digit_chars cronNum_Inr [OF x] cronNum_Inr [OF y] by blast
    then show ?thesis using CutByte_parts(1) [OF ab] cronChar_lits(3) by blast
  next
    case 3
    then show ?thesis using digit_chars cronNum_Inr by blast
  qed simp
  then show ?thesis using st CutByte_parts(1) [OF c] cronChar_lits(4) by blast
qed

lemma set_Join: "set (Join xs sep) \<subseteq> (\<Union>x \<in> set xs. set x) \<union> set sep"
  by (induction xs sep rule: Join.induct) auto

lemma field_chars: "parseCronField s lo hi = Inr b \<Longrightarrow> \<forall>ch \<in> set s. cronChar ch"
proof -
  assume "parseCronField s lo hi = Inr b"
  then have "List.map_filter (cronItem lo hi) (SplitByte CHR '','' s) = []"
    unfolding parseCronField_def Let_def by (simp split: if_splits list.splits)
  then have "\<forall>x \<in> set (SplitByte CHR '','' s). cronItem lo hi x = None" by (auto simp: map_filter_def filter_empty_conv)
  then have "\<forall>x \<in> set (SplitByte CHR '','' s). \<forall>ch \<in> set x. cronChar ch" using item_chars by blast
  moreover have "set s \<subseteq> (\<Union>x \<in> set (SplitByte CHR '','' s). set x) \<union> {CHR '',''}"
    using set_Join [of "SplitByte CHR '','' s" "[CHR '','']"] unfolding Join_SplitByte by simp
  ultimately show ?thesis using cronChar_lits(2) by blast
qed

lemma firstInl_None: "firstInl rs = None \<longleftrightarrow> (\<forall>r \<in> set rs. \<exists>b. r = Inr b)"
proof -
  have "firstInl rs = None \<longleftrightarrow> List.map_filter (\<lambda>r. case r of Inl e \<Rightarrow> Some e | Inr _ \<Rightarrow> None) rs = []"
    by (simp add: firstInl_def split: list.split)
  also have "\<dots> \<longleftrightarrow> (\<forall>r \<in> set rs. \<exists>b. r = Inr b)" 
  proof -
    have "(\<exists>b. r = Inr b) \<longleftrightarrow> (case r of Inl e \<Rightarrow> Some e | Inr _ \<Rightarrow> None) = None" for r :: "'a + 'b" by (cases r) auto
    then show ?thesis by (simp add: map_filter_def filter_empty_conv)
  qed
  finally show ?thesis .
qed

lemma cronField_Inr: "cronField (x, name, lo, hi) = Inr b \<longleftrightarrow> parseCronField x lo hi = Inr b"
  by (simp add: cronField_def split: sum.split)

lemma checkCron_fields:
  assumes "checkCron spec act = Inr line"
  obtains a b d m w b1 b2 b3 b4 where "Fields spec = [a, b, d, m, w]" "line = Join [a, b, d, m, w] '' ''"
    "parseCronField a 0 59 = Inr True" "parseCronField b 0 23 = Inr b1" "parseCronField d 1 31 = Inr b2"
    "parseCronField m 1 12 = Inr b3" "parseCronField w 0 6 = Inr b4" "act = ''reboot'' \<longrightarrow> b1"
proof -
  let ?f = "Fields spec" let ?rs = "map cronField (zip ?f cronFields)"
  have l: "length ?f = 5" and n: "firstInl ?rs = None" and z: "?rs ! 0 = Inr True" and o: "act = ''reboot'' \<longrightarrow> ?rs ! 1 = Inr True"
    and line: "line = Join ?f '' ''"
    using assms unfolding checkCron_def Let_def by (simp_all split: if_splits option.splits)
  obtain a b d m w where f: "?f = [a, b, d, m, w]" using l by (auto simp: length_Suc_conv numeral_eq_Suc)
  have "\<forall>r \<in> set ?rs. \<exists>b. r = Inr b" using n unfolding firstInl_None .
  then show ?thesis using that f line z o by (simp add: cronFields_def cronField_Inr) blast
qed

lemma cronMatch_fields:
  assumes "Fields spec = [a, b, d, m, w]"
  shows "cronMatch spec t \<Longrightarrow> list_ex (itemIn 0 59 (tMinute t)) (SplitByte CHR '','' a)"
    "cronMatch spec t \<Longrightarrow> list_ex (itemIn 0 23 (tHour t)) (SplitByte CHR '','' b)"
  using assms unfolding cronMatch_def Let_def by (simp_all add: fieldIn_def cronFields_def split: if_splits)

text \<open>
  C24. A schedule the validation accepts fires at most once an hour, at one fixed minute, and a scheduled reboot at most
  once a day, at one fixed hour and minute. The spec written to the crontab fires when the configured one does, and holds
  only digits, blanks and the characters \<open>* , - / +\<close>, so it cannot end its line or start another command.
\<close>

theorem schedule_rate:
  assumes "checkCron spec act = Inr line"
  shows "(\<exists>m. 0 \<le> m \<and> m \<le> 59 \<and> (\<forall>t. cronMatch spec t \<longrightarrow> tMinute t = m))
    \<and> (act = ''reboot'' \<longrightarrow> (\<exists>h. 0 \<le> h \<and> h \<le> 23 \<and> (\<forall>t. cronMatch spec t \<longrightarrow> tHour t = h)))
    \<and> cronMatch line = cronMatch spec \<and> list_all cronChar line"
  using assms
proof (rule checkCron_fields)
  fix a b d m w b1 b2 b3 b4
  assume f: "Fields spec = [a, b, d, m, w]" and l: "line = Join [a, b, d, m, w] '' ''"
    and p: "parseCronField a 0 59 = Inr True" "parseCronField b 0 23 = Inr b1" "parseCronField d 1 31 = Inr b2"
      "parseCronField m 1 12 = Inr b3" "parseCronField w 0 6 = Inr b4" and r: "act = ''reboot'' \<longrightarrow> b1"
  have mi: "\<exists>m. 0 \<le> m \<and> m \<le> 59 \<and> (\<forall>t. cronMatch spec t \<longrightarrow> tMinute t = m)"
    using single_field [OF p(1)] cronMatch_fields(1) [OF f] by blast
  have ho: "\<exists>h. 0 \<le> h \<and> h \<le> 23 \<and> (\<forall>t. cronMatch spec t \<longrightarrow> tHour t = h)" if "act = ''reboot''"
    using single_field [of b 0 23] p(2) r that cronMatch_fields(2) [OF f] by auto
  have "Fields line = Fields spec" using Fields_Join [of spec] f l by simp
  then have eq: "cronMatch line = cronMatch spec" by (simp add: fun_eq_iff cronMatch_def)
  have "\<forall>x \<in> set [a, b, d, m, w]. \<forall>ch \<in> set x. cronChar ch" using p [THEN field_chars] by simp
  then have "list_all cronChar line" using set_Join [of "[a, b, d, m, w]" "'' ''"] l by (auto simp: list_all_iff)
  then show ?thesis using mi ho eq by blast
qed

theorem schedule_rate_witness:
  "list_all cronChar ''30 4 * * 1'' \<and> cronMatch ''30 4 * * 1'' \<lparr>tMinute = 30, tHour = 4, tDay = 3, tMonth = 5, tWeekday = 1\<rparr>
   \<and> (\<exists>h. 0 \<le> h \<and> h \<le> 23 \<and> (\<forall>t. cronMatch ''30 4 * * 1'' t \<longrightarrow> tHour t = h))"
proof -
  have "checkCron '' 30 4  * * 1'' ''reboot'' = Inr ''30 4 * * 1''" by code_simp
  from schedule_rate [OF this] have "list_all cronChar ''30 4 * * 1''"
    "\<exists>h. 0 \<le> h \<and> h \<le> 23 \<and> (\<forall>t. cronMatch '' 30 4  * * 1'' t \<longrightarrow> tHour t = h)" "cronMatch ''30 4 * * 1'' = cronMatch '' 30 4  * * 1''"
    by (simp_all only: simp_thms)
  moreover have "cronMatch ''30 4 * * 1'' \<lparr>tMinute = 30, tHour = 4, tDay = 3, tMonth = 5, tWeekday = 1\<rparr>" by code_simp
  ultimately show ?thesis by (simp only: simp_thms)
qed

section \<open>Managed blocks of a file\<close>

text \<open>The lines outside the block: what the comment of \<open>mergeManaged\<close> says is kept.\<close>

fun outside :: "string \<Rightarrow> string \<Rightarrow> bool \<Rightarrow> string list \<Rightarrow> string list" where
  "outside bgn fin ins [] = []"
| "outside bgn fin ins (l # ls) =
     (if l = bgn then outside bgn fin True ls
      else if l = fin then outside bgn fin False ls
      else if ins then outside bgn fin ins ls else l # outside bgn fin ins ls)"

lemma outside_plain: "bgn \<notin> set xs \<Longrightarrow> fin \<notin> set xs \<Longrightarrow> outside bgn fin ins (xs @ ys) = (if ins then [] else xs) @ outside bgn fin ins ys"
  by (induction xs) auto

lemma outside_set: "l \<in> set (outside bgn fin ins ls) \<Longrightarrow> l \<in> set ls \<and> l \<noteq> bgn \<and> l \<noteq> fin"
  by (induction bgn fin ins ls rule: outside.induct) (auto split: if_splits)

lemma scan_kept: "kept (fold (mergeLine bgn fin) ls m) = kept m @ outside bgn fin (inBlock m) ls"
  by (induction ls arbitrary: m) (auto simp: mergeLine_def)

lemma scan_at:
  assumes "case blockAt m of None \<Rightarrow> True | Some p \<Rightarrow> p \<le> length (kept m)"
  shows "case blockAt (fold (mergeLine bgn fin) ls m) of None \<Rightarrow> True | Some p \<Rightarrow> p \<le> length (kept (fold (mergeLine bgn fin) ls m))"
  using assms
proof (induction ls arbitrary: m)
  case (Cons l ls)
  have "case blockAt (mergeLine bgn fin l m) of None \<Rightarrow> True | Some p \<Rightarrow> p \<le> length (kept (mergeLine bgn fin l m))"
    using Cons.prems by (cases "blockAt m") (auto simp: mergeLine_def)
  from Cons.IH [OF this] show ?case by (simp only: fold.simps comp_apply)
qed (simp only: fold.simps id_apply)

lemma scan_stays: "blockAt m = Some p \<Longrightarrow> blockAt (fold (mergeLine bgn fin) ls m) = Some p"
  by (induction ls arbitrary: m) (auto simp: mergeLine_def)

lemma scan_had: "hadBlock m \<or> bgn \<in> set ls \<Longrightarrow> hadBlock (fold (mergeLine bgn fin) ls m)"
  by (induction ls arbitrary: m) (auto simp: mergeLine_def)

lemma scan_unmarked: "bgn \<notin> set pre \<Longrightarrow> fin \<notin> set pre \<Longrightarrow> \<not> inBlock m \<Longrightarrow> fold (mergeLine bgn fin) pre m = m\<lparr>kept := kept m @ pre\<rparr>"
  by (induction pre arbitrary: m) (auto simp: mergeLine_def)

lemma fileLines_no_lf: "l \<in> set (fileLines cur) \<Longrightarrow> CHR 0x0A \<notin> set l"
  using SplitByte_no_sep by (auto simp: fileLines_def Let_def split: if_splits)

lemma fileLines_Join:
  assumes "x \<in> set xs" "x \<noteq> []" "\<forall>p \<in> set xs. CHR 0x0A \<notin> set p"
  shows "fileLines (Join xs lf @ lf) = xs"
proof -
  have ne: "xs \<noteq> []" using assms(1) by auto
  have "Join xs lf \<noteq> []"
  proof
    assume "Join xs lf = []"
    then have "SplitByte CHR 0x0A (Join xs lf) = [[]]" by simp
    then have "xs = [[]]" using SplitByte_Join [OF ne assms(3)] by (simp add: lf_def)
    then show False using assms(1,2) by simp
  qed
  then show ?thesis using SplitByte_Join [OF ne assms(3)] by (simp add: fileLines_def Let_def lf_def)
qed

lemma block_lines:
  assumes "bgn \<noteq> fin" "bgn \<notin> set pre \<union> set ls" "fin \<notin> set pre \<union> set ls"
  shows "outside bgn fin False (pre @ bgn # ls @ fin # post) = pre @ outside bgn fin False post"
    "blockAt (scanBlock bgn fin (pre @ bgn # ys)) = Some (length pre)" "hadBlock (scanBlock bgn fin (pre @ bgn # ys))"
proof -
  show "outside bgn fin False (pre @ bgn # ls @ fin # post) = pre @ outside bgn fin False post"
    using assms by (auto simp: outside_plain)
  have "mergeLine bgn fin bgn \<lparr>kept = pre, blockAt = None, inBlock = False, hadBlock = False\<rparr> =
    \<lparr>kept = pre, blockAt = Some (length pre), inBlock = True, hadBlock = True\<rparr>" by (simp add: mergeLine_def)
  then show "blockAt (scanBlock bgn fin (pre @ bgn # ys)) = Some (length pre)"
    using assms by (simp add: scanBlock_def scan_unmarked scan_stays)
  show "hadBlock (scanBlock bgn fin (pre @ bgn # ys))" unfolding scanBlock_def by (rule scan_had) simp
qed

lemma merge_out:
  assumes "ls \<noteq> []"
  obtains pre post where "mergeManaged cur bgn fin ls = (Join (pre @ bgn # ls @ fin # post) lf @ lf, True)"
    "pre @ post = outside bgn fin False (fileLines cur)"
    "blockAt (scanBlock bgn fin (fileLines cur)) = Some n \<Longrightarrow> length pre = n"
proof -
  let ?m = "scanBlock bgn fin (fileLines cur)"
  let ?at = "case blockAt ?m of None \<Rightarrow> length (kept ?m) | Some p \<Rightarrow> p"
  have k: "kept ?m = outside bgn fin False (fileLines cur)" by (simp add: scanBlock_def scan_kept)
  have le: "case blockAt ?m of None \<Rightarrow> True | Some p \<Rightarrow> p \<le> length (kept ?m)" unfolding scanBlock_def by (rule scan_at) simp
  have "mergeManaged cur bgn fin ls = (Join (take ?at (kept ?m) @ bgn # ls @ fin # drop ?at (kept ?m)) lf @ lf, True)"
    using assms by (simp add: mergeManaged_def Let_def)
  moreover have "length (take ?at (kept ?m)) = n" if "blockAt ?m = Some n" using that le by simp
  ultimately show ?thesis using that k by (metis append_take_drop_id)
qed

text \<open>
  C23. Writing a managed block (the crontab, the authorized keys) leaves the rest of the file alone: the new file is the
  lines that were outside the block, in their order, with the block somewhere between them, and writing the same block
  again changes nothing. This holds for every file, also with a damaged block: an unclosed one, several, a stray end.
\<close>

theorem managed_block:
  assumes m: "bgn \<noteq> []" "bgn \<noteq> fin" "CHR 0x0A \<notin> set bgn" "CHR 0x0A \<notin> set fin"
    and ls: "ls \<noteq> []" "\<forall>l \<in> set ls. l \<noteq> bgn \<and> l \<noteq> fin \<and> CHR 0x0A \<notin> set l"
    and r: "mergeManaged cur bgn fin ls = (out, w)"
  shows "w \<and> (\<exists>pre post. fileLines out = pre @ bgn # ls @ fin # post \<and> pre @ post = outside bgn fin False (fileLines cur))
    \<and> outside bgn fin False (fileLines out) = outside bgn fin False (fileLines cur) \<and> mergeManaged out bgn fin ls = (out, True)"
proof -
  obtain pre post where o: "mergeManaged cur bgn fin ls = (Join (pre @ bgn # ls @ fin # post) lf @ lf, True)"
    and k: "pre @ post = outside bgn fin False (fileLines cur)"
    using merge_out [OF ls(1)] by metis
  have out: "out = Join (pre @ bgn # ls @ fin # post) lf @ lf" "w" using o r by simp_all
  have pp: "l \<noteq> bgn \<and> l \<noteq> fin \<and> CHR 0x0A \<notin> set l" if "l \<in> set pre \<union> set post" for l
    using outside_set [of l bgn fin False "fileLines cur"] fileLines_no_lf [of l cur] that k [symmetric] by auto
  have fl: "fileLines out = pre @ bgn # ls @ fin # post"
    unfolding out(1) by (rule fileLines_Join [of bgn]) (use m ls pp in auto)
  have ap: "bgn \<notin> set pre \<union> set ls" "fin \<notin> set pre \<union> set ls" using pp ls by blast+
  have "outside bgn fin False post = post" using outside_plain [of bgn post fin False "[]"] pp by auto
  then have os: "outside bgn fin False (fileLines out) = pre @ post" unfolding fl block_lines(1) [OF m(2) ap] by simp
  obtain pre' post' where o': "mergeManaged out bgn fin ls = (Join (pre' @ bgn # ls @ fin # post') lf @ lf, True)"
    "pre' @ post' = pre @ post" "length pre' = length pre"
    using merge_out [OF ls(1), of out bgn fin "length pre"] block_lines(2) [OF m(2) ap] os unfolding fl by metis
  then have "mergeManaged out bgn fin ls = (out, True)" using out(1) by (simp add: append_eq_append_conv)
  then show ?thesis using out(2) fl k os by metis
qed

theorem managed_block_witness:
  "mergeManaged (fst (mergeManaged (''a'' @ lf @ ''B'' @ lf @ ''x'' @ lf) ''B'' ''E'' [''y''])) ''B'' ''E'' [''y'']
     = (''a'' @ lf @ ''B'' @ lf @ ''y'' @ lf @ ''E'' @ lf, True)"
proof -
  have e: "mergeManaged (''a'' @ lf @ ''B'' @ lf @ ''x'' @ lf) ''B'' ''E'' [''y''] = (''a'' @ lf @ ''B'' @ lf @ ''y'' @ lf @ ''E'' @ lf, True)"
    by code_simp
  have "mergeManaged (''a'' @ lf @ ''B'' @ lf @ ''y'' @ lf @ ''E'' @ lf) ''B'' ''E'' [''y''] = (''a'' @ lf @ ''B'' @ lf @ ''y'' @ lf @ ''E'' @ lf, True)"
    using managed_block [OF _ _ _ _ _ _ e] by simp
  then show ?thesis unfolding e fst_conv .
qed

section \<open>Windows\<close>

lemma schedScan_iff:
  assumes "off \<noteq> []"
  shows "schedScan ss off wall m n \<longleftrightarrow> (\<exists>k < n. firedAt ss (wall (m + k)) = off \<and> (\<forall>j < k. firedAt ss (wall (m + j)) = []))"
proof (induction n arbitrary: m)
  case (Suc n)
  have e: "(\<exists>k < Suc n. P k) \<longleftrightarrow> P 0 \<or> (\<exists>k < n. P (Suc k))" for P by (auto simp: less_Suc_eq_0_disj)
  have a: "(\<forall>j < Suc k. Q j) \<longleftrightarrow> Q 0 \<and> (\<forall>j < k. Q (Suc j))" for Q k by (auto simp: less_Suc_eq_0_disj)
  show ?case unfolding e a using Suc [of "Suc m"] assms by (auto simp: Let_def)
qed simp


definition lab_nightly :: "Schedule list" where
  "lab_nightly =
     [\<lparr>scName = ''night'', scEnabled = None, scCron = ''0 23 * * *'', scAction = ''wifi-off'', scTarget = []\<rparr>,
      \<lparr>scName = ''day'', scEnabled = None, scCron = ''0 7 * * *'', scAction = ''wifi-on'', scTarget = []\<rparr>]"

definition lab_wall :: "nat \<Rightarrow> cronTime" where
  "lab_wall k = \<lparr>tMinute = 2 - int k, tHour = 23, tDay = 1, tMonth = 1, tWeekday = 1\<rparr>"


end
