(* ===== verification/Risk.thy ===== *)
theory Risk
  imports Confirm_Race Ip_Addr
begin

text \<open>
  The risk of a change, \<open>mr/risk.go\<close>: what the web UI keeps by itself and what waits for the administrator. The texts of
  reasons and effects are values of a datatype; \<open>changes\<close> are the lines of \<open>Config_Diff\<close>. \<open>revertNow\<close> and \<open>waitConfirm\<close>
  run on the world of \<open>Apply_World\<close>; the events the terminal and the clock deliver are a list.
  Shown: the level follows from the reasons and the services (\<open>risk_levels\<close>); a difference inside a section that is
  in both configs is always rated high where the section is one of those the comment names (\<open>risk_sections\<close>); a section
  that appears or disappears as a whole is not (\<open>risk_guard_dropped\<close>): a change that removes the guard is rated low.
\<close>

section \<open>Classification\<close>

datatype riskReason =
    GuardTouched | LANTouched | WANTouched | WANRedials string | InboundTouched | EdgeTouched
  | OwnTailscale | OwnWiFi string | OwnWAN string | OwnSSH | UnknownChange

datatype riskEffect =
    EWiFi | ERedial string | EReaddress | EDNS | EProxy | ETailscale | ESSH | EPanel | EEdge | ENetwork | EParams
  | ERestart string | EStop string | EFirewall

record riskInfo =
  Level :: string
  Reasons :: "riskReason list"
  Effects :: "riskEffect list"

record adminPath =
  apAddr :: string
  apDev :: string
  apPort :: string

text \<open>
  \<open>findAdminPath\<close>: \<open>route\<close> is the output of \<open>ip route get\<close>, \<open>bridge\<close> says whether the device is a bridge, \<open>neigh\<close> and
  \<open>fdb\<close> are the outputs of \<open>ip neigh show\<close> and \<open>bridge fdb show\<close>; \<open>None\<close> is a command that failed.
\<close>

fun after_word :: "string \<Rightarrow> string list \<Rightarrow> string list" where
  "after_word w (x # y # ys) = (if x = w then y # after_word w (y # ys) else after_word w (y # ys))"
| "after_word w xs = []"

definition portOf :: "string \<Rightarrow> string \<Rightarrow> string option" where
  "portOf mac l =
     (case Fields l of m # d # p # _ \<Rightarrow> if ToLower m = ToLower mac \<and> d = ''dev'' then Some p else None | _ \<Rightarrow> None)"

definition fdbPort :: "string \<Rightarrow> string \<Rightarrow> string option" where
  "fdbPort fdb mac = (case List.map_filter (portOf mac) (SplitByte CHR 0x0A fdb) of [] \<Rightarrow> None | p # _ \<Rightarrow> Some p)"

definition findAdminPath ::
  "(string \<Rightarrow> string option) \<Rightarrow> (string \<Rightarrow> bool) \<Rightarrow> (string \<Rightarrow> string \<Rightarrow> string option) \<Rightarrow> (string \<Rightarrow> string option) \<Rightarrow> string \<Rightarrow> adminPath" where
  "findAdminPath route bridge neigh fdb remote =
     (let addr = normalizeRemoteAddr remote; a = \<lparr>apAddr = addr, apDev = [], apPort = []\<rparr>;
          routeAddr = fst (CutByte CHR ''%'' addr) in
      if addr = [] then a
      else (case route routeAddr of
              None \<Rightarrow> a
            | Some out \<Rightarrow>
                (let dev = (case after_word ''dev'' (Fields out) of [] \<Rightarrow> [] | d # _ \<Rightarrow> d);
                     macs = (if bridge dev then (case neigh routeAddr dev of None \<Rightarrow> [] | Some n \<Rightarrow> after_word ''lladdr'' (Fields n)) else []);
                     ports = List.map_filter (\<lambda>m. case fdb dev of None \<Rightarrow> None | Some f \<Rightarrow> fdbPort f m) macs
                 in a\<lparr>apDev := dev, apPort := (if ports = [] then [] else last ports)\<rparr>)))"

definition serviceEffect :: "string \<Rightarrow> riskEffect" where
  "serviceEffect s =
     (if s = ''mr-hostapd'' then EWiFi
      else if HasPrefix s ''mr-pppoe.'' then ERedial (TrimPrefix s ''mr-pppoe.'')
      else if HasPrefix s ''mr-udhcpc.'' \<or> s = ''mr-dhcpcd'' then EReaddress
      else if s = ''dnsmasq'' \<or> s = ''mr-parental-dns'' then EDNS
      else if s = ''mr-proxy'' \<or> s = ''mr-proxy-dns'' then EProxy
      else if s = ''tailscale'' then ETailscale
      else if s = ''dropbear'' then ESSH
      else if s = ''mr-panel'' then EPanel
      else if s = ''mr-edge'' then EEdge
      else if s = ''mr-network'' then ENetwork
      else if s = ''hostname'' \<or> s = ''sysctl'' then EParams
      else ERestart s)"

definition touchedLine :: "string \<Rightarrow> string \<Rightarrow> bool" where
  "touchedLine pre l \<longleftrightarrow>
     length l > 2 \<and> (HasPrefix (drop 2 l) (pre @ ''.'') \<or> HasPrefix (drop 2 l) (pre @ ''['') \<or> HasPrefix (drop 2 l) (pre @ '':''))"

definition touched :: "string list \<Rightarrow> string \<Rightarrow> bool" where
  "touched changes pre \<longleftrightarrow> list_ex (touchedLine pre) changes"

definition redialing :: "string \<Rightarrow> bool" where
  "redialing s \<longleftrightarrow> HasPrefix s ''mr-pppoe.'' \<or> HasPrefix s ''mr-udhcpc.'' \<or> s = ''mr-dhcpcd''"

text \<open>The reasons in the order of the source, before \<open>dedup\<close>.\<close>

definition sectionReasons :: "Plan \<Rightarrow> string list \<Rightarrow> riskReason list" where
  "sectionReasons p changes =
     (let t = touched changes in
      (if t ''guard'' then [GuardTouched] else [])
      @ (if t ''lan'' \<or> t ''networks'' then [LANTouched] else [])
      @ (if t ''wan'' \<or> t ''multiwan'' \<or> t ''policy_routes'' then [WANTouched] else [])
      @ (case find redialing (PServices p) of None \<Rightarrow> [] | Some s \<Rightarrow> [WANRedials s])
      @ (if t ''firewall.open'' \<or> t ''services.ssh'' \<or> t ''services.panel'' \<or> t ''services.tailscale'' then [InboundTouched] else [])
      @ (if t ''services.edge'' then [EdgeTouched] else []))"

definition ownReasons :: "bool \<Rightarrow> Plan \<Rightarrow> adminPath \<Rightarrow> riskReason list" where
  "ownReasons ssh p admin =
     (let restarts = set (PServices p @ Enable p @ Disable p) in
      (if apDev admin = ''tailscale0'' \<and> ''tailscale'' \<in> restarts then [OwnTailscale]
       else if HasPrefix (apPort admin) ''phy'' \<and> ''mr-hostapd'' \<in> restarts then [OwnWiFi (apPort admin)]
       else if HasPrefix (apDev admin) ''pppoe-'' \<and> ''mr-pppoe.'' @ TrimPrefix (apDev admin) ''pppoe-'' \<in> restarts then [OwnWAN (apDev admin)]
       else [])
      @ (if ssh \<and> ''dropbear'' \<in> restarts then [OwnSSH] else []))"

definition classifyRisk :: "bool \<Rightarrow> Plan \<Rightarrow> string list \<Rightarrow> adminPath \<Rightarrow> riskInfo" where
  "classifyRisk ssh p changes admin =
     (let svcs = dedup (PServices p @ Enable p); rs = sectionReasons p changes @ ownReasons ssh p admin in
      \<lparr>Level = (if rs \<noteq> [] then ''high'' else if svcs \<noteq> [] \<or> Disable p \<noteq> [] then ''medium'' else ''low''),
       Reasons = dedup rs, Effects = map serviceEffect svcs @ map EStop (Disable p) @ (if Firewall p then [EFirewall] else [])\<rparr>)"

text \<open>\<open>changesSinceApplied\<close> is \<open>None\<close> where the applied config is not on record.\<close>

definition planRisk :: "bool \<Rightarrow> Plan \<Rightarrow> string list option \<Rightarrow> adminPath \<Rightarrow> riskInfo" where
  "planRisk ssh p known admin =
     (case known of
        Some changes \<Rightarrow> classifyRisk ssh p changes admin
      | None \<Rightarrow> (let r = classifyRisk ssh p [] admin in r\<lparr>Level := ''high'', Reasons := Reasons r @ [UnknownChange]\<rparr>))"

section \<open>Waiting at the terminal\<close>

datatype waitEvent = Typed string | SessionEnd | Tick int

datatype waitEnd = Keep | GiveUp

text \<open>The loop: the first event that decides; the end of the input arrives as a line that is no answer.\<close>

fun waitLoop :: "waitEvent list \<Rightarrow> waitEnd option" where
  "waitLoop [] = None"
| "waitLoop (Typed s # es) = (let t = ToLower (TrimSpace s) in Some (if t = ''y'' \<or> t = ''yes'' then Keep else GiveUp))"
| "waitLoop (SessionEnd # es) = Some GiveUp"
| "waitLoop (Tick secs # es) = (if secs \<le> 0 then Some GiveUp else waitLoop es)"

definition revertNow :: "env \<Rightarrow> string \<Rightarrow> applyError option prog" where
  "revertNow e why = do {
     r \<leftarrow> startRevert e [];
     (case r of None \<Rightarrow> ret None | Some p \<Rightarrow> do { x \<leftarrow> rollback e (pSnapshot p) why; ret (Some x) }) }"

datatype waitResult = NothingPending | Unreadable | StillWaiting | Kept "confirmError + bool" | RolledBack "applyError option"

definition waitConfirm :: "env \<Rightarrow> waitEvent list \<Rightarrow> waitResult prog" where
  "waitConfirm e evs = do {
     r \<leftarrow> peek readPending;
     (case r of
        None \<Rightarrow> ret NothingPending
      | Some None \<Rightarrow> ret Unreadable
      | Some (Some p) \<Rightarrow>
          if pState p \<noteq> statePending then ret NothingPending
          else (case waitLoop evs of
                  None \<Rightarrow> ret StillWaiting
                | Some Keep \<Rightarrow> do { c \<leftarrow> confirm e; ret (Kept c) }
                | Some GiveUp \<Rightarrow> do { x \<leftarrow> revertNow e ''not kept''; ret (RolledBack x) })) }"

section \<open>Levels\<close>

lemma dedup_Nil [simp]: "dedup xs = [] \<longleftrightarrow> xs = []"
  using set_dedup [of xs] by (metis set_empty)

lemma if_chain_Nil:
  "(if A then [x] else if B then [y] else if C then [z] else []) @ (if D then [u] else []) = [] \<longleftrightarrow> \<not> A \<and> \<not> B \<and> \<not> C \<and> \<not> D"
  by simp

lemma own_restart:
  "ownReasons ssh p admin = [] \<longleftrightarrow>
     (let restarts = set (PServices p @ Enable p @ Disable p) in
      \<not> (apDev admin = ''tailscale0'' \<and> ''tailscale'' \<in> restarts) \<and> \<not> (HasPrefix (apPort admin) ''phy'' \<and> ''mr-hostapd'' \<in> restarts)
      \<and> \<not> (HasPrefix (apDev admin) ''pppoe-'' \<and> ''mr-pppoe.'' @ TrimPrefix (apDev admin) ''pppoe-'' \<in> restarts)
      \<and> \<not> (ssh \<and> ''dropbear'' \<in> restarts))"
  unfolding ownReasons_def Let_def by (rule if_chain_Nil)

section \<open>Sections\<close>

text \<open>A line about something below \<open>path\<close>.\<close>

definition below :: "string \<Rightarrow> string \<Rightarrow> bool" where
  "below path l \<longleftrightarrow> (\<exists>m s rest. l = m # s # path @ rest \<and> rest \<noteq> [] \<and> (hd rest = CHR ''.'' \<or> hd rest = CHR ''['' \<or> hd rest = CHR '':''))"

lemma below_touched: "below path l \<Longrightarrow> touchedLine path l"
  unfolding below_def touchedLine_def HasPrefix_iff by (auto simp: neq_Nil_conv)

lemma below_line [simp]:
  "below path (m # s # path @ CHR ''.'' # r)" "below path (m # s # path @ CHR ''['' # r)" "below path (m # s # path @ CHR '':'' # r)"
  unfolding below_def by (auto intro: exI)

lemma below_child:
  assumes "q = path @ ''.'' @ k \<or> q = path @ ''['' @ k" "below q l \<or> l = m # s # q"
  shows "below path l"
  using assms unfolding below_def by fastforce

definition shaped :: "string \<Rightarrow> node option \<Rightarrow> node option \<Rightarrow> string \<Rightarrow> bool" where
  "shaped path a b l \<longleftrightarrow> below path l \<or> (a = None \<and> l = ''+ '' @ path) \<or> (b = None \<and> l = ''- '' @ path)"

lemma shaped_child:
  assumes "q = path @ ''.'' @ k \<or> q = path @ ''['' @ k" "shaped q a b l"
  shows "below path l"
proof -
  have "below q l \<or> l = CHR ''+'' # CHR '' '' # q \<or> l = CHR ''-'' # CHR '' '' # q" using assms(2) by (auto simp: shaped_def)
  then show ?thesis using below_child [OF assms(1)] by blast
qed

lemma diffNode_maps:
  assumes "\<not> nodeEqual (Map t es) (Map t' fs)"
  shows "diffNode path (Some (Map t es)) (Some (Map t' fs)) =
    concat (map (\<lambda>(k, v). diffNode (joinPath path (kval k)) (mapIndex (Map t es) (kval k)) (Some v)) fs)
    @ concat (map (\<lambda>(k, v). if mapIndex (Map t' fs) (kval k) = None then diffNode (joinPath path (kval k)) (Some v) None else []) es)"
  by (subst diffNode.simps) (simp only: prod.case option.case node.case assms if_False)

lemma diffNode_seqs:
  assumes "\<not> nodeEqual (Seq t xs) (Seq t' ys)"
  shows "diffNode path (Some (Seq t xs)) (Some (Seq t' ys)) =
    (let x = Seq t xs; y = Seq t' ys; i = listID x y; bo = map (keyval i) ys in
     if isInline x \<and> isInline y then [''~ '' @ path @ '': '' @ short x @ arrow @ short y]
     else if i \<noteq> [] then
       concat (map (\<lambda>it. diffNode (path @ ''['' @ keyval i it @ '']'') (itemIndex i xs (keyval i it)) (Some it)) ys)
       @ concat (map (\<lambda>it. if keyval i it \<in> set bo then [] else diffNode (path @ ''['' @ keyval i it @ '']'') (Some it) None) xs)
       @ orderLine path (map (keyval i) (filter (\<lambda>it. keyval i it \<in> set bo) xs)) bo
     else concat (map (\<lambda>j. diffNode (path @ ''['' @ Itoa_nat j @ '']'') (nth_opt xs j) (nth_opt ys j)) [0..<max (length xs) (length ys)]))"
  by (subst diffNode.simps) (simp only: prod.case option.case node.case assms if_False Let_def)

lemma diff_shape: "path \<noteq> [] \<Longrightarrow> l \<in> set (diffNode path a b) \<Longrightarrow> shaped path a b l"
proof (induction "osize a + osize b" arbitrary: path a b l rule: less_induct)
  case less
  note l = less.prems(2)
  have child: "below path l" if "osize a' + osize b' < osize a + osize b" "q = path @ ''.'' @ k \<or> q = path @ ''['' @ k" "l \<in> set (diffNode q a' b')" for a' b' q k
    using shaped_child [OF that(2) less.hyps [OF that(1) _ that(3)]] that(2) by auto
  show ?case
  proof (cases "a = None \<or> b = None")
    case True
    then show ?thesis using l by (cases a; cases b) (auto simp: diffNode.simps [of path] shaped_def split: if_splits)
  next
    case False
    then obtain x y where ab: "a = Some x" "b = Some y" by auto
    have ne: "\<not> nodeEqual x y" using l by (auto simp: ab diffNode.simps [of path])
    have jp: "joinPath path k = path @ ''.'' @ k" for k using less.prems(1) by (simp add: joinPath_def)
    consider (maps) t es t' fs where "x = Map t es" "y = Map t' fs" | (seqs) t xs t' ys where "x = Seq t xs" "y = Seq t' ys"
      | (other) "\<not> (isMap x \<and> isMap y)" "\<not> (isSeq x \<and> isSeq y)"
      by (cases x; cases y) auto
    then have "below path l"
    proof cases
      case maps
      have "l \<in> set (concat (map (\<lambda>(k, v). diffNode (joinPath path (kval k)) (mapIndex x (kval k)) (Some v)) fs))
        \<or> l \<in> set (concat (map (\<lambda>(k, v). if mapIndex y (kval k) = None then diffNode (joinPath path (kval k)) (Some v) None else []) es))"
        using l diffNode_maps [OF ne [unfolded maps], of path] by (simp only: ab maps set_append Un_iff)
      then show ?thesis
      proof
        assume "l \<in> set (concat (map (\<lambda>(k, v). diffNode (joinPath path (kval k)) (mapIndex x (kval k)) (Some v)) fs))"
        then obtain k v where kv: "(k, v) \<in> set fs" "l \<in> set (diffNode (path @ ''.'' @ kval k) (mapIndex x (kval k)) (Some v))" by (auto simp: jp)
        have "osize (mapIndex x (kval k)) + osize (Some v) < osize a + osize b"
          using osize_mapIndex [of t es "kval k"] size_entry [OF kv(1), of t'] by (simp add: ab maps)
        from child [OF this disjI1 [OF refl] kv(2)] show ?thesis .
      next
        assume "l \<in> set (concat (map (\<lambda>(k, v). if mapIndex y (kval k) = None then diffNode (joinPath path (kval k)) (Some v) None else []) es))"
        then obtain k v where kv: "(k, v) \<in> set es" "l \<in> set (diffNode (path @ ''.'' @ kval k) (Some v) None)" by (auto simp: jp split: if_splits)
        have "osize (Some v) + osize None < osize a + osize b" using size_entry [OF kv(1), of t] by (simp add: ab maps)
        from child [OF this disjI1 [OF refl] kv(2)] show ?thesis .
      qed
    next
      case seqs
      let ?i = "listID x y"
      consider "l = ''~ '' @ path @ '': '' @ short x @ arrow @ short y"
        | it where "it \<in> set ys" "l \<in> set (diffNode (path @ ''['' @ keyval ?i it @ '']'') (itemIndex ?i xs (keyval ?i it)) (Some it))"
        | it where "it \<in> set xs" "l \<in> set (diffNode (path @ ''['' @ keyval ?i it @ '']'') (Some it) None)"
        | ao bo where "l \<in> set (orderLine path ao bo)"
        | j where "l \<in> set (diffNode (path @ ''['' @ Itoa_nat j @ '']'') (nth_opt xs j) (nth_opt ys j))"
        using l diffNode_seqs [OF ne [unfolded seqs], of path] by (fastforce simp: ab seqs Let_def split: if_splits)
      then show ?thesis
      proof cases
        case (2 it)
        have "osize (itemIndex ?i xs (keyval ?i it)) + osize (Some it) < osize a + osize b"
          using osize_itemIndex [of ?i xs "keyval ?i it" t] size_item [OF 2(1), of t'] by (simp add: ab seqs)
        from child [OF this disjI2 [OF refl] 2(2)] show ?thesis .
      next
        case (3 it)
        have "osize (Some it) + osize None < osize a + osize b" using size_item [OF 3(1), of t] by (simp add: ab seqs)
        from child [OF this disjI2 [OF refl] 3(2)] show ?thesis .
      next
        case (5 j)
        have "osize (nth_opt xs j) + osize (nth_opt ys j) < osize a + osize b"
          using osize_nth [of xs j t] osize_nth [of ys j t'] by (simp add: ab seqs)
        from child [OF this disjI2 [OF refl] 5] show ?thesis .
      qed (auto simp: orderLine_def split: if_splits)
    next
      case other
      have "diffNode path (Some x) (Some y) = [''~ '' @ path @ '': '' @ short x @ arrow @ short y]"
        by (subst diffNode.simps) (use ne other in \<open>auto split: node.splits\<close>)
      then show ?thesis using l ab by simp
    qed
    then show ?thesis by (simp add: shaped_def)
  qed
qed

text \<open>The node under a chain of keys, and the path its lines have.\<close>

fun sectionAt :: "string list \<Rightarrow> node \<Rightarrow> node option" where
  "sectionAt [] n = Some n"
| "sectionAt (k # ks) n = (case n of Map t es \<Rightarrow> Option.bind (mapIndex n k) (sectionAt ks) | _ \<Rightarrow> None)"

fun sectionPath :: "string \<Rightarrow> string list \<Rightarrow> string" where
  "sectionPath p [] = p"
| "sectionPath p (k # ks) = sectionPath (joinPath p k) ks"

lemma mapIndex_entry: "mapIndex (Map t es) k = Some v \<Longrightarrow> \<exists>kk. (kk, v) \<in> set es \<and> kval kk = k"
  by (auto dest!: mapIndex_SomeD)

lemma section_canonical: "sectionAt ks a = Some x \<Longrightarrow> canonical a \<Longrightarrow> canonical x"
proof (induction ks arbitrary: a)
  case (Cons k ks)
  obtain t es a' where a: "a = Map t es" "mapIndex a k = Some a'" "sectionAt ks a' = Some x"
    using Cons.prems(1) by (auto split: node.splits bind_splits)
  have "canonical a'" using ok_mapIndex [of t es k] Cons.prems(2) a by simp
  then show ?case using Cons.IH a(3) by blast
qed simp

lemma section_lines:
  assumes "sectionAt ks a = Some x" "sectionAt ks b = Some y" "canonical a" "canonical b" "\<not> same x y"
  shows "set (diffNode (sectionPath path ks) (Some x) (Some y)) \<subseteq> set (diffNode path (Some a) (Some b)) \<and> \<not> same a b"
  using assms(1-4)
proof (induction ks arbitrary: path a b)
  case Nil
  then show ?case using assms(5) by simp
next
  case (Cons k ks)
  obtain t es a' where a: "a = Map t es" "mapIndex a k = Some a'" "sectionAt ks a' = Some x"
    using Cons.prems(1) by (auto split: node.splits bind_splits)
  obtain t' fs b' where b: "b = Map t' fs" "mapIndex b k = Some b'" "sectionAt ks b' = Some y"
    using Cons.prems(2) by (auto split: node.splits bind_splits)
  have c: "canonical a'" "canonical b'" using ok_mapIndex [of t es k] ok_mapIndex [of t' fs k] Cons.prems(3,4) a b by simp_all
  have IH: "set (diffNode (sectionPath path (k # ks)) (Some x) (Some y)) \<subseteq> set (diffNode (joinPath path k) (Some a') (Some b'))" "\<not> same a' b'"
    using Cons.IH [OF a(3) b(3) c] by simp_all
  have ns: "\<not> same a b"
  proof
    assume "same a b"
    then have "rel_option same (mapIndex a k) (mapIndex b k)" using a(1) b(1) by simp
    then show False using a(2) b(2) IH(2) by simp
  qed
  then have "diffNode path (Some a) (Some b) \<noteq> []" using diff_iff_same [of "Some a" "Some b" path] Cons.prems(3,4) by simp
  then have "\<not> nodeEqual a b" by (auto simp: diffNode.simps [of path])
  note eq = diffNode_maps [OF this [unfolded a(1) b(1)], of path, folded a(1) b(1)]
  obtain kk where kk: "(kk, b') \<in> set fs" "kval kk = k" using mapIndex_entry b(1,2) by blast
  then have "set (diffNode (joinPath path k) (Some a') (Some b')) \<subseteq> set (diffNode path (Some a) (Some b))"
    unfolding eq using a(2) by force
  then show ?case using IH(1) ns by blast
qed

lemma section_touched:
  assumes "sectionAt ks a = Some x" "sectionAt ks b = Some y" "canonical a" "canonical b" "\<not> same x y" "sectionPath [] ks \<noteq> []"
  shows "touched (configChanges a b @ rest) (sectionPath [] ks)"
proof -
  have sub: "set (diffNode (sectionPath [] ks) (Some x) (Some y)) \<subseteq> set (configChanges a b)"
    using section_lines [OF assms(1-5)] by (simp add: configChanges_def)
  have "canonical x" "canonical y" using section_canonical assms(1-4) by blast+
  then have "diffNode (sectionPath [] ks) (Some x) (Some y) \<noteq> []" using diff_iff_same [of "Some x" "Some y"] assms(5) by simp
  then obtain l where "l \<in> set (diffNode (sectionPath [] ks) (Some x) (Some y))" by (cases "diffNode (sectionPath [] ks) (Some x) (Some y)") auto
  then show ?thesis using diff_shape [OF assms(6)] sub below_touched by (fastforce simp: shaped_def touched_def list_ex_iff)
qed

text \<open>
  The level is what the reasons and the services say: high exactly when there is a reason, otherwise medium exactly
  when a service is restarted, enabled or stopped, and low means that none is. A change that is not high restarts nothing
  on the administrator's own way to the router: not Tailscale for a session over it, not WiFi for a client on a radio, not
  the dial-up for one from that WAN, not SSH for a shell. An unknown applied config is always high.
\<close>

theorem risk_levels:
  assumes "r = classifyRisk ssh p changes admin" "restarts = set (PServices p @ Enable p @ Disable p)"
  shows "Level r = (if Reasons r \<noteq> [] then ''high'' else if restarts \<noteq> {} then ''medium'' else ''low'')
    \<and> (Level r \<noteq> ''high'' \<longrightarrow>
        \<not> (apDev admin = ''tailscale0'' \<and> ''tailscale'' \<in> restarts) \<and> \<not> (HasPrefix (apPort admin) ''phy'' \<and> ''mr-hostapd'' \<in> restarts)
        \<and> \<not> (HasPrefix (apDev admin) ''pppoe-'' \<and> ''mr-pppoe.'' @ TrimPrefix (apDev admin) ''pppoe-'' \<in> restarts)
        \<and> \<not> (ssh \<and> ''dropbear'' \<in> restarts) \<and> (\<forall>s \<in> set (PServices p). \<not> redialing s))
    \<and> Level (planRisk ssh p None admin) = ''high''"
proof -
  let ?rs = "sectionReasons p changes @ ownReasons ssh p admin"
  have n: "Reasons r = [] \<longleftrightarrow> ?rs = []" by (simp add: assms(1) classifyRisk_def Let_def)
  have l: "Level r = (if ?rs \<noteq> [] then ''high'' else if restarts \<noteq> {} then ''medium'' else ''low'')"
    by (simp add: assms classifyRisk_def Let_def)
  have "\<forall>s \<in> set (PServices p). \<not> redialing s" if "?rs = []"
    using that by (auto simp: sectionReasons_def Let_def find_None_iff split: option.splits)
  moreover have "''medium'' \<noteq> ''high''" "''low'' \<noteq> ''high''" by simp_all
  ultimately show ?thesis unfolding n l using own_restart [of ssh p admin] assms(2)
    by (simp add: planRisk_def Let_def split: if_splits)
qed

definition riskSections :: "string list list" where
  "riskSections = [[''guard''], [''lan''], [''networks''], [''wan''], [''multiwan''], [''policy_routes''], [''firewall'', ''open''],
     [''services'', ''ssh''], [''services'', ''panel''], [''services'', ''tailscale''], [''services'', ''edge'']]"

lemma touched_high:
  assumes "ks \<in> set riskSections" "touched changes (sectionPath [] ks)"
  shows "Level (classifyRisk ssh p changes admin) = ''high''"
proof -
  have "sectionReasons p changes \<noteq> []"
    using assms by (auto simp: riskSections_def sectionReasons_def joinPath_def Let_def)
  then show ?thesis by (simp add: classifyRisk_def Let_def)
qed

text \<open>
  C26. A change inside a sensitive section never slips through as low or medium: where both configs have the section and it
  holds different settings, the change is rated high, whatever else the plan does. The sections are the guard, the LAN and
  its networks, the WANs with multi-WAN and policy routes, the open ports, SSH, the web UI, Tailscale and the HTTPS proxy.
\<close>

theorem risk_sections:
  assumes "canonical a" "canonical b" "ks \<in> set riskSections" "sectionAt ks a = Some x" "sectionAt ks b = Some y" "\<not> same x y"
  shows "Level (classifyRisk ssh p (configChanges a b @ secrets) admin) = ''high''"
proof -
  have "list_all (\<lambda>ks. sectionPath [] ks \<noteq> []) riskSections" by code_simp
  then have "sectionPath [] ks \<noteq> []" using assms(3) by (simp add: list_all_iff)
  then show ?thesis using touched_high [OF assms(3)] section_touched [OF assms(4,5,1,2,6)] by blast
qed

definition lab_str :: "string \<Rightarrow> node" where "lab_str s = Scalar ''!!str'' Plain s"

definition lab_tree :: "(node \<times> node) list \<Rightarrow> node" where
  "lab_tree es = Map ''!!map'' (es @ [(lab_str ''mode'', lab_str ''router'')])"

definition lab_guardsec :: "string \<Rightarrow> node" where
  "lab_guardsec o' = Map ''!!map'' [(lab_str ''never_expose'', Seq ''!!seq'' [lab_str ''ssh'']), (lab_str ''offload'', lab_str o')]"

definition no_plan :: Plan where
  "no_plan = \<lparr>Changed = [], Remove = [], PServices = [], Firewall = True, Enable = [], Disable = []\<rparr>"

definition no_admin :: adminPath where
  "no_admin = \<lparr>apAddr = [], apDev = [], apPort = []\<rparr>"

theorem risk_levels_witness:
  "Level (classifyRisk False (no_plan\<lparr>PServices := [''mr-hostapd'']\<rparr>) [] (no_admin\<lparr>apPort := ''lan2''\<rparr>)) = ''medium''
   \<and> Level (planRisk False no_plan None no_admin) = ''high''"
proof -
  have "Reasons (classifyRisk False (no_plan\<lparr>PServices := [''mr-hostapd'']\<rparr>) [] (no_admin\<lparr>apPort := ''lan2''\<rparr>)) = []" by code_simp
  then show ?thesis
    using risk_levels [OF refl refl, of False "no_plan\<lparr>PServices := [''mr-hostapd'']\<rparr>" "[]" "no_admin\<lparr>apPort := ''lan2''\<rparr>"]
      risk_levels [OF refl refl, of False no_plan "[]" no_admin]
    by (simp add: no_plan_def)
qed

theorem risk_sections_witness:
  "Level (classifyRisk False no_plan (configChanges (lab_tree [(lab_str ''guard'', lab_guardsec ''hardware'')]) (lab_tree [(lab_str ''guard'', lab_guardsec ''off'')])) no_admin)
     = ''high''"
proof -
  let ?a = "lab_tree [(lab_str ''guard'', lab_guardsec ''hardware'')]" and ?b = "lab_tree [(lab_str ''guard'', lab_guardsec ''off'')]"
  have c: "canonical ?a" "canonical ?b" by code_simp+
  have k: "[''guard''] \<in> set riskSections" by (simp add: riskSections_def)
  have s: "sectionAt [''guard''] ?a = Some (lab_guardsec ''hardware'')" "sectionAt [''guard''] ?b = Some (lab_guardsec ''off'')" by code_simp+
  have "configChanges (lab_guardsec ''hardware'') (lab_guardsec ''off'') \<noteq> []" by code_simp
  moreover have "canonical (lab_guardsec ''hardware'')" "canonical (lab_guardsec ''off'')" by code_simp+
  ultimately have "\<not> same (lab_guardsec ''hardware'') (lab_guardsec ''off'')"
    using diff_iff_same [of "Some (lab_guardsec ''hardware'')" "Some (lab_guardsec ''off'')" "[]"] by (simp add: configChanges_def)
  from risk_sections [OF c k s this, of False no_plan "[]" no_admin] show ?thesis by simp
qed


end
