(* ===== verification/Devices.thy ===== *)
theory Devices
  imports Fw_Input
begin

text \<open>
  The device inventory, \<open>mr/mod_dev.go\<close>: its validation with the limits of \<open>mr/mod_dev_limit.go\<close>, the \<open>dhcp-host\<close>
  lines it becomes, and the watch of \<open>mr/mod_dev_watch.go\<close>. The Go maps the validation fills are association lists.
  Shown: in a validated inventory a name, a MAC and an address belong to one device and every reference resolves to its
  MACs (\<open>inventory_unambiguous\<close>); the events of a watched device alternate, an offline event comes only after ten minutes
  without the device, and none comes in the first ten minutes (\<open>watch_events\<close>).
\<close>

section \<open>Validation\<close>

datatype dev_problem =
    TooManyDevices | DevName string string | DevDupName string string | DevHostName string string
  | DevMACCount string | DevBadMAC string string | DevMulticast string string | DevMACTaken string string string | DevMACHost string string
  | DevIP string string string | DevIPTaken string string string | DevIPHost string string
  | DevType string string | DevOwner string | DevDesc string | DevLimits string
  | TooManyGroups | GroupName string | GroupSize string | GroupUnknown string string | GroupDup string string

definition devMax :: nat where "devMax = 256"
definition devMaxMACs :: nat where "devMaxMACs = 8"
definition devGroupMax :: nat where "devGroupMax = 32"
definition devLimitMax :: int where "devLimitMax = 10000"

record devSeen =
  seenNames :: "string list"
  seenMACs :: "(string \<times> string) list"
  seenIPs :: "(string \<times> string) list"

text \<open>A Go map from strings to strings: a missing key reads as the empty string.\<close>

definition strAt :: "(string \<times> string) list \<Rightarrow> string \<Rightarrow> string" where
  "strAt m k = (case map_of m k of None \<Rightarrow> [] | Some v \<Rightarrow> v)"

definition hostNamed :: "'c FwConfig_scheme \<Rightarrow> string \<Rightarrow> bool" where
  "hostNamed c n \<longleftrightarrow> list_ex (\<lambda>h. hName h \<noteq> [] \<and> ToLower (hName h) = n) (Hosts c)"

definition hostHasMAC :: "'c FwConfig_scheme \<Rightarrow> string \<Rightarrow> bool" where
  "hostHasMAC c l \<longleftrightarrow> list_ex (\<lambda>h. ToLower (hMAC h) = l) (Hosts c)"

definition hostHasIP :: "'c FwConfig_scheme \<Rightarrow> string \<Rightarrow> bool" where
  "hostHasIP c ip \<longleftrightarrow> list_ex (\<lambda>h. hIP h = ip) (Hosts c)"

fun checkDevMACs :: "'c FwConfig_scheme \<Rightarrow> string \<Rightarrow> string \<Rightarrow> (string \<times> string) list \<Rightarrow> string list
    \<Rightarrow> dev_problem list \<times> (string \<times> string) list" where
  "checkDevMACs c p name seen [] = ([], seen)"
| "checkDevMACs c p name seen (m # ms) =
     (let l = ToLower m in
      case (if reMAC m then ParseMAC m else None) of
        None \<Rightarrow> (case checkDevMACs c p name seen ms of (es, seen') \<Rightarrow> (DevBadMAC p m # es, seen'))
      | Some hw \<Rightarrow>
          (let e = (if hw ! 0 AND 1 \<noteq> 0 then [DevMulticast p m]
                    else if strAt seen l \<noteq> [] then [DevMACTaken p m (strAt seen l)]
                    else if hostHasMAC c l then [DevMACHost p m] else [])
           in case checkDevMACs c p name ((l, name) # seen) ms of (es, seen') \<Rightarrow> (e @ es, seen')))"

definition checkDevName :: "'c FwConfig_scheme \<Rightarrow> string \<Rightarrow> string list \<Rightarrow> string \<Rightarrow> dev_problem list" where
  "checkDevName c p names n =
     (if \<not> reDevName n then [DevName p n] else if n \<in> set names then [DevDupName p n]
      else if hostNamed c n then [DevHostName p n] else [])"

definition checkDevIP :: "'c FwConfig_scheme \<Rightarrow> string \<Rightarrow> (string \<times> string) list \<Rightarrow> string \<Rightarrow> dev_problem list" where
  "checkDevIP c p ips ip =
     (if ip = [] then []
      else let e = fwCheckTarget c ip in
        if e \<noteq> [] then [DevIP p ip e] else if strAt ips ip \<noteq> [] then [DevIPTaken p ip (strAt ips ip)]
        else if hostHasIP c ip then [DevIPHost p ip] else [])"

definition devLimitValidate :: "string \<Rightarrow> (int \<times> int) option \<Rightarrow> dev_problem list" where
  "devLimitValidate p l =
     (case l of None \<Rightarrow> []
      | Some (down, up) \<Rightarrow> if down < 0 \<or> down > devLimitMax \<or> up < 0 \<or> up > devLimitMax then [DevLimits p] else [])"

definition checkDevice :: "'c FwConfig_scheme \<Rightarrow> nat \<Rightarrow> devSeen \<Rightarrow> Device \<Rightarrow> dev_problem list \<times> devSeen" where
  "checkDevice c i seen d =
     (let p = ''devices['' @ Itoa_nat i @ '']''; (em, macs) = checkDevMACs c p (dvName d) (seenMACs seen) (dvMACs d) in
      (checkDevName c p (seenNames seen) (dvName d)
       @ (if dvMACs d = [] \<or> length (dvMACs d) > devMaxMACs then [DevMACCount p] else [])
       @ em @ checkDevIP c p (seenIPs seen) (dvIP d)
       @ (if dvType d \<noteq> [] \<and> \<not> reDevLabel (dvType d) then [DevType p (dvType d)] else [])
       @ (if \<not> safeText (dvOwner d) \<or> length (dvOwner d) > 40 then [DevOwner p] else [])
       @ (if fwCheckDesc p (dvDesc d) \<noteq> [] then [DevDesc p] else [])
       @ devLimitValidate p (dvLimit d),
       \<lparr>seenNames = dvName d # seenNames seen, seenMACs = macs,
        seenIPs = (if dvIP d = [] then seenIPs seen else (dvIP d, dvName d) # seenIPs seen)\<rparr>))"

fun checkDevices :: "'c FwConfig_scheme \<Rightarrow> nat \<Rightarrow> devSeen \<Rightarrow> Device list \<Rightarrow> dev_problem list" where
  "checkDevices c i seen [] = []"
| "checkDevices c i seen (d # ds) = (case checkDevice c i seen d of (es, seen') \<Rightarrow> es @ checkDevices c (Suc i) seen' ds)"

fun checkMembers :: "'c FwConfig_scheme \<Rightarrow> string \<Rightarrow> string list \<Rightarrow> string list \<Rightarrow> dev_problem list" where
  "checkMembers c g seen [] = []"
| "checkMembers c g seen (m # ms) =
     (if device c m = None then [GroupUnknown g m] else if m \<in> set seen then [GroupDup g m] else [])
     @ checkMembers c g (m # seen) ms"

definition devGroupNames :: "'c FwConfig_scheme \<Rightarrow> string list" where
  "devGroupNames c = sort (map fst (Groups c))"

definition checkGroup :: "'c FwConfig_scheme \<Rightarrow> string \<Rightarrow> dev_problem list" where
  "checkGroup c g =
     (if \<not> reName g then [GroupName g]
      else let members = (case map_of (Groups c) g of None \<Rightarrow> [] | Some ms \<Rightarrow> ms) in
        (if members = [] \<or> length members > devMax then [GroupSize g] else []) @ checkMembers c g [] members)"

definition devValidate :: "'c FwConfig_scheme \<Rightarrow> dev_problem list" where
  "devValidate c =
     (if length (Devices c) > devMax then [TooManyDevices] else [])
     @ checkDevices c 0 \<lparr>seenNames = [], seenMACs = [], seenIPs = []\<rparr> (Devices c)
     @ (if length (Groups c) > devGroupMax then [TooManyGroups] else [])
     @ concat (map (checkGroup c) (devGroupNames c))"

text \<open>\<open>hostLease\<close> reads a Go map without an order; keys that differ in case only are one MAC and \<open>leases\<close> lists the first.\<close>

definition hostLease :: "(string \<times> string) list \<Rightarrow> string \<Rightarrow> string" where
  "hostLease leases mac = (case find (\<lambda>(k, v). ToLower k = ToLower mac) leases of None \<Rightarrow> [] | Some (k, v) \<Rightarrow> v)"

definition dhcpHost :: "(string \<times> string) list \<Rightarrow> Device \<Rightarrow> string" where
  "dhcpHost leases d =
     ''dhcp-host='' @ Join (lowerAll (dvMACs d) @ (if dvIP d \<noteq> [] then [dvIP d] else []) @ [dvName d]
       @ take 1 (filter (\<lambda>l. l \<noteq> []) (map (hostLease leases) (dvMACs d)))) '',''"

definition devDHCPHosts :: "(string \<times> string) list \<Rightarrow> 'c FwConfig_scheme \<Rightarrow> string list" where
  "devDHCPHosts leases c = map (dhcpHost leases) (Devices c)"

section \<open>The watch\<close>

record devWatchEntry =
  weSeen :: int
  weOnline :: bool

record devWatchState =
  wsSince :: int
  wsDev :: "(string \<times> devWatchEntry) list"

text \<open>
  An event the pass adds to the log: the device, whether it is online now, and for how long it was not seen. Whether the
  log keeps it (\<open>eventAdd\<close>) decides only if the notifications are woken.
\<close>

datatype devEvent = Online string | Offline string int

definition devWatchAway :: int where "devWatchAway = 600"

definition devWatched :: "'c FwConfig_scheme \<Rightarrow> Device list" where
  "devWatched c = filter dvWatch (Devices c)"

definition watchOne :: "int \<Rightarrow> bool \<Rightarrow> (string \<Rightarrow> bool) \<Rightarrow> devWatchState \<Rightarrow> Device \<Rightarrow> devWatchEntry \<times> devEvent list" where
  "watchOne now quiet seen st d =
     (let e = (case map_of (wsDev st) (dvName d) of None \<Rightarrow> \<lparr>weSeen = now, weOnline = False\<rparr> | Some e \<Rightarrow> e);
          here = list_ex (\<lambda>m. seen (ToLower m)) (dvMACs d);
          e = (if here then e\<lparr>weSeen := now\<rparr> else e)
      in if here \<and> \<not> weOnline e then (e\<lparr>weOnline := True\<rparr>, if quiet then [] else [Online (dvName d)])
         else if \<not> here \<and> weOnline e \<and> now - weSeen e \<ge> devWatchAway
           then (e\<lparr>weOnline := False\<rparr>, if quiet then [] else [Offline (dvName d) (now - weSeen e)])
         else (e, []))"

text \<open>The state after a pass and its events; \<open>None\<close> is a missing or unreadable file, which reads as zeros.\<close>

definition watchSince :: "int \<Rightarrow> devWatchState option \<Rightarrow> devWatchState" where
  "watchSince now f =
     (let st = (case f of None \<Rightarrow> \<lparr>wsSince = 0, wsDev = []\<rparr> | Some st \<Rightarrow> st) in
      if wsSince st = 0 \<or> wsSince st > now then st\<lparr>wsSince := now\<rparr> else st)"

definition devWatchPass :: "'c FwConfig_scheme \<Rightarrow> int \<Rightarrow> (string \<Rightarrow> bool) \<Rightarrow> devWatchState option \<Rightarrow> devWatchState option \<times> devEvent list" where
  "devWatchPass c now seen f =
     (let ws = devWatched c in
      if ws = [] then (None, [])
      else let st = watchSince now f; rs = map (watchOne now (now - wsSince st < devWatchAway) seen st) ws in
        (Some (st\<lparr>wsDev := zip (map dvName ws) (map fst rs)\<rparr>), concat (map snd rs)))"

section \<open>One owner per name, MAC and address\<close>

lemma strAt_Nil: "\<forall>v \<in> snd ` set m. v \<noteq> [] \<Longrightarrow> strAt m k = [] \<longleftrightarrow> k \<notin> fst ` set m"
proof (cases "map_of m k")
  case None
  then show ?thesis by (simp add: strAt_def flip: map_of_eq_None_iff)
next
  case (Some v)
  assume "\<forall>v \<in> snd ` set m. v \<noteq> []"
  then show ?thesis using Some map_of_SomeD [OF Some] by (force simp: strAt_def)
qed

definition mac_ok :: "'c FwConfig_scheme \<Rightarrow> string \<Rightarrow> bool" where
  "mac_ok c m \<longleftrightarrow> reMAC m \<and> \<not> hostHasMAC c (ToLower m) \<and> the (ParseMAC m) ! 0 AND 1 = 0"

lemma checkDevMACs_ok:
  assumes "checkDevMACs c p n seen ms = ([], seen')" "n \<noteq> []" "\<forall>v \<in> snd ` set seen. v \<noteq> []"
  shows "list_all (mac_ok c) ms \<and> distinct (map ToLower ms) \<and> ToLower ` set ms \<inter> fst ` set seen = {}
    \<and> fst ` set seen' = ToLower ` set ms \<union> fst ` set seen \<and> (\<forall>v \<in> snd ` set seen'. v \<noteq> [])"
  using assms
proof (induction ms arbitrary: seen)
  case (Cons m ms)
  have re: "reMAC m" using Cons.prems(1) by (auto split: if_splits prod.splits)
  obtain hw where hw: "ParseMAC m = Some hw" using reMAC_parse [OF re] by blast
  obtain es where r: "checkDevMACs c p n ((ToLower m, n) # seen) ms = (es, seen')"
    using Cons.prems(1) re hw by (auto simp: Let_def split: prod.splits)
  have e: "es = []" "hw ! 0 AND 1 = 0" "strAt seen (ToLower m) = []" "\<not> hostHasMAC c (ToLower m)"
    using Cons.prems(1) re hw r by (auto simp: Let_def split: if_splits)
  have "ToLower m \<notin> fst ` set seen" using strAt_Nil [OF Cons.prems(3)] e(3) by blast
  then show ?case using Cons.IH [of "(ToLower m, n) # seen"] Cons.prems(2,3) r e re hw by (auto simp: mac_ok_def)
qed simp

text \<open>What the validation says of a device, apart from the devices before it.\<close>

definition dev_ok :: "'c FwConfig_scheme \<Rightarrow> Device \<Rightarrow> bool" where
  "dev_ok c d \<longleftrightarrow>
     reDevName (dvName d) \<and> \<not> hostNamed c (dvName d) \<and> dvMACs d \<noteq> [] \<and> length (dvMACs d) \<le> devMaxMACs
     \<and> list_all (mac_ok c) (dvMACs d) \<and> (dvIP d \<noteq> [] \<longrightarrow> fwCheckTarget c (dvIP d) = [] \<and> \<not> hostHasIP c (dvIP d))"

definition seen_ok :: "devSeen \<Rightarrow> bool" where
  "seen_ok s \<longleftrightarrow> (\<forall>v \<in> snd ` set (seenMACs s). v \<noteq> []) \<and> (\<forall>v \<in> snd ` set (seenIPs s). v \<noteq> [])"

lemma checkDevice_ok:
  assumes "checkDevice c i seen d = ([], seen')" "seen_ok seen"
  shows "dev_ok c d \<and> distinct (map ToLower (dvMACs d)) \<and> dvName d \<notin> set (seenNames seen)
    \<and> ToLower ` set (dvMACs d) \<inter> fst ` set (seenMACs seen) = {} \<and> (dvIP d \<noteq> [] \<longrightarrow> dvIP d \<notin> fst ` set (seenIPs seen))
    \<and> set (seenNames seen') = insert (dvName d) (set (seenNames seen))
    \<and> fst ` set (seenMACs seen') = ToLower ` set (dvMACs d) \<union> fst ` set (seenMACs seen)
    \<and> fst ` set (seenIPs seen') = (if dvIP d = [] then {} else {dvIP d}) \<union> fst ` set (seenIPs seen) \<and> seen_ok seen'"
proof -
  let ?p = "''devices['' @ Itoa_nat i @ '']''"
  obtain em macs where m: "checkDevMACs c ?p (dvName d) (seenMACs seen) (dvMACs d) = (em, macs)" by fastforce
  have e: "em = []" "checkDevName c ?p (seenNames seen) (dvName d) = []" "checkDevIP c ?p (seenIPs seen) (dvIP d) = []"
    "dvMACs d \<noteq> []" "length (dvMACs d) \<le> devMaxMACs"
    and s: "seen' = \<lparr>seenNames = dvName d # seenNames seen, seenMACs = macs,
        seenIPs = (if dvIP d = [] then seenIPs seen else (dvIP d, dvName d) # seenIPs seen)\<rparr>"
    using assms(1) m by (auto simp: checkDevice_def Let_def split: if_splits)
  have n: "reDevName (dvName d)" "dvName d \<notin> set (seenNames seen)" "\<not> hostNamed c (dvName d)"
    using e(2) by (auto simp: checkDevName_def split: if_splits)
  then have ne: "dvName d \<noteq> []" by (auto simp: reDevName_def)
  have ip: "dvIP d \<noteq> [] \<longrightarrow> fwCheckTarget c (dvIP d) = [] \<and> strAt (seenIPs seen) (dvIP d) = [] \<and> \<not> hostHasIP c (dvIP d)"
    using e(3) by (auto simp: checkDevIP_def Let_def split: if_splits)
  have "strAt (seenIPs seen) (dvIP d) = [] \<longleftrightarrow> dvIP d \<notin> fst ` set (seenIPs seen)"
    using assms(2) by (intro strAt_Nil) (simp add: seen_ok_def)
  then show ?thesis
    using checkDevMACs_ok [of c ?p "dvName d" "seenMACs seen" "dvMACs d" macs] m e n ne ip s assms(2) by (auto simp: dev_ok_def seen_ok_def)
qed

definition lowMACs :: "Device \<Rightarrow> string list" where
  "lowMACs d = map ToLower (dvMACs d)"

lemma checkDevices_ok:
  assumes "checkDevices c i seen ds = []" "seen_ok seen"
  shows "list_all (dev_ok c) ds \<and> distinct (map dvName ds) \<and> dvName ` set ds \<inter> set (seenNames seen) = {}
    \<and> distinct (concat (map lowMACs ds)) \<and> set (concat (map lowMACs ds)) \<inter> fst ` set (seenMACs seen) = {}
    \<and> distinct (filter (\<lambda>ip. ip \<noteq> []) (map dvIP ds)) \<and> (dvIP ` set ds - {[]}) \<inter> fst ` set (seenIPs seen) = {}"
  using assms
proof (induction ds arbitrary: i seen)
  case (Cons d ds)
  obtain seen' where s: "checkDevice c i seen d = ([], seen')" "checkDevices c (Suc i) seen' ds = []"
    using Cons.prems(1) by (auto split: prod.splits)
  note here = checkDevice_ok [OF s(1) Cons.prems(2)]
  then have "seen_ok seen'" by blast
  note rest = Cons.IH [OF s(2) this]
  have l: "set (lowMACs d) = ToLower ` set (dvMACs d)" "distinct (lowMACs d)" using here by (simp_all add: lowMACs_def)
  have m: "fst ` set (seenMACs seen') = set (lowMACs d) \<union> fst ` set (seenMACs seen)"
    "set (concat (map lowMACs ds)) \<inter> fst ` set (seenMACs seen') = {}" "distinct (concat (map lowMACs ds))"
    "set (lowMACs d) \<inter> fst ` set (seenMACs seen) = {}" unfolding l(1) using here rest by argo+
  have n: "dvName d \<notin> set (seenNames seen)" "set (seenNames seen') = insert (dvName d) (set (seenNames seen))" "distinct (map dvName ds)"
    "dvName ` set ds \<inter> set (seenNames seen') = {}" using here rest by argo+
  have a: "fst ` set (seenIPs seen') = (if dvIP d = [] then {} else {dvIP d}) \<union> fst ` set (seenIPs seen)"
    "dvIP d \<noteq> [] \<longrightarrow> dvIP d \<notin> fst ` set (seenIPs seen)" "distinct (filter (\<lambda>ip. ip \<noteq> []) (map dvIP ds))"
    "(dvIP ` set ds - {[]}) \<inter> fst ` set (seenIPs seen') = {}" using here rest by argo+
  have ok: "dev_ok c d" "list_all (dev_ok c) ds" using here rest by argo+
  show ?case
  proof (intro conjI)
    have "set (lowMACs d) \<inter> set (concat (map lowMACs ds)) = {}" using m(1,2) by blast
    then show "distinct (concat (map lowMACs (d # ds)))" using m(3) l(2) by simp
    show "set (concat (map lowMACs (d # ds))) \<inter> fst ` set (seenMACs seen) = {}" using m(1,2,4) by auto
    show "dvName ` set (d # ds) \<inter> set (seenNames seen) = {}" using n by auto
    show "distinct (map dvName (d # ds))" using n by auto
    show "(dvIP ` set (d # ds) - {[]}) \<inter> fst ` set (seenIPs seen) = {}" using a by (auto simp: image_iff)
    show "distinct (filter (\<lambda>ip. ip \<noteq> []) (map dvIP (d # ds)))" using a by (cases "dvIP d = []") auto
    show "list_all (dev_ok c) (d # ds)" using ok by simp
  qed
qed simp

lemma devValidate_devices:
  assumes "devValidate c = []"
  shows "list_all (dev_ok c) (Devices c)" "distinct (map dvName (Devices c))" "distinct (concat (map lowMACs (Devices c)))"
    "distinct (filter (\<lambda>ip. ip \<noteq> []) (map dvIP (Devices c)))"
  using checkDevices_ok [of c 0 "\<lparr>seenNames = [], seenMACs = [], seenIPs = []\<rparr>" "Devices c"] assms
  by (simp_all add: devValidate_def seen_ok_def)

lemma checkMembers_ok:
  "checkMembers c g seen ms = [] \<Longrightarrow> (\<forall>m \<in> set ms. device c m \<noteq> None) \<and> distinct ms \<and> set ms \<inter> set seen = {}"
proof (induction ms arbitrary: seen)
  case (Cons m ms)
  then have "device c m \<noteq> None" "m \<notin> set seen" "checkMembers c g (m # seen) ms = []" by (auto split: if_splits)
  then show ?case using Cons.IH [of "m # seen"] by auto
qed simp

lemma devValidate_group:
  assumes "devValidate c = []" "map_of (Groups c) g = Some ms"
  shows "\<forall>m \<in> set ms. device c m \<noteq> None" "distinct ms" "ms \<noteq> []" "reName g"
proof -
  have "g \<in> set (devGroupNames c)" using map_of_SomeD [OF assms(2)] by (force simp: devGroupNames_def)
  then have "checkGroup c g = []" using assms(1) by (auto simp: devValidate_def)
  then have k: "reName g" "ms \<noteq> []" "checkMembers c g [] ms = []" using assms(2) by (auto simp: checkGroup_def Let_def split: if_splits)
  then show "\<forall>m \<in> set ms. device c m \<noteq> None" "distinct ms" "ms \<noteq> []" "reName g" using checkMembers_ok [OF k(3)] by blast+
qed

lemma find_name: "distinct (map f xs) \<Longrightarrow> x \<in> set xs \<Longrightarrow> find (\<lambda>y. f y = f x) xs = Some x"
  by (induction xs) (auto simp: image_iff)

lemma device_own: "distinct (map dvName (Devices c)) \<Longrightarrow> d \<in> set (Devices c) \<Longrightarrow> device c (dvName d) = Some d"
  unfolding device_def by (rule find_name)

lemma device_Some: "device c n = Some d \<Longrightarrow> d \<in> set (Devices c) \<and> dvName d = n"
  by (auto simp: device_def find_Some_iff)

lemma distinct_pick:
  assumes "distinct (concat (map f xs))" "distinct ys" "set ys \<subseteq> set xs" "distinct xs"
  shows "distinct (concat (map f ys))"
  using assms(2,3)
proof (induction ys)
  case (Cons y ys)
  have disj: "set (f y) \<inter> set (f z) = {}" if "z \<in> set ys" for z
  proof -
    have "y \<in> set xs" "z \<in> set xs" "y \<noteq> z" using Cons.prems that by auto
    then show ?thesis using assms(1,4)
    proof (induction xs)
      case (Cons x xs)
      then show ?case by (cases "x = y"; cases "x = z") auto
    qed simp
  qed
  have "distinct (f y)" using assms(1) Cons.prems(2) distinct_concat_iff [of "map f xs"] by auto
  then show ?case using Cons disj by auto
qed simp

lemma reDevName_plain: "reDevName n \<Longrightarrow> \<not> HasPrefix n ''group:''"
proof
  assume n: "reDevName n" "HasPrefix n ''group:''"
  have "CHR '':'' \<in> set (take 6 n)" using n(2) by (simp add: HasPrefix_def numeral_eq_Suc)
  then have "CHR '':'' \<in> set n" by (rule in_set_takeD)
  moreover have "\<forall>ch \<in> set n. lower ch \<or> isDigit ch \<or> ch = CHR ''-''" using n(1) by (cases n) (auto simp: reDevName_def list_all_iff)
  ultimately show False by (fastforce simp: lower_def isDigit_def)
qed

lemma lowerAll_distinct: "distinct (map ToLower ms) \<Longrightarrow> lowerAll ms = map ToLower ms"
  by (simp add: lowerAll_def dedup_distinct)

lemma lowMACs_distinct: "distinct (concat (map lowMACs ds)) \<Longrightarrow> d \<in> set ds \<Longrightarrow> distinct (map ToLower (dvMACs d))"
  using distinct_concat_iff [of "map lowMACs ds"] by (auto simp: lowMACs_def)

text \<open>The MACs of a device by its name; \<open>memberMACs\<close> is the same of a valid inventory.\<close>

lemma memberMACs_own:
  assumes v: "devValidate c = []" and m: "device c m = Some d"
  shows "memberMACs c m = lowMACs d"
  using lowerAll_distinct [OF lowMACs_distinct [OF devValidate_devices(3) [OF v], of d]] device_Some [OF m] m
  by (simp add: memberMACs_def lowMACs_def)

text \<open>
  C20. In a validated inventory nothing is ambiguous. No two devices share a name or a fixed address, no MAC, in whatever
  case it is written, is listed twice, in two devices or also in \<open>dhcp.hosts\<close>; so a name stands for exactly its device's
  MACs, and a group for those of its members, one after the other and without a repetition.
\<close>

theorem inventory_unambiguous:
  assumes v: "devValidate c = []"
  shows "distinct (map dvName (Devices c)) \<and> distinct (filter (\<lambda>ip. ip \<noteq> []) (map dvIP (Devices c)))
    \<and> distinct (concat (map lowMACs (Devices c))) \<and> (\<forall>h \<in> set (Hosts c). ToLower (hMAC h) \<notin> set (concat (map lowMACs (Devices c))))
    \<and> (\<forall>d \<in> set (Devices c). devRefMACs c (dvName d) = Some (lowMACs d) \<and> lowMACs d \<noteq> [])
    \<and> (\<forall>g ms. map_of (Groups c) g = Some ms \<longrightarrow>
         devRefMACs c (''group:'' @ g) = Some (concat (map (\<lambda>m. lowMACs (the (device c m))) ms)) \<and> ms \<noteq> [])"
proof (intro conjI)
  note d = devValidate_devices [OF v]
  show "distinct (map dvName (Devices c))" "distinct (filter (\<lambda>ip. ip \<noteq> []) (map dvIP (Devices c)))"
    "distinct (concat (map lowMACs (Devices c)))" by (fact d)+
  show "\<forall>h \<in> set (Hosts c). ToLower (hMAC h) \<notin> set (concat (map lowMACs (Devices c)))"
    using d(1) by (fastforce simp: lowMACs_def list_all_iff dev_ok_def mac_ok_def hostHasMAC_def list_ex_iff)
  show "\<forall>d \<in> set (Devices c). devRefMACs c (dvName d) = Some (lowMACs d) \<and> lowMACs d \<noteq> []"
  proof
    fix x assume x: "x \<in> set (Devices c)"
    then have ok: "dev_ok c x" using d(1) by (simp add: list_all_iff)
    then have "\<not> HasPrefix (dvName x) ''group:''" using reDevName_plain by (simp add: dev_ok_def)
    then show "devRefMACs c (dvName x) = Some (lowMACs x) \<and> lowMACs x \<noteq> []"
      using device_own [OF d(2) x] lowerAll_distinct [OF lowMACs_distinct [OF d(3) x]] ok by (simp add: devRefMACs_def lowMACs_def dev_ok_def)
  qed
  show "\<forall>g ms. map_of (Groups c) g = Some ms \<longrightarrow>
         devRefMACs c (''group:'' @ g) = Some (concat (map (\<lambda>m. lowMACs (the (device c m))) ms)) \<and> ms \<noteq> []"
  proof (intro allI impI)
    fix g ms assume g: "map_of (Groups c) g = Some ms"
    note ms = devValidate_group [OF v g]
    let ?ds = "map (\<lambda>m. the (device c m)) ms"
    have in_ds: "m \<in> set ms \<Longrightarrow> the (device c m) \<in> set (Devices c) \<and> dvName (the (device c m)) = m" for m
      using ms(1) device_Some by fastforce
    then have "map dvName ?ds = ms" by (simp add: map_idI)
    then have "distinct ?ds" using ms(2) by (metis distinct_map)
    moreover have "set ?ds \<subseteq> set (Devices c)" using in_ds by auto
    moreover have "distinct (Devices c)" using d(2) by (simp add: distinct_map)
    ultimately have "distinct (concat (map lowMACs ?ds))" using distinct_pick [OF d(3)] by blast
    moreover have "map (memberMACs c) ms = map lowMACs ?ds" using memberMACs_own [OF v] ms(1) by fastforce
    ultimately have "dedup (concat (map (memberMACs c) ms)) = concat (map lowMACs ?ds)" by (metis dedup_distinct)
    then show "devRefMACs c (''group:'' @ g) = Some (concat (map (\<lambda>m. lowMACs (the (device c m))) ms)) \<and> ms \<noteq> []"
      using g ms(3) by (simp add: devRefMACs_def HasPrefix_def TrimPrefix_def comp_def)
  qed
qed

definition lab_home :: FwConfig where
  "lab_home = (lab_of () lab_fw)\<lparr>
     Devices := [\<lparr>dvName = ''laptop'', dvMACs = [''02:00:00:00:00:0A'', ''02:00:00:00:00:0b''], dvIP = ''192.168.1.10'', dvType = ''pc'', dvOwner = [],
         dvDesc = [], dvWatch = True, dvLimit = None\<rparr>,
       \<lparr>dvName = ''tv'', dvMACs = [''02:00:00:00:00:0c''], dvIP = [], dvType = [], dvOwner = [], dvDesc = [], dvWatch = False, dvLimit = Some (20, 0)\<rparr>],
     Groups := [(''kids'', [''tv'', ''laptop''])], Hosts := [\<lparr>hName = ''nas'', hMAC = ''02:00:00:00:00:10'', hIP = ''192.168.1.20''\<rparr>]\<rparr>"

lemma lab_home_valid: "devValidate lab_home = []"
  by code_simp

theorem inventory_unambiguous_witness:
  "devRefMACs lab_home ''group:kids'' = Some [''02:00:00:00:00:0c'', ''02:00:00:00:00:0a'', ''02:00:00:00:00:0b'']"
proof -
  have "map_of (Groups lab_home) ''kids'' = Some [''tv'', ''laptop'']" by code_simp
  moreover have "\<forall>g ms. map_of (Groups lab_home) g = Some ms \<longrightarrow>
      devRefMACs lab_home (''group:'' @ g) = Some (concat (map (\<lambda>m. lowMACs (the (device lab_home m))) ms)) \<and> ms \<noteq> []"
    using inventory_unambiguous [OF lab_home_valid] by blast
  ultimately have "devRefMACs lab_home (''group:'' @ ''kids'') = Some (concat (map (\<lambda>m. lowMACs (the (device lab_home m))) [''tv'', ''laptop'']))" by blast
  moreover have "concat (map (\<lambda>m. lowMACs (the (device lab_home m))) [''tv'', ''laptop''])
      = [''02:00:00:00:00:0c'', ''02:00:00:00:00:0a'', ''02:00:00:00:00:0b'']" by code_simp
  ultimately show ?thesis by simp
qed

section \<open>The events of the watch\<close>

definition present :: "(string \<Rightarrow> bool) \<Rightarrow> Device \<Rightarrow> bool" where
  "present seen d \<longleftrightarrow> (\<exists>m \<in> set (dvMACs d). seen (ToLower m))"

text \<open>The passes of a run, each with its time and the MACs seen, the state after them and the events with their times.\<close>

inductive watchRun :: "'c FwConfig_scheme \<Rightarrow> (int \<times> (string \<Rightarrow> bool)) list \<Rightarrow> devWatchState option \<Rightarrow> (int \<times> devEvent) list \<Rightarrow> bool"
  for c :: "'c FwConfig_scheme" where
  boot: "watchRun c [] None []"
| pass: "\<lbrakk>watchRun c ps f log; 0 < now; \<forall>q \<in> set ps. fst q < now; devWatchPass c now seen f = (f', evs)\<rbrakk>
    \<Longrightarrow> watchRun c (ps @ [(now, seen)]) f' (log @ map (Pair now) evs)"

fun about :: "devEvent \<Rightarrow> string" where
  "about (Online n) = n"
| "about (Offline n k) = n"

fun isOnline :: "devEvent \<Rightarrow> bool" where
  "isOnline (Online n) = True"
| "isOnline (Offline n k) = False"

definition eventsOf :: "string \<Rightarrow> (int \<times> devEvent) list \<Rightarrow> devEvent list" where
  "eventsOf n log = filter (\<lambda>e. about e = n) (map snd log)"

definition flips :: "devEvent list \<Rightarrow> bool" where
  "flips es \<longleftrightarrow> successively (\<lambda>a b. isOnline a \<noteq> isOnline b) es"

lemma eventsOf_append [simp]: "eventsOf n (l @ l') = eventsOf n l @ eventsOf n l'"
  by (simp add: eventsOf_def)

text \<open>One device in one pass.\<close>

lemma watchOne_cases:
  assumes "watchOne now quiet seen st d = (e', evs)"
    and e: "e = (case map_of (wsDev st) (dvName d) of None \<Rightarrow> \<lparr>weSeen = now, weOnline = False\<rparr> | Some e \<Rightarrow> e)"
  shows "weSeen e' = (if present seen d then now else weSeen e) \<and> list_all (\<lambda>v. about v = dvName d) evs
    \<and> (weOnline e' = weOnline e \<and> evs = []
       \<or> weOnline e' \<noteq> weOnline e \<and> (quiet \<and> evs = [] \<or> \<not> quiet \<and> weOnline e' \<and> evs = [Online (dvName d)]
         \<or> \<not> quiet \<and> \<not> weOnline e' \<and> \<not> present seen d \<and> devWatchAway \<le> now - weSeen e \<and> evs = [Offline (dvName d) (now - weSeen e)]))"
  using assms by (auto simp: watchOne_def Let_def list_ex_iff present_def split: if_splits)

lemma watchOne_about: "watchOne now quiet seen st d = (e', evs) \<Longrightarrow> list_all (\<lambda>v. about v = dvName d) evs"
  using watchOne_cases by blast

lemma filter_own:
  assumes "distinct (map dvName ws)" "d \<in> set ws" "\<forall>x \<in> set ws. list_all (\<lambda>v. about v = dvName x) (snd (f x))"
  shows "filter (\<lambda>v. about v = dvName d) (concat (map snd (map f ws))) = snd (f d)"
  using assms
proof (induction ws)
  case (Cons w ws)
  show ?case
  proof (cases "w = d")
    case True
    then have "dvName d \<notin> dvName ` set ws" using Cons.prems(1) by simp
    then have "\<forall>x \<in> set ws. dvName x \<noteq> dvName d" by (metis imageI)
    then have "filter (\<lambda>v. about v = dvName d) (concat (map snd (map f ws))) = []"
      using Cons.prems(3) by (fastforce simp: filter_empty_conv list_all_iff)
    moreover have "filter (\<lambda>v. about v = dvName d) (snd (f d)) = snd (f d)"
      using Cons.prems(3) True by (auto simp: filter_id_conv list_all_iff)
    ultimately show ?thesis using True by simp
  next
    case False
    then have d: "d \<in> set ws" "dvName w \<noteq> dvName d" using Cons.prems(1,2) by (auto simp: image_iff)
    then have "filter (\<lambda>v. about v = dvName d) (snd (f w)) = []"
      using Cons.prems(3) by (auto simp: filter_empty_conv list_all_iff)
    then show ?thesis using Cons.IH Cons.prems d by simp
  qed
qed simp

text \<open>A pass, from the point of view of one device.\<close>

lemma pass_one:
  assumes p: "devWatchPass c now seen f = (f', evs)" and dn: "distinct (map dvName (devWatched c))" and d: "d \<in> set (devWatched c)"
  obtains e' evs' where "watchOne now (now - wsSince (watchSince now f) < devWatchAway) seen (watchSince now f) d = (e', evs')"
    and "f' = Some (watchSince now f\<lparr>wsDev := wsDev (the f')\<rparr>)" and "map_of (wsDev (the f')) (dvName d) = Some e'"
    and "filter (\<lambda>v. about v = dvName d) evs = evs'"
proof -
  let ?st = "watchSince now f" let ?one = "watchOne now (now - wsSince (watchSince now f) < devWatchAway) seen (watchSince now f)"
  have ne: "devWatched c \<noteq> []" using d by auto
  have f': "f' = Some (?st\<lparr>wsDev := zip (map dvName (devWatched c)) (map fst (map ?one (devWatched c)))\<rparr>)"
    and evs: "evs = concat (map snd (map ?one (devWatched c)))" using p ne by (auto simp: devWatchPass_def Let_def)
  obtain e' evs' where o: "?one d = (e', evs')" by fastforce
  have "map_of (zip (map dvName ws) (map fst (map ?one ws))) (dvName d) = Some (fst (?one d))"
    if "d \<in> set ws" "distinct (map dvName ws)" for ws using that by (induction ws) (auto simp: image_iff)
  then have "map_of (wsDev (the f')) (dvName d) = Some e'" using d dn o by (simp add: f')
  moreover have "filter (\<lambda>v. about v = dvName d) evs = evs'"
    unfolding evs using filter_own [OF dn d, of ?one] watchOne_about o by (metis prod.collapse snd_conv)
  ultimately show ?thesis using that o f' by auto
qed

definition absentIn :: "Device \<Rightarrow> (int \<times> (string \<Rightarrow> bool)) list \<Rightarrow> int \<Rightarrow> int \<Rightarrow> bool" where
  "absentIn d ps a b \<longleftrightarrow> (\<forall>(t, seen) \<in> set ps. a < t \<and> t \<le> b \<longrightarrow> \<not> present seen d)"

definition event_ok :: "Device \<Rightarrow> (int \<times> (string \<Rightarrow> bool)) list \<Rightarrow> int \<times> devEvent \<Rightarrow> bool" where
  "event_ok d ps x \<longleftrightarrow>
     fst x \<in> fst ` set ps \<and> fst (hd ps) + devWatchAway \<le> fst x
     \<and> (case snd x of Online n \<Rightarrow> True | Offline n k \<Rightarrow> devWatchAway \<le> k \<and> absentIn d ps (fst x - k) (fst x))"

definition watchInv :: "Device \<Rightarrow> (int \<times> (string \<Rightarrow> bool)) list \<Rightarrow> devWatchState option \<Rightarrow> (int \<times> devEvent) list \<Rightarrow> bool" where
  "watchInv d ps f log \<longleftrightarrow>
     ps = [] \<and> f = None \<and> log = []
     \<or> ps \<noteq> [] \<and> 0 < fst (hd ps)
       \<and> (\<exists>st e. f = Some st \<and> wsSince st = fst (hd ps) \<and> map_of (wsDev st) (dvName d) = Some e
            \<and> (\<forall>(t, seen) \<in> set ps. weSeen e < t \<longrightarrow> \<not> present seen d) \<and> flips (eventsOf (dvName d) log)
            \<and> (eventsOf (dvName d) log \<noteq> [] \<longrightarrow> isOnline (last (eventsOf (dvName d) log)) = weOnline e)
            \<and> (\<forall>x \<in> set log. about (snd x) = dvName d \<longrightarrow> event_ok d ps x))"

lemma event_ok_later:
  assumes "event_ok d ps x" "\<forall>q \<in> set ps. fst q < now"
  shows "event_ok d (ps @ [(now, seen)]) x"
proof -
  have "ps \<noteq> []" "fst x < now" using assms by (auto simp: event_ok_def)
  then show ?thesis using assms(1) by (auto simp: event_ok_def absentIn_def split: devEvent.splits)
qed

lemma flips_one: "flips es \<Longrightarrow> (es \<noteq> [] \<Longrightarrow> isOnline (last es) \<noteq> isOnline v) \<Longrightarrow> flips (es @ [v])"
  by (cases "es = []") (simp_all add: flips_def successively_append_iff)

lemma watch_pass_inv:
  assumes inv: "watchInv d ps f log" and pos: "0 < now" and later: "\<forall>q \<in> set ps. fst q < now"
    and p: "devWatchPass c now seen f = (f', evs)" and dn: "distinct (map dvName (devWatched c))" and d: "d \<in> set (devWatched c)"
  shows "watchInv d (ps @ [(now, seen)]) f' (log @ map (Pair now) evs)"
proof -
  let ?ps = "ps @ [(now, seen)]" and ?n = "dvName d" and ?st = "watchSince now f"
  obtain e' evs' where o: "watchOne now (now - wsSince ?st < devWatchAway) seen ?st d = (e', evs')"
    and f': "f' = Some (?st\<lparr>wsDev := wsDev (the f')\<rparr>)" "map_of (wsDev (the f')) ?n = Some e'" "filter (\<lambda>v. about v = ?n) evs = evs'"
    by (rule pass_one [OF p dn d])
  define e where "e = (case map_of (wsDev ?st) ?n of None \<Rightarrow> \<lparr>weSeen = now, weOnline = False\<rparr> | Some e \<Rightarrow> e)"
  note one = watchOne_cases [OF o e_def]
  have old: "wsSince ?st = fst (hd ?ps) \<and> 0 < fst (hd ?ps) \<and> (\<forall>(t, s) \<in> set ps. weSeen e < t \<longrightarrow> \<not> present s d) \<and> flips (eventsOf ?n log)
      \<and> (eventsOf ?n log \<noteq> [] \<longrightarrow> isOnline (last (eventsOf ?n log)) = weOnline e) \<and> (\<forall>x \<in> set log. about (snd x) = ?n \<longrightarrow> event_ok d ps x)"
  proof (cases "ps = []")
    case True
    then show ?thesis using inv pos by (simp add: watchInv_def watchSince_def eventsOf_def flips_def)
  next
    case False
    then have "fst (hd ps) < now" using later by simp
    then show ?thesis using inv False by (auto simp: watchInv_def watchSince_def e_def)
  qed
  have new: "eventsOf ?n (map (Pair now) evs) = evs'" using f'(3) by (simp add: eventsOf_def comp_def)
  have quiet: "evs' \<noteq> [] \<Longrightarrow> fst (hd ?ps) + devWatchAway \<le> now" using one old by auto
  have seen: "\<forall>(t, s) \<in> set ?ps. weSeen e' < t \<longrightarrow> \<not> present s d"
  proof (cases "present seen d")
    case True
    then have "weSeen e' = now" using one by simp
    then show ?thesis using later by fastforce
  next
    case False
    then have "weSeen e' = weSeen e" using one by simp
    then show ?thesis using old False by auto
  qed
  have ev: "event_ok d ?ps (now, v)" if "v \<in> set evs'" for v
  proof -
    have "\<not> present seen d \<Longrightarrow> absentIn d ?ps (weSeen e) now" using old by (auto simp: absentIn_def)
    then show ?thesis using that one quiet by (cases v) (auto simp: event_ok_def)
  qed
  have log: "\<forall>x \<in> set (log @ map (Pair now) evs). about (snd x) = ?n \<longrightarrow> event_ok d ?ps x"
    using ev f'(3) old event_ok_later [OF _ later] by auto
  have "flips (eventsOf ?n (log @ map (Pair now) evs))
      \<and> (eventsOf ?n (log @ map (Pair now) evs) \<noteq> [] \<longrightarrow> isOnline (last (eventsOf ?n (log @ map (Pair now) evs))) = weOnline e')"
  proof (cases "evs' = []")
    case True
    have "weOnline e' = weOnline e \<or> eventsOf ?n log = []"
    proof (rule ccontr)
      assume "\<not> ?thesis"
      then have q: "now - wsSince ?st < devWatchAway" and "eventsOf ?n log \<noteq> []" using one True by auto
      then obtain x where x: "x \<in> set log" "about (snd x) = ?n" by (auto simp: eventsOf_def filter_empty_conv)
      then have "event_ok d ps x" using old by blast
      then have "fst (hd ps) + devWatchAway \<le> fst x" "fst x < now" "ps \<noteq> []" using later by (auto simp: event_ok_def)
      then show False using q old by simp
    qed
    then show ?thesis using old by (auto simp: new True flips_def)
  next
    case False
    then obtain v where v: "evs' = [v]" "isOnline v = weOnline e'" "weOnline e' \<noteq> weOnline e" using one by auto
    then have "flips (eventsOf ?n log @ [v])" using old by (intro flips_one) auto
    then show ?thesis by (simp add: new v)
  qed
  then show ?thesis using f' old seen log by (auto simp: watchInv_def intro: exI [of _ e'])
qed

lemma watch_inv:
  "watchRun c ps f log \<Longrightarrow> distinct (map dvName (devWatched c)) \<Longrightarrow> d \<in> set (devWatched c) \<Longrightarrow> watchInv d ps f log"
proof (induction rule: watchRun.induct)
  case boot
  then show ?case by (simp add: watchInv_def)
next
  case (pass ps f log now seen f' evs)
  then show ?case by (intro watch_pass_inv) auto
qed

text \<open>
  C21. The log of a watched device makes sense, whatever is seen when: its events are online and offline in turn; an offline
  event comes at least ten minutes after the device was last seen, and it is true: no pass in the time it names saw one of
  the device's MACs; and in the first ten minutes, while the state is learned, no event is written.
\<close>

theorem watch_events:
  assumes "watchRun c ps f log" "distinct (map dvName (devWatched c))" "d \<in> set (devWatched c)"
  shows "flips (eventsOf (dvName d) log)
    \<and> (\<forall>(t, v) \<in> set log. about v = dvName d \<longrightarrow> fst (hd ps) + devWatchAway \<le> t
         \<and> (\<forall>n k. v = Offline n k \<longrightarrow> devWatchAway \<le> k \<and> absentIn d ps (t - k) t))"
proof -
  have inv: "watchInv d ps f log" by (rule watch_inv [OF assms])
  then have "\<forall>x \<in> set log. about (snd x) = dvName d \<longrightarrow> event_ok d ps x" by (auto simp: watchInv_def)
  moreover have "flips (eventsOf (dvName d) log)" using inv by (auto simp: watchInv_def eventsOf_def flips_def)
  ultimately show ?thesis by (fastforce simp: event_ok_def)
qed

text \<open>The laptop is there, gone for the time of two passes, and there again.\<close>

theorem watch_events_witness:
  "\<exists>f log. watchRun lab_home [(1000, \<lambda>m. m = ''02:00:00:00:00:0b''), (1700, \<lambda>m. False), (1760, \<lambda>m. m = ''02:00:00:00:00:0a'')] f log
    \<and> eventsOf ''laptop'' log = [Offline ''laptop'' 700, Online ''laptop''] \<and> flips (eventsOf ''laptop'' log)"
proof -
  let ?a = "(1000, \<lambda>m. m = ''02:00:00:00:00:0b'')" and ?b = "(1700, \<lambda>m. False)" and ?c = "(1760, \<lambda>m. m = ''02:00:00:00:00:0a'')"
  let ?st = "\<lambda>s w. Some \<lparr>wsSince = 1000, wsDev = [(''laptop'', \<lparr>weSeen = s, weOnline = w\<rparr>)]\<rparr>"
  have 1: "devWatchPass lab_home 1000 (\<lambda>m. m = ''02:00:00:00:00:0b'') None = (?st 1000 True, [])" by code_simp
  have 2: "devWatchPass lab_home 1700 (\<lambda>m. False) (?st 1000 True) = (?st 1000 False, [Offline ''laptop'' 700])" by code_simp
  have 3: "devWatchPass lab_home 1760 (\<lambda>m. m = ''02:00:00:00:00:0a'') (?st 1000 False) = (?st 1760 True, [Online ''laptop''])" by code_simp
  have "watchRun lab_home [?a] (?st 1000 True) []" using watchRun.pass [OF watchRun.boot _ _ 1] by simp
  then have "watchRun lab_home [?a, ?b] (?st 1000 False) [(1700, Offline ''laptop'' 700)]" using watchRun.pass [OF _ _ _ 2] by fastforce
  then have r: "watchRun lab_home [?a, ?b, ?c] (?st 1760 True) [(1700, Offline ''laptop'' 700), (1760, Online ''laptop'')]"
    using watchRun.pass [OF _ _ _ 3] by fastforce
  have d: "hd (Devices lab_home) \<in> set (devWatched lab_home)" "dvName (hd (Devices lab_home)) = ''laptop''"
    "distinct (map dvName (devWatched lab_home))" by code_simp+
  have "flips (eventsOf ''laptop'' [(1700, Offline ''laptop'' 700), (1760, Online ''laptop'')])"
    using watch_events [OF r d(3,1)] d(2) by simp
  then show ?thesis using r by (intro exI) (auto simp: eventsOf_def)
qed

end
