(* ===== verification/Dev_Pause.thy ===== *)
theory Dev_Pause
  imports Fw_Forward Devices
begin

text \<open>
  Pausing a device's internet access, \<open>mr/mod_dev_pause.go\<close>: the list of pauses in \<open>/run/mini-router/pause.json\<close>, the
  operations on it and the nft script \<open>fwLoad\<close> runs after the ruleset. A file is \<open>None\<close> when it is missing or no JSON;
  the neighbour table, the leases, the uptime, \<open>time.ParseDuration\<close>, and whether writes, the reload and \<open>nft list\<close>
  work are arguments. Times are seconds since boot. Shown: the operations refine a map from MACs to end times
  (\<open>pause_refines\<close>); under the loaded script a packet of the forward and input chains is dropped exactly while a pause
  says so, and otherwise meets the ruleset as it is (\<open>pause_exact\<close>).
\<close>

section \<open>The list of pauses\<close>

definition pauseMaxSecs :: int where "pauseMaxSecs = 7 * 86400"
definition pauseMaxMACs :: nat where "pauseMaxMACs = 256"

record pauseEntry =
  peMAC :: string
  peUntil :: int
  peRef :: string
  peBy :: string
  peIPs :: "string list"

definition pauseOK :: "int \<Rightarrow> pauseEntry \<Rightarrow> bool" where
  "pauseOK now e \<longleftrightarrow> reMAC (peMAC e) \<and> now < peUntil e \<and> peUntil e - now \<le> pauseMaxSecs"

definition pauseClean :: "pauseEntry \<Rightarrow> pauseEntry" where
  "pauseClean e = e\<lparr>peMAC := ToLower (peMAC e), peIPs := take 32 (map IPString (List.map_filter ParseIP (peIPs e))),
     peRef := (if \<not> safeText (peRef e) \<or> length (peRef e) > 64 then [] else peRef e),
     peBy := (if \<not> safeText (peBy e) \<or> length (peBy e) > 64 then [] else peBy e)\<rparr>"

definition pauseRead :: "int \<Rightarrow> pauseEntry list option \<Rightarrow> pauseEntry list" where
  "pauseRead now f = (case f of None \<Rightarrow> [] | Some es \<Rightarrow> take pauseMaxMACs (map pauseClean (filter (pauseOK now) es)))"

definition pauseWrite :: "pauseEntry list \<Rightarrow> pauseEntry list option" where
  "pauseWrite es = (if es = [] then None else Some es)"

section \<open>Neighbours\<close>

text \<open>A neighbour with its address as text, as it is and with an IPv4 address unmapped; \<open>None\<close> is no valid address.\<close>

record pauseNbr =
  nbMAC :: string
  nbAddr :: "(string \<times> string) option"

text \<open>The addresses of a MAC: neighbour table, leases (MAC and address), fixed addresses; and who holds an address now.\<close>

definition neighAddrs :: "pauseNbr list \<Rightarrow> (string \<times> string) list \<Rightarrow> 'c FwConfig_scheme \<Rightarrow> string \<Rightarrow> string list" where
  "neighAddrs nb leases c mac =
     List.map_filter (\<lambda>x. if ToLower (nbMAC x) = mac \<and> mac \<noteq> [] then map_option fst (nbAddr x) else None) nb
     @ map snd (filter (\<lambda>(m, ip). ToLower m = mac) leases)
     @ map hIP (filter (\<lambda>h. hIP h \<noteq> [] \<and> ToLower (hMAC h) = mac) (knownHosts c))"

definition neighOwner :: "pauseNbr list \<Rightarrow> string \<Rightarrow> string" where
  "neighOwner nb a =
     (case filter (\<lambda>x. nbMAC x \<noteq> [] \<and> map_option snd (nbAddr x) = Some a) nb of [] \<Rightarrow> [] | xs \<Rightarrow> ToLower (nbMAC (last xs)))"

section \<open>Targets and durations\<close>

datatype pauseError =
    NotUnicast string | BadTargetText | NoDevices string | NoSuchDevice string | BadDuration string | TooManyPaused | WriteFailed
  | ReloadFailed | NotLoaded | NotInFirewall string | WrongMethod | BadBody | NoConfig

definition hostTarget :: "Host list \<Rightarrow> string \<Rightarrow> pauseError + string list" where
  "hostTarget hs t =
     (case find (\<lambda>h. hName h \<noteq> [] \<and> ToLower (hName h) = ToLower t \<and> reMAC (hMAC h)) hs of
        None \<Rightarrow> Inl (NoSuchDevice t)
      | Some h \<Rightarrow> Inr [ToLower (hMAC h)])"

definition pauseTarget :: "'c FwConfig_scheme \<Rightarrow> string \<Rightarrow> pauseError + string list" where
  "pauseTarget c t =
     (if reMAC t then (if the (ParseMAC t) ! 0 AND 1 \<noteq> 0 then Inl (NotUnicast t) else Inr [ToLower t])
      else if length t > 64 \<or> \<not> safeText t then Inl BadTargetText
      else (case devRefMACs c t of
              Some m \<Rightarrow> if m = [] then Inl (NoDevices t) else Inr m
            | None \<Rightarrow> hostTarget (Hosts c) t))"

definition monIsNum :: "string \<Rightarrow> bool" where
  "monIsNum s \<longleftrightarrow> list_all isDigit s \<and> s \<noteq> []"

text \<open>\<open>dur\<close> is \<open>time.ParseDuration\<close>, in nanoseconds; the quotient is cut towards zero.\<close>

definition pauseDuration :: "(string \<Rightarrow> int option) \<Rightarrow> string \<Rightarrow> pauseError + int" where
  "pauseDuration dur s =
     (let n = TrimSuffix s ''d'';
          secs = (if HasSuffix s ''d'' \<and> monIsNum n \<and> length n \<le> 2 then atoi n * 86400
                  else case dur s of None \<Rightarrow> 0 | Some d \<Rightarrow> d sdiv 1000000000)
      in if secs < 1 \<or> secs > pauseMaxSecs then Inl (BadDuration s) else Inr secs)"

section \<open>Pausing and ending a pause\<close>

text \<open>
  What the rest of the system answers: whether the file can be written, whether the reload works, and what
  \<open>nft list set inet mr paused\<close> prints.
\<close>

record pauseEnv =
  peNow :: int
  peNbrs :: "pauseNbr list"
  peLeases :: "(string \<times> string) list"
  writes :: bool
  reloads :: bool
  listed :: "string option"

definition pauseLoaded :: "pauseEnv \<Rightarrow> string list \<Rightarrow> pauseError option" where
  "pauseLoaded v macs =
     (case listed v of
        None \<Rightarrow> Some NotLoaded
      | Some out \<Rightarrow> map_option NotInFirewall (find (\<lambda>m. \<not> sublist m out) macs))"

definition lastN :: "nat \<Rightarrow> 'a list \<Rightarrow> 'a list" where
  "lastN n xs = (if length xs > n then drop (length xs - n) xs else xs)"

definition pauseUpdate :: "int \<Rightarrow> string \<Rightarrow> string \<Rightarrow> string list \<Rightarrow> pauseEntry \<Rightarrow> pauseEntry" where
  "pauseUpdate til target who addrs e =
     e\<lparr>peUntil := til, peRef := target, peBy := who, peIPs := lastN 32 (dedup (peIPs e @ addrs))\<rparr>"

fun pausePut :: "int \<Rightarrow> string \<Rightarrow> string \<Rightarrow> (string \<Rightarrow> string list) \<Rightarrow> string \<Rightarrow> pauseEntry list \<Rightarrow> pauseEntry list" where
  "pausePut til target who addrs m [] = [pauseUpdate til target who (addrs m) \<lparr>peMAC = m, peUntil = 0, peRef = [], peBy = [], peIPs = []\<rparr>]"
| "pausePut til target who addrs m (e # es) =
     (if peMAC e = m then pauseUpdate til target who (addrs m) e # es else e # pausePut til target who addrs m es)"

text \<open>The result and the file after the call.\<close>

definition pauseSet :: "'c FwConfig_scheme \<Rightarrow> pauseEnv \<Rightarrow> string \<Rightarrow> int \<Rightarrow> string \<Rightarrow> pauseEntry list option
    \<Rightarrow> (pauseError + string list) \<times> pauseEntry list option" where
  "pauseSet c v target secs who f =
     (case pauseTarget c target of
        Inl e \<Rightarrow> (Inl e, f)
      | Inr macs \<Rightarrow>
          (let ents = fold (pausePut (peNow v + secs) target who (neighAddrs (peNbrs v) (peLeases v) c)) macs (pauseRead (peNow v) f) in
           if length ents > pauseMaxMACs then (Inl TooManyPaused, f)
           else if \<not> writes v then (Inl WriteFailed, f)
           else if \<not> reloads v then (Inl ReloadFailed, pauseWrite ents)
           else (case pauseLoaded v macs of None \<Rightarrow> Inr macs | Some e \<Rightarrow> Inl e, pauseWrite ents)))"

definition pauseClear :: "'c FwConfig_scheme \<Rightarrow> pauseEnv \<Rightarrow> string \<Rightarrow> pauseEntry list option
    \<Rightarrow> (pauseError + string list) \<times> pauseEntry list option" where
  "pauseClear c v target f =
     (case (if target = ''all'' then Inr [] else pauseTarget c target) of
        Inl e \<Rightarrow> (Inl e, f)
      | Inr macs \<Rightarrow>
          (let ents = pauseRead (peNow v) f;
               ends = (\<lambda>e. target = ''all'' \<or> peMAC e \<in> set macs);
               gone = map peMAC (filter ends ents);
               left = filter (\<lambda>e. \<not> ends e) ents
           in if \<not> writes v then (Inl WriteFailed, f)
              else if gone = [] then (Inr [], pauseWrite left)
              else (if reloads v then Inr gone else Inl ReloadFailed, pauseWrite left)))"

text \<open>\<open>mr pause TARGET DURATION\<close>; the web UI's \<open>dev.pause\<close> and \<open>dev.unpause\<close> with a decoded body.\<close>

definition pauseCommand :: "(string \<Rightarrow> int option) \<Rightarrow> 'c FwConfig_scheme \<Rightarrow> pauseEnv \<Rightarrow> string \<Rightarrow> string \<Rightarrow> pauseEntry list option
    \<Rightarrow> (pauseError + string list) \<times> pauseEntry list option" where
  "pauseCommand dur c v target d f =
     (case pauseDuration dur d of Inl e \<Rightarrow> (Inl e, f) | Inr secs \<Rightarrow> pauseSet c v target secs ''cli'' f)"

definition apiDevPause :: "(string \<Rightarrow> int option) \<Rightarrow> string \<Rightarrow> string \<Rightarrow> (string \<times> string) option \<Rightarrow> 'c FwConfig_scheme option \<Rightarrow> pauseEnv
    \<Rightarrow> pauseEntry list option \<Rightarrow> (pauseError + string list) \<times> pauseEntry list option" where
  "apiDevPause dur method via body cfg v f =
     (if method \<noteq> ''POST'' then (Inl WrongMethod, f)
      else case body of None \<Rightarrow> (Inl BadBody, f)
      | Some (target, d) \<Rightarrow>
          (case pauseDuration dur d of
             Inl e \<Rightarrow> (Inl e, f)
           | Inr secs \<Rightarrow> (case cfg of None \<Rightarrow> (Inl NoConfig, f)
               | Some c \<Rightarrow> pauseSet c v target secs (if via \<noteq> [] then via else ''web'') f)))"

definition apiDevUnpause :: "string \<Rightarrow> string option \<Rightarrow> 'c FwConfig_scheme option \<Rightarrow> pauseEnv
    \<Rightarrow> pauseEntry list option \<Rightarrow> (pauseError + string list) \<times> pauseEntry list option" where
  "apiDevUnpause method body cfg v f =
     (if method \<noteq> ''POST'' then (Inl WrongMethod, f)
      else case body of None \<Rightarrow> (Inl BadBody, f)
      | Some target \<Rightarrow> (case cfg of None \<Rightarrow> (Inl NoConfig, f) | Some c \<Rightarrow> pauseClear c v target f))"

section \<open>The nft script\<close>

text \<open>\<open>IsLinkLocalUnicast\<close>, \<open>IsMulticast\<close>, \<open>IsUnspecified\<close> and \<open>IsLoopback\<close> of \<open>net.IP\<close>.\<close>

definition specialIP :: "bytes \<Rightarrow> bool" where
  "specialIP ip \<longleftrightarrow>
     (case To4 ip of
        Some v \<Rightarrow> v ! 0 = 169 \<and> v ! 1 = 254 \<or> v ! 0 AND 0xf0 = 0xe0 \<or> v = [0, 0, 0, 0] \<or> v ! 0 = 127
      | None \<Rightarrow> ip ! 0 = 0xfe \<and> ip ! 1 AND 0xc0 = 0x80 \<or> ip ! 0 = 0xff \<or> ip = replicate 16 0 \<or> ip = replicate 15 0 @ [1])"

definition pauseAddr :: "(string \<Rightarrow> string) \<Rightarrow> pauseEntry \<Rightarrow> string \<Rightarrow> bytes option" where
  "pauseAddr owner e a =
     (case ParseIP a of
        None \<Rightarrow> None
      | Some ip \<Rightarrow> if specialIP ip then None
          else if owner (IPString ip) \<noteq> [] \<and> owner (IPString ip) \<noteq> peMAC e then None else Some ip)"

definition pauseAddrs :: "(string \<Rightarrow> string list) \<Rightarrow> (string \<Rightarrow> string) \<Rightarrow> pauseEntry \<Rightarrow> bytes list" where
  "pauseAddrs neigh owner e = List.map_filter (pauseAddr owner e) (dedup (peIPs e @ neigh (peMAC e)))"

record pauseElems =
  el4 :: "string list"
  el6 :: "string list"
  left :: "(string \<times> int) list"

definition leftOf :: "pauseElems \<Rightarrow> string \<Rightarrow> int" where
  "leftOf s k = (case map_of (left s) k of None \<Rightarrow> 0 | Some n \<Rightarrow> n)"

definition addElem :: "int \<Rightarrow> bytes \<Rightarrow> pauseElems \<Rightarrow> pauseElems" where
  "addElem secs ip s =
     (let k = IPString ip;
          s' = (if map_of (left s) k \<noteq> None then s
                else if To4 ip \<noteq> None then s\<lparr>el4 := el4 s @ [k]\<rparr> else s\<lparr>el6 := el6 s @ [k]\<rparr>)
      in s'\<lparr>left := (k, max (leftOf s k) secs) # left s\<rparr>)"

definition pauseElemsOf :: "int \<Rightarrow> (string \<Rightarrow> string list) \<Rightarrow> (string \<Rightarrow> string) \<Rightarrow> pauseEntry list \<Rightarrow> pauseElems" where
  "pauseElemsOf now neigh owner ents =
     fold (\<lambda>e. fold (addElem (peUntil e - now)) (pauseAddrs neigh owner e)) ents \<lparr>el4 = [], el6 = [], left = []\<rparr>"

definition pauseMACElems :: "int \<Rightarrow> pauseEntry list \<Rightarrow> (string \<times> int) list" where
  "pauseMACElems now ents = map (\<lambda>e. (peMAC e, peUntil e - now)) ents"

definition pauseInput :: "'c Config_scheme \<Rightarrow> rule" where
  "pauseInput c = [Iif (LANBridges c), EtherIn ''paused'', FibForeign, Counter, Drop, Note ''pause'']"

text \<open>The rules of the forward chain from the top: the last one inserted comes first.\<close>

definition pauseForward :: "'c Config_scheme \<Rightarrow> rule list" where
  "pauseForward c =
     [[Iif (LANBridges c), EtherIn ''paused'', Oif (WANIfnames c), Counter, Drop, Note ''pause''],
      [Iif (WANIfnames c), DaddrIn Fam4 ''paused_4'', Counter, Drop, Note ''pause''],
      [Iif (WANIfnames c), DaddrIn Fam6 ''paused_6'', Counter, Drop, Note ''pause'']]"

definition elemText :: "string \<times> int \<Rightarrow> string" where
  "elemText x = fst x @ '' timeout '' @ Itoa (snd x) @ ''s''"

definition elemLine :: "string \<Rightarrow> (string \<times> int) list \<Rightarrow> string list" where
  "elemLine s xs = (if xs = [] then [] else [''add element inet mr '' @ s @ '' { '' @ Join (map elemText xs) '', '' @ '' }''])"

definition pauseScript :: "'c FwConfig_scheme \<Rightarrow> pauseEnv \<Rightarrow> pauseEntry list option \<Rightarrow> string" where
  "pauseScript c v f =
     (let now = peNow v; ents = pauseRead now f;
          els = pauseElemsOf now (neighAddrs (peNbrs v) (peLeases v) c) (neighOwner (peNbrs v)) ents
      in if ents = [] then []
         else concat (map (\<lambda>l. l @ lf)
           ([''add set inet mr paused { type ether_addr; size '' @ Itoa_nat pauseMaxMACs @ ''; flags timeout; }'',
             ''add set inet mr paused_4 { type ipv4_addr; size 4096; flags timeout; }'',
             ''add set inet mr paused_6 { type ipv6_addr; size 4096; flags timeout; }'',
             ''insert rule inet mr input '' @ showRule (pauseInput c)]
            @ map (\<lambda>r. ''insert rule inet mr forward '' @ showRule r) (rev (pauseForward c))
            @ elemLine ''paused'' (pauseMACElems now ents)
            @ elemLine ''paused_4'' (map (\<lambda>k. (k, leftOf els k)) (el4 els))
            @ elemLine ''paused_6'' (map (\<lambda>k. (k, leftOf els k)) (el6 els)))))"

record pauseView =
  pvMAC :: string
  pvName :: string
  pvRef :: string
  pvBy :: string
  pvLeft :: int
  pvIPs :: "string list"

text \<open>\<open>clean\<close> is \<open>eventClean\<close> of the event log, on the client names of the leases (MAC and name).\<close>

definition pauseNames :: "(string \<Rightarrow> string) \<Rightarrow> (string \<times> string) list \<Rightarrow> 'c FwConfig_scheme \<Rightarrow> string \<Rightarrow> string" where
  "pauseNames clean clients c mac =
     (let hs = filter (\<lambda>h. hName h \<noteq> [] \<and> ToLower (hMAC h) = mac) (knownHosts c);
          ls = filter (\<lambda>(m, n). n \<noteq> [] \<and> n \<noteq> ''*'' \<and> ToLower m = mac) clients
      in if hs \<noteq> [] then hName (last hs) else if ls \<noteq> [] then clean (snd (last ls)) else [])"

definition pauseList :: "(string \<Rightarrow> string) \<Rightarrow> (string \<times> string) list \<Rightarrow> 'c FwConfig_scheme \<Rightarrow> int \<Rightarrow> pauseEntry list option \<Rightarrow> pauseView list" where
  "pauseList clean clients c now f =
     sort_key pvLeft (map (\<lambda>e. \<lparr>pvMAC = peMAC e, pvName = pauseNames clean clients c (peMAC e), pvRef = peRef e, pvBy = peBy e,
       pvLeft = peUntil e - now, pvIPs = peIPs e\<rparr>) (pauseRead now f))"

section \<open>The operations as a map of end times\<close>

definition untils :: "pauseEntry list \<Rightarrow> (string \<times> int) list" where
  "untils es = map (\<lambda>e. (peMAC e, peUntil e)) es"

text \<open>The pauses in force at \<open>t\<close>, as the file gives them.\<close>

definition active :: "int \<Rightarrow> pauseEntry list option \<Rightarrow> string \<rightharpoonup> int" where
  "active t f = map_of (untils (pauseRead t f))"

definition lowMAC :: "string \<Rightarrow> bool" where
  "lowMAC m \<longleftrightarrow> reMAC m \<and> ToLower m = m"

definition endsBy :: "int \<Rightarrow> pauseEntry list \<Rightarrow> bool" where
  "endsBy u es \<longleftrightarrow> distinct (map peMAC es) \<and> (\<forall>e \<in> set es. lowMAC (peMAC e) \<and> peUntil e \<le> u)"

definition wfPause :: "int \<Rightarrow> pauseEntry list \<Rightarrow> bool" where
  "wfPause T es \<longleftrightarrow> endsBy (T + pauseMaxSecs) es \<and> length es \<le> pauseMaxMACs"

fun entriesOf :: "pauseEntry list option \<Rightarrow> pauseEntry list" where
  "entriesOf None = []"
| "entriesOf (Some es) = es"

lemma of_lowerChar: "(of_char (lowerChar ch) :: nat) = (let n = of_char ch in if 65 \<le> n \<and> n \<le> 90 then n + 32 else n)"
  by (simp add: lowerChar_def Let_def)

lemma lowerChar_idem [simp]: "lowerChar (lowerChar ch) = lowerChar ch"
  using of_lowerChar [of ch] by (auto simp: lowerChar_def [of "lowerChar ch"] Let_def split: if_splits)

lemma lowerChar_colon [simp]: "lowerChar ch = CHR '':'' \<longleftrightarrow> ch = CHR '':''"
proof
  assume l: "lowerChar ch = CHR '':''"
  then have "(of_char ch :: nat) = of_char CHR '':''" using of_lowerChar [of ch] by (auto simp: Let_def split: if_splits)
  then show "ch = CHR '':''" by (rule injD [OF inj_of_char])
qed (simp add: lowerChar_def)

lemma ToLower_idem [simp]: "ToLower (ToLower s) = ToLower s"
  by (simp add: ToLower_def)

lemma hexDigit_lower: "hexDigit ch \<noteq> None \<Longrightarrow> hexDigit (lowerChar ch) \<noteq> None"
  by (auto simp: hexDigit_def Let_def of_lowerChar split: if_splits)

lemma reMAC_lower: "reMAC m \<Longrightarrow> lowMAC (ToLower m)"
proof -
  assume m: "reMAC m"
  have "SplitByte CHR '':'' (ToLower s) = map ToLower (SplitByte CHR '':'' s)" for s
    by (induction s) (auto simp: ToLower_def split: list.splits)
  then show ?thesis using m hexDigit_lower by (auto simp: lowMAC_def reMAC_def Let_def list_all_iff hexPair_def ToLower_def)
qed

lemma pauseRead_wf:
  assumes "wfPause T (entriesOf f)" "T \<le> t"
  shows "pauseRead t f = map pauseClean (filter (\<lambda>e. t < peUntil e) (entriesOf f))"
proof (cases f)
  case (Some es)
  have f: "filter (pauseOK t) es = filter (\<lambda>e. t < peUntil e) es"
    using assms Some by (intro filter_cong) (auto simp: pauseOK_def wfPause_def endsBy_def lowMAC_def)
  have "length es \<le> pauseMaxMACs" using assms(1) Some by (simp add: wfPause_def)
  then have "length (filter (\<lambda>e. t < peUntil e) es) \<le> pauseMaxMACs" by (rule order_trans [OF length_filter_le])
  then show ?thesis using Some f by (simp add: pauseRead_def)
qed (simp add: pauseRead_def)

lemma untils_clean: "\<forall>e \<in> set es. lowMAC (peMAC e) \<Longrightarrow> untils (map pauseClean es) = untils es"
  by (simp add: untils_def pauseClean_def lowMAC_def)

lemma map_of_later:
  "distinct (map peMAC es) \<Longrightarrow>
   map_of (untils (filter (\<lambda>e. t < peUntil e) es)) m = (case map_of (untils es) m of None \<Rightarrow> None | Some u \<Rightarrow> if t < u then Some u else None)"
  by (induction es) (auto simp: untils_def map_of_eq_None_iff split: option.splits)

lemma active_wf:
  assumes "wfPause T (entriesOf f)" "T \<le> t"
  shows "active t f m = (case map_of (untils (entriesOf f)) m of None \<Rightarrow> None | Some u \<Rightarrow> if t < u then Some u else None)"
  using assms(1) map_of_later [of "entriesOf f" t m] untils_clean [of "filter (\<lambda>e. t < peUntil e) (entriesOf f)"]
  by (simp add: active_def pauseRead_wf [OF assms] wfPause_def endsBy_def)

lemma pauseRead_keeps:
  assumes w: "wfPause T (entriesOf f)" and t: "T \<le> t"
  shows "wfPause t (pauseRead t f)"
proof -
  let ?es = "filter (\<lambda>e. t < peUntil e) (entriesOf f)"
  have m: "map peMAC (map pauseClean ?es) = map peMAC ?es" using w by (auto simp: wfPause_def endsBy_def pauseClean_def lowMAC_def)
  have "length (entriesOf f) \<le> pauseMaxMACs" using w by (simp add: wfPause_def)
  then have l: "length ?es \<le> pauseMaxMACs" by (rule order_trans [OF length_filter_le])
  have "\<forall>e \<in> set ?es. lowMAC (peMAC e) \<and> peUntil e \<le> t + pauseMaxSecs" using w t by (auto simp: wfPause_def endsBy_def)
  then have e: "\<forall>e \<in> set (map pauseClean ?es). lowMAC (peMAC e) \<and> peUntil e \<le> t + pauseMaxSecs" by (auto simp: pauseClean_def lowMAC_def)
  have "distinct (map peMAC ?es)" using w by (simp add: wfPause_def endsBy_def distinct_map_filter)
  then show ?thesis unfolding pauseRead_wf [OF w t] wfPause_def endsBy_def m using l e by simp
qed

text \<open>Writing an entry sets the end time of one MAC and keeps the list well-formed.\<close>

lemma untils_put: "map_of (untils (pausePut til tg who a m es)) x = (if x = m then Some til else map_of (untils es) x)"
  by (induction es) (auto simp: untils_def pauseUpdate_def)

lemma macs_put: "set (map peMAC (pausePut til tg who a m es)) = insert m (set (map peMAC es))"
  by (induction es) (auto simp: pauseUpdate_def)

lemma put_ends: "endsBy u es \<Longrightarrow> lowMAC m \<Longrightarrow> til \<le> u \<Longrightarrow> endsBy u (pausePut til tg who a m es)"
proof (induction es)
  case (Cons e es)
  show ?case
  proof (cases "peMAC e = m")
    case True
    then show ?thesis using Cons.prems by (simp add: endsBy_def pauseUpdate_def)
  next
    case False
    have "endsBy u es" using Cons.prems(1) by (simp add: endsBy_def)
    then have ih: "endsBy u (pausePut til tg who a m es)" by (rule Cons.IH [OF _ Cons.prems(2,3)])
    have "peMAC e \<notin> set (map peMAC (pausePut til tg who a m es))" unfolding macs_put using False Cons.prems(1) by (simp add: endsBy_def)
    then show ?thesis using ih False Cons.prems(1) by (simp add: endsBy_def)
  qed
qed (simp add: pauseUpdate_def endsBy_def)

lemma puts_end: "endsBy u es \<Longrightarrow> \<forall>m \<in> set macs. lowMAC m \<Longrightarrow> til \<le> u \<Longrightarrow> endsBy u (fold (pausePut til tg who a) macs es)"
  by (induction macs arbitrary: es) (simp_all add: put_ends)

lemma untils_puts: "map_of (untils (fold (pausePut til tg who a) macs es)) x = (if x \<in> set macs then Some til else map_of (untils es) x)"
  by (induction macs arbitrary: es) (auto simp: untils_put)

lemma entriesOf_write [simp]: "entriesOf (pauseWrite es) = es"
  by (simp add: pauseWrite_def)

lemma pauseTarget_low:
  assumes v: "devValidate c = []" and t: "pauseTarget c t = Inr macs"
  shows "\<forall>m \<in> set macs. lowMAC m"
proof -
  have dev: "\<forall>m \<in> set (lowMACs d). lowMAC m" if "d \<in> set (Devices c)" for d
    using devValidate_devices(1) [OF v] that reMAC_lower by (auto simp: lowMACs_def list_all_iff dev_ok_def mac_ok_def)
  have low: "\<forall>m \<in> set (lowerAll (dvMACs d)). lowMAC m" if "d \<in> set (Devices c)" for d
    using dev [OF that] by (simp add: lowMACs_def lowerAll_def)
  have ref: "\<forall>m \<in> set ms. lowMAC m" if r: "devRefMACs c t = Some ms" for ms
  proof (cases "HasPrefix t ''group:''")
    case True
    have "\<forall>m \<in> set (memberMACs c x). lowMAC m" for x
      by (cases "device c x") (use low device_Some [of c x] in \<open>auto simp: memberMACs_def\<close>)
    then show ?thesis using r True by (auto simp: devRefMACs_def split: option.splits)
  next
    case False
    then show ?thesis using r low device_Some [of c t] by (auto simp: devRefMACs_def)
  qed
  show ?thesis
    using t ref reMAC_lower by (auto simp: pauseTarget_def hostTarget_def find_Some_iff split: if_splits option.splits)
qed

text \<open>The file after any sequence of pauses and ended pauses since boot; \<open>T\<close> is the time of the last one.\<close>

inductive pauseReach :: "'c FwConfig_scheme \<Rightarrow> int \<Rightarrow> pauseEntry list option \<Rightarrow> bool" for c :: "'c FwConfig_scheme" where
  boot: "pauseReach c 0 None"
| set: "\<lbrakk>pauseReach c T f; T \<le> peNow v; 1 \<le> secs; secs \<le> pauseMaxSecs; pauseSet c v target secs who f = (r, f')\<rbrakk> \<Longrightarrow> pauseReach c (peNow v) f'"
| clear: "\<lbrakk>pauseReach c T f; T \<le> peNow v; pauseClear c v target f = (r, f')\<rbrakk> \<Longrightarrow> pauseReach c (peNow v) f'"

lemma wfPause_later: "wfPause T es \<Longrightarrow> T \<le> t \<Longrightarrow> wfPause t es"
  by (auto simp: wfPause_def endsBy_def)

lemma wfPause_filter: "wfPause T es \<Longrightarrow> wfPause T (filter P es)"
  by (auto simp: wfPause_def endsBy_def distinct_map_filter intro: order_trans [OF length_filter_le])

text \<open>The two outcomes of an operation: nothing is written, or the new list is.\<close>

lemma pauseSet_cases [consumes 1]:
  assumes "pauseSet c v target secs who f = (r, f')"
  obtains e where "r = Inl e" "f' = f"
  | macs ents where "pauseTarget c target = Inr macs"
      "ents = fold (pausePut (peNow v + secs) target who (neighAddrs (peNbrs v) (peLeases v) c)) macs (pauseRead (peNow v) f)"
      "length ents \<le> pauseMaxMACs" "f' = pauseWrite ents" "\<forall>ms. r = Inr ms \<longrightarrow> ms = macs"
proof (cases "pauseTarget c target")
  case (Inl e)
  have "pauseSet c v target secs who f = (Inl e, f)" unfolding pauseSet_def Inl by simp
  then show ?thesis using assms that(1) by simp
next
  case (Inr macs)
  define ents where "ents = fold (pausePut (peNow v + secs) target who (neighAddrs (peNbrs v) (peLeases v) c)) macs (pauseRead (peNow v) f)"
  have "pauseSet c v target secs who f =
     (if length ents > pauseMaxMACs then (Inl TooManyPaused, f) else if \<not> writes v then (Inl WriteFailed, f)
      else if \<not> reloads v then (Inl ReloadFailed, pauseWrite ents)
      else (case pauseLoaded v macs of None \<Rightarrow> Inr macs | Some e \<Rightarrow> Inl e, pauseWrite ents))"
    unfolding pauseSet_def Inr sum.case Let_def ents_def by (rule refl)
  then show ?thesis using assms that(1) that(2) [OF Inr ents_def] by (simp add: not_less split: if_splits option.splits)
qed

lemma pauseSet_wf:
  assumes v: "devValidate c = []" and w: "wfPause T (entriesOf f)" and t: "T \<le> peNow v" "secs \<le> pauseMaxSecs"
    and s: "pauseSet c v target secs who f = (r, f')"
  shows "wfPause (peNow v) (entriesOf f')"
  using s
proof (cases rule: pauseSet_cases)
  case 1
  then show ?thesis using wfPause_later [OF w t(1)] by simp
next
  case (2 macs ents)
  have "endsBy (peNow v + pauseMaxSecs) (pauseRead (peNow v) f)" using pauseRead_keeps [OF w t(1)] by (simp add: wfPause_def)
  from puts_end [OF this pauseTarget_low [OF v 2(1)]] show ?thesis using 2(2-4) t(2) by (simp add: wfPause_def)
qed

lemma pauseClear_cases [consumes 1]:
  assumes "pauseClear c v target f = (r, f')"
  obtains e where "r = Inl e" "f' = f"
  | macs ends where "(if target = ''all'' then Inr [] else pauseTarget c target) = Inr macs" "ends = (\<lambda>e. target = ''all'' \<or> peMAC e \<in> set macs)"
      "f' = pauseWrite (filter (\<lambda>e. \<not> ends e) (pauseRead (peNow v) f))" "\<forall>ms. r = Inr ms \<longrightarrow> ms = map peMAC (filter ends (pauseRead (peNow v) f))"
proof (cases "(if target = ''all'' then Inr [] else pauseTarget c target) :: pauseError + string list")
  case (Inl e)
  have "pauseClear c v target f = (Inl e, f)" unfolding pauseClear_def Inl by simp
  then show ?thesis using assms that(1) by simp
next
  case (Inr macs)
  let ?ends = "\<lambda>e. target = ''all'' \<or> peMAC e \<in> set macs" let ?es = "pauseRead (peNow v) f"
  have "pauseClear c v target f =
     (if \<not> writes v then (Inl WriteFailed, f)
      else if map peMAC (filter ?ends ?es) = [] then (Inr [], pauseWrite (filter (\<lambda>e. \<not> ?ends e) ?es))
      else (if reloads v then Inr (map peMAC (filter ?ends ?es)) else Inl ReloadFailed, pauseWrite (filter (\<lambda>e. \<not> ?ends e) ?es)))"
    unfolding pauseClear_def Inr sum.case Let_def by (rule refl)
  then show ?thesis using assms that(1) that(2) [OF Inr refl] by (simp split: if_splits)
qed

lemma pauseReach_wf:
  assumes "pauseReach c T f" "devValidate c = []"
  shows "wfPause T (entriesOf f)"
  using assms
proof (induction rule: pauseReach.induct)
  case boot
  then show ?case by (simp add: wfPause_def endsBy_def)
next
  case (set T f v secs target who r f')
  then show ?case using pauseSet_wf by blast
next
  case (clear T f v target r f')
  then have w: "wfPause (peNow v) (pauseRead (peNow v) f)" "wfPause (peNow v) (entriesOf f)" using pauseRead_keeps wfPause_later by blast+
  from clear(3) show ?case by (cases rule: pauseClear_cases) (use w wfPause_filter in auto)
qed

lemma active_later:
  assumes "wfPause T (entriesOf f)" "T \<le> now" "now \<le> t"
  shows "active t f m = (case active now f m of None \<Rightarrow> None | Some u \<Rightarrow> if t < u then Some u else None)"
proof -
  have t: "T \<le> t" using assms(2,3) by simp
  show ?thesis using assms(3)
    unfolding active_wf [OF assms(1,2)] active_wf [OF assms(1) t] by (auto split: option.splits)
qed

lemma untils_filter: "map_of (untils (filter (\<lambda>e. \<not> E (peMAC e)) es)) m = (if E m then None else map_of (untils es) m)"
  by (induction es) (auto simp: untils_def)

lemma untils_dom: "map_of (untils es) m \<noteq> None \<longleftrightarrow> m \<in> set (map peMAC es)"
  by (auto simp: untils_def map_of_eq_None_iff image_iff)

definition namesMAC :: "'c FwConfig_scheme \<Rightarrow> string \<Rightarrow> string \<Rightarrow> bool" where
  "namesMAC c target m \<longleftrightarrow> target = ''all'' \<or> (\<exists>macs. pauseTarget c target = Inr macs \<and> m \<in> set macs)"

lemma active_set:
  assumes w: "wfPause T (entriesOf f)" and v: "devValidate c = []" and t: "T \<le> peNow v" "secs \<le> pauseMaxSecs" "peNow v \<le> t"
    and s: "pauseSet c v target secs who f = (Inr macs, f')"
  shows "pauseTarget c target = Inr macs
    \<and> active t f' m = (if m \<in> set macs then if t < peNow v + secs then Some (peNow v + secs) else None else active t f m)"
  using s
proof (cases rule: pauseSet_cases)
  case (2 ms ents)
  then have ms: "ms = macs" by simp
  have e: "entriesOf f' = ents" using 2(4) by simp
  have "map_of (untils ents) m = (if m \<in> set macs then Some (peNow v + secs) else active (peNow v) f m)"
    unfolding 2(2) ms untils_puts active_def by (rule refl)
  then show ?thesis
    using active_wf [OF pauseSet_wf [OF v w t(1,2) s] t(3), of m] active_later [OF w t(1,3), of m] 2(1) ms by (simp add: e split: option.splits)
qed simp

lemma active_clear:
  assumes w: "wfPause T (entriesOf f)" and t: "T \<le> peNow v" "peNow v \<le> t" and s: "pauseClear c v target f = (Inr gone, f')"
  shows "active t f' m = (if namesMAC c target m then None else active t f m)
    \<and> (m \<in> set gone \<longleftrightarrow> namesMAC c target m \<and> active (peNow v) f m \<noteq> None)"
  using s
proof (cases rule: pauseClear_cases)
  case (2 ms ends)
  let ?es = "pauseRead (peNow v) f"
  have ends: "ends e = namesMAC c target (peMAC e)" for e
    using 2(1,2) by (auto simp: namesMAC_def split: if_splits)
  have e: "entriesOf f' = filter (\<lambda>e. \<not> namesMAC c target (peMAC e)) ?es" using 2(3) ends by simp
  have "wfPause (peNow v) (entriesOf f')" unfolding e by (rule wfPause_filter [OF pauseRead_keeps [OF w t(1)]])
  then have "active t f' m = (case map_of (untils (entriesOf f')) m of None \<Rightarrow> None | Some u \<Rightarrow> if t < u then Some u else None)"
    using t(2) by (rule active_wf)
  then have a: "active t f' m = (if namesMAC c target m then None else active t f m)"
    unfolding e untils_filter active_later [OF w t, of m] by (simp add: active_def)
  have "gone = map peMAC (filter ends ?es)" using 2(4) by simp
  then have "m \<in> set gone \<longleftrightarrow> namesMAC c target m \<and> m \<in> set (map peMAC ?es)" using ends by auto
  then show ?thesis using a untils_dom [of ?es m] by (simp add: active_def)
qed simp

text \<open>
  C19. The list of pauses is a map from MACs to end times, and the operations do to it what they say. In every file that
  pauses and their ends have left since boot, and at every later time: after \<open>mr pause\<close> reports success, the MACs of the
  target end at the new time, whether they were paused before or not, and no other pause has changed; after \<open>mr unpause\<close>
  none of the target's MACs is paused, the others are as before, and the MACs it reports are those that were paused.
\<close>

theorem pause_refines:
  assumes "pauseReach c T f" "devValidate c = []" "T \<le> peNow v" "secs \<le> pauseMaxSecs" "peNow v \<le> t"
  shows "(pauseSet c v target secs who f = (Inr macs, f') \<longrightarrow>
            pauseTarget c target = Inr macs
            \<and> active t f' = (\<lambda>m. if m \<in> set macs then if t < peNow v + secs then Some (peNow v + secs) else None else active t f m))
     \<and> (pauseClear c v target f = (Inr gone, f') \<longrightarrow>
            active t f' = (\<lambda>m. if namesMAC c target m then None else active t f m)
            \<and> set gone = {m. namesMAC c target m \<and> active (peNow v) f m \<noteq> None})"
proof -
  have w: "wfPause T (entriesOf f)" by (rule pauseReach_wf [OF assms(1,2)])
  have s: "pauseTarget c target = Inr macs
      \<and> active t f' = (\<lambda>m. if m \<in> set macs then if t < peNow v + secs then Some (peNow v + secs) else None else active t f m)"
    if "pauseSet c v target secs who f = (Inr macs, f')" using active_set [OF w assms(2-5) that] by (simp add: fun_eq_iff)
  have "active t f' = (\<lambda>m. if namesMAC c target m then None else active t f m) \<and> set gone = {m. namesMAC c target m \<and> active (peNow v) f m \<noteq> None}"
    if "pauseClear c v target f = (Inr gone, f')" using active_clear [OF w assms(3,5) that] by (auto simp: fun_eq_iff)
  then show ?thesis using s by blast
qed

definition lab_penv :: "int \<Rightarrow> pauseEnv" where
  "lab_penv now = \<lparr>peNow = now, peNbrs = [\<lparr>nbMAC = ''02:00:00:00:00:0C'', nbAddr = Some (''192.168.1.30'', ''192.168.1.30'')\<rparr>], peLeases = [],
     writes = True, reloads = True, listed = Some ''elements = { 02:00:00:00:00:0a, 02:00:00:00:00:0b, 02:00:00:00:00:0c }''\<rparr>"

definition lab_pauses :: "pauseEntry list" where
  "lab_pauses = [\<lparr>peMAC = ''02:00:00:00:00:0c'', peUntil = 3700, peRef = ''tv'', peBy = ''cli'', peIPs = [''192.168.1.30'']\<rparr>]"

lemma lab_pause_tv: "pauseSet lab_home (lab_penv 100) ''tv'' 3600 ''cli'' None = (Inr [''02:00:00:00:00:0c''], Some lab_pauses)"
  by code_simp

lemma lab_pause_reach: "pauseReach lab_home 100 (Some lab_pauses)"
  using pauseReach.set [OF pauseReach.boot _ _ _ lab_pause_tv] by (simp add: lab_penv_def pauseMaxSecs_def)

theorem pause_refines_witness:
  "\<exists>f'. pauseSet lab_home (lab_penv 200) ''laptop'' 600 ''web'' (Some lab_pauses) = (Inr [''02:00:00:00:00:0a'', ''02:00:00:00:00:0b''], f')
     \<and> active 500 f' ''02:00:00:00:00:0a'' = Some 800 \<and> active 500 f' ''02:00:00:00:00:0c'' = active 500 (Some lab_pauses) ''02:00:00:00:00:0c''
     \<and> active 900 f' ''02:00:00:00:00:0a'' = None"
proof -
  define f' where "f' = snd (pauseSet lab_home (lab_penv 200) ''laptop'' 600 ''web'' (Some lab_pauses))"
  have "fst (pauseSet lab_home (lab_penv 200) ''laptop'' 600 ''web'' (Some lab_pauses)) = Inr [''02:00:00:00:00:0a'', ''02:00:00:00:00:0b'']" by code_simp
  then have s: "pauseSet lab_home (lab_penv 200) ''laptop'' 600 ''web'' (Some lab_pauses) = (Inr [''02:00:00:00:00:0a'', ''02:00:00:00:00:0b''], f')"
    by (simp add: f'_def prod_eq_iff)
  have n: "peNow (lab_penv 200) = 200" by (simp add: lab_penv_def)
  have a: "active t f' = (\<lambda>m. if m \<in> set [''02:00:00:00:00:0a'', ''02:00:00:00:00:0b''] then if t < 800 then Some 800 else None
      else active t (Some lab_pauses) m)" if "200 \<le> t" for t
    using pause_refines [OF lab_pause_reach lab_home_valid, of "lab_penv 200" 600 t "''laptop''" "''web''"] s that by (auto simp: n pauseMaxSecs_def)
  then show ?thesis using s by simp
qed

section \<open>What the script does\<close>

lemma ParseIP_IPString: "length ip = 16 \<Longrightarrow> ParseIP (IPString ip) = Some ip"
proof (cases "To4 ip")
  case (Some v4)
  assume "length ip = 16"
  then show ?thesis using To4_Some [OF _ Some] Some by (auto simp: IPString_def ParseIP_def ParseAddr_String4)
qed (simp add: IPString_def ParseIP_String6)

lemma ParseIP_length: "ParseIP s = Some ip \<Longrightarrow> length ip = 16"
  using ParseIP_Fam ParseAddr_length by blast

text \<open>The addresses with their remaining times, in the order of the loop, and what the elements become after them.\<close>

definition addElems :: "(bytes \<times> int) list \<Rightarrow> pauseElems" where
  "addElems xs = fold (\<lambda>(ip, secs). addElem secs ip) xs \<lparr>el4 = [], el6 = [], left = []\<rparr>"

definition pairsOf :: "int \<Rightarrow> (string \<Rightarrow> string list) \<Rightarrow> (string \<Rightarrow> string) \<Rightarrow> pauseEntry list \<Rightarrow> (bytes \<times> int) list" where
  "pairsOf now neigh owner ents = concat (map (\<lambda>e. map (\<lambda>ip. (ip, peUntil e - now)) (pauseAddrs neigh owner e)) ents)"

lemma fold_pairs: "fold (\<lambda>(ip, secs). addElem secs ip) (pairsOf now neigh owner ents) s
    = fold (\<lambda>e. fold (addElem (peUntil e - now)) (pauseAddrs neigh owner e)) ents s"
proof (induction ents arbitrary: s)
  case (Cons e es)
  have "fold (\<lambda>(ip, secs). addElem secs ip) (map (\<lambda>ip. (ip, u)) ips) s = fold (addElem u) ips s" for u ips s
    by (induction ips arbitrary: s) simp_all
  then show ?case using Cons by (simp add: pairsOf_def)
qed (simp add: pairsOf_def)

lemma pauseElemsOf_pairs: "pauseElemsOf now neigh owner ents = addElems (pairsOf now neigh owner ents)"
  by (simp add: pauseElemsOf_def addElems_def fold_pairs)

lemma addElems_snoc: "addElems (xs @ [(ip, secs)]) = addElem secs ip (addElems xs)"
  by (simp add: addElems_def)

definition elemsInv :: "(bytes \<times> int) list \<Rightarrow> pauseElems \<Rightarrow> bool" where
  "elemsInv xs s \<longleftrightarrow>
     (\<forall>k. map_of (left s) k \<noteq> None \<longleftrightarrow> k \<in> IPString ` fst ` set xs)
     \<and> (\<forall>k u. 0 \<le> u \<longrightarrow> (u < leftOf s k \<longleftrightarrow> (\<exists>(ip, secs) \<in> set xs. IPString ip = k \<and> u < secs)))
     \<and> set (el4 s) = IPString ` {ip \<in> fst ` set xs. To4 ip \<noteq> None} \<and> set (el6 s) = IPString ` {ip \<in> fst ` set xs. To4 ip = None}"

lemma leftOf_add: "leftOf (addElem secs ip s) k = (if k = IPString ip then max (leftOf s k) secs else leftOf s k)"
  by (simp add: addElem_def leftOf_def Let_def)

lemma left_add: "map_of (left (addElem secs ip s)) k \<noteq> None \<longleftrightarrow> k = IPString ip \<or> map_of (left s) k \<noteq> None"
  by (auto simp: addElem_def Let_def)

lemma el_add:
  "set (el4 (addElem secs ip s)) = set (el4 s) \<union> (if map_of (left s) (IPString ip) = None \<and> To4 ip \<noteq> None then {IPString ip} else {})"
  "set (el6 (addElem secs ip s)) = set (el6 s) \<union> (if map_of (left s) (IPString ip) = None \<and> To4 ip = None then {IPString ip} else {})"
  by (auto simp: addElem_def Let_def)

lemma IPString_inj: "length a = 16 \<Longrightarrow> length b = 16 \<Longrightarrow> IPString a = IPString b \<Longrightarrow> a = b"
  using ParseIP_IPString by (metis option.inject)

lemma addElems_inv: "\<forall>(ip, secs) \<in> set xs. length ip = 16 \<Longrightarrow> elemsInv xs (addElems xs)"
proof (induction xs rule: rev_induct)
  case Nil
  then show ?case by (simp add: elemsInv_def addElems_def leftOf_def)
next
  case (snoc x xs)
  obtain ip secs where x: "x = (ip, secs)" by fastforce
  let ?s = "addElems xs" and ?xs = "xs @ [(ip, secs)]"
  have inv: "elemsInv xs ?s" and len: "length ip = 16" "\<forall>a \<in> fst ` set xs. length a = 16" using snoc x by auto
  have l: "map_of (left ?s) k \<noteq> None \<longleftrightarrow> k \<in> IPString ` fst ` set xs" for k using inv by (simp add: elemsInv_def)
  have u: "0 \<le> u \<Longrightarrow> u < leftOf ?s k \<longleftrightarrow> (\<exists>(ip, secs) \<in> set xs. IPString ip = k \<and> u < secs)" for k u using inv by (simp add: elemsInv_def)
  have s: "set (el4 ?s) = IPString ` {ip \<in> fst ` set xs. To4 ip \<noteq> None}" "set (el6 ?s) = IPString ` {ip \<in> fst ` set xs. To4 ip = None}"
    using inv by (simp_all add: elemsInv_def)
  have old: "ip \<in> fst ` set xs" if "map_of (left ?s) (IPString ip) \<noteq> None"
  proof -
    have "IPString ip \<in> IPString ` fst ` set xs" using that by (simp only: l)
    then obtain a where a: "IPString ip = IPString a" "a \<in> fst ` set xs" by (rule imageE)
    have "length a = 16" by (rule bspec [OF len(2) a(2)])
    then have "ip = a" by (rule IPString_inj [OF len(1) _ a(1)])
    then show ?thesis using a(2) by (simp only:)
  qed
  have f: "fst ` set ?xs = insert ip (fst ` set xs)" by auto
  have e4: "set (el4 (addElem secs ip ?s)) = IPString ` {ip \<in> fst ` set ?xs. To4 ip \<noteq> None}"
    unfolding el_add s f using old by (cases "map_of (left ?s) (IPString ip) = None") auto
  have e6: "set (el6 (addElem secs ip ?s)) = IPString ` {ip \<in> fst ` set ?xs. To4 ip = None}"
    unfolding el_add s f using old by (cases "map_of (left ?s) (IPString ip) = None") auto
  have "map_of (left (addElem secs ip ?s)) k \<noteq> None \<longleftrightarrow> k \<in> IPString ` fst ` set ?xs" for k
    unfolding left_add l f by blast
  moreover have "u < leftOf (addElem secs ip ?s) k \<longleftrightarrow> (\<exists>(ip, secs) \<in> set ?xs. IPString ip = k \<and> u < secs)" if "0 \<le> u" for u k
    using u [OF that, of k] unfolding leftOf_add by (auto simp: less_max_iff_disj)
  ultimately show ?case unfolding x addElems_snoc using e4 e6 by (simp add: elemsInv_def)
qed

text \<open>
  The sets at time \<open>t\<close>, after the script was run at time \<open>now\<close>: an element is in its set until its timeout has passed.
  \<open>key\<close> reads an element as the kernel does.
\<close>

definition elemHolds :: "(string \<Rightarrow> bytes option) \<Rightarrow> int \<Rightarrow> int \<Rightarrow> (string \<times> int) list \<Rightarrow> bytes \<Rightarrow> bool" where
  "elemHolds key now t xs b \<longleftrightarrow> (\<exists>(k, secs) \<in> set xs. key k = Some b \<and> t < now + secs)"

definition pauseSets :: "kernel \<Rightarrow> int \<Rightarrow> int \<Rightarrow> pauseEntry list \<Rightarrow> pauseElems \<Rightarrow> bool" where
  "pauseSets k now t ents els \<longleftrightarrow>
     kSets k ''paused'' = elemHolds ParseMAC now t (pauseMACElems now ents)
     \<and> kSets k ''paused_4'' = elemHolds (\<lambda>s. Option.bind (ParseIP s) To4) now t (map (\<lambda>x. (x, leftOf els x)) (el4 els))
     \<and> kSets k ''paused_6'' = elemHolds ParseIP now t (map (\<lambda>x. (x, leftOf els x)) (el6 els))"

lemma pairs_length: "\<forall>(ip, secs) \<in> set (pairsOf now neigh owner ents). length ip = 16"
  by (auto simp: pairsOf_def pauseAddrs_def map_filter_def pauseAddr_def dest: ParseIP_length split: option.splits if_splits)

lemma paused_addr:
  assumes els: "els = pauseElemsOf now neigh owner ents" and t: "now \<le> t"
  shows "elemHolds (\<lambda>s. Option.bind (ParseIP s) To4) now t (map (\<lambda>x. (x, leftOf els x)) (el4 els)) b
      \<longleftrightarrow> (\<exists>e \<in> set ents. t < peUntil e \<and> (\<exists>ip \<in> set (pauseAddrs neigh owner e). To4 ip = Some b))"
    "elemHolds ParseIP now t (map (\<lambda>x. (x, leftOf els x)) (el6 els)) b
      \<longleftrightarrow> (\<exists>e \<in> set ents. t < peUntil e \<and> (\<exists>ip \<in> set (pauseAddrs neigh owner e). To4 ip = None \<and> ip = b))"
proof -
  let ?xs = "pairsOf now neigh owner ents"
  have inv: "elemsInv ?xs els" unfolding els pauseElemsOf_pairs by (rule addElems_inv [OF pairs_length])
  have len: "(ip, secs) \<in> set ?xs \<Longrightarrow> length ip = 16" for ip secs using pairs_length by fastforce
  have u: "t < now + leftOf els k \<longleftrightarrow> (\<exists>(ip, secs) \<in> set ?xs. IPString ip = k \<and> t < now + secs)" for k
  proof -
    have "t - now < leftOf els k \<longleftrightarrow> (\<exists>(ip, secs) \<in> set ?xs. IPString ip = k \<and> t - now < secs)"
      using inv t unfolding elemsInv_def by simp
    moreover have "t - now < n \<longleftrightarrow> t < now + n" for n by linarith
    ultimately show ?thesis by simp
  qed
  have key: "(\<exists>k \<in> IPString ` {ip \<in> fst ` set ?xs. P ip}. (\<exists>a. ParseIP k = Some a \<and> Q a) \<and> t < now + leftOf els k)
      \<longleftrightarrow> (\<exists>(ip, secs) \<in> set ?xs. P ip \<and> Q ip \<and> t < now + secs)" for P Q
  proof
    assume "\<exists>k \<in> IPString ` {ip \<in> fst ` set ?xs. P ip}. (\<exists>a. ParseIP k = Some a \<and> Q a) \<and> t < now + leftOf els k"
    then obtain ip s0 a where ip: "(ip, s0) \<in> set ?xs" "P ip" "ParseIP (IPString ip) = Some a" "Q a" "t < now + leftOf els (IPString ip)" by auto
    obtain ip' secs where p: "(ip', secs) \<in> set ?xs" "IPString ip' = IPString ip" "t < now + secs" using ip(5) u by auto
    have "ip' = ip" "a = ip" using IPString_inj [OF len [OF p(1)] len [OF ip(1)] p(2)] ParseIP_IPString [OF len [OF ip(1)]] ip(3) by simp_all
    then show "\<exists>(ip, secs) \<in> set ?xs. P ip \<and> Q ip \<and> t < now + secs" using p ip by auto
  next
    assume "\<exists>(ip, secs) \<in> set ?xs. P ip \<and> Q ip \<and> t < now + secs"
    then obtain ip secs where p: "(ip, secs) \<in> set ?xs" "P ip" "Q ip" "t < now + secs" by auto
    then have "t < now + leftOf els (IPString ip)" using u by blast
    moreover have "IPString ip \<in> IPString ` {ip \<in> fst ` set ?xs. P ip}" using p by force
    ultimately show "\<exists>k \<in> IPString ` {ip \<in> fst ` set ?xs. P ip}. (\<exists>a. ParseIP k = Some a \<and> Q a) \<and> t < now + leftOf els k"
      using ParseIP_IPString [OF len [OF p(1)]] p(3) by blast
  qed
  have ents: "(\<exists>(ip, secs) \<in> set ?xs. R ip \<and> t < now + secs) \<longleftrightarrow> (\<exists>e \<in> set ents. t < peUntil e \<and> (\<exists>ip \<in> set (pauseAddrs neigh owner e). R ip))" for R
    by (force simp: pairsOf_def)
  have "elemHolds (\<lambda>s. Option.bind (ParseIP s) To4) now t (map (\<lambda>x. (x, leftOf els x)) (el4 els)) b
      \<longleftrightarrow> (\<exists>k \<in> set (el4 els). (\<exists>a. ParseIP k = Some a \<and> To4 a = Some b) \<and> t < now + leftOf els k)"
    by (auto simp: elemHolds_def bind_eq_Some_conv)
  also have "set (el4 els) = IPString ` {ip \<in> fst ` set ?xs. To4 ip \<noteq> None}" using inv by (simp add: elemsInv_def)
  finally show "elemHolds (\<lambda>s. Option.bind (ParseIP s) To4) now t (map (\<lambda>x. (x, leftOf els x)) (el4 els)) b
      \<longleftrightarrow> (\<exists>e \<in> set ents. t < peUntil e \<and> (\<exists>ip \<in> set (pauseAddrs neigh owner e). To4 ip = Some b))"
    using key [of "\<lambda>ip. To4 ip \<noteq> None" "\<lambda>a. To4 a = Some b"] ents [of "\<lambda>ip. To4 ip = Some b"] by auto
  have "elemHolds ParseIP now t (map (\<lambda>x. (x, leftOf els x)) (el6 els)) b
      \<longleftrightarrow> (\<exists>k \<in> set (el6 els). (\<exists>a. ParseIP k = Some a \<and> a = b) \<and> t < now + leftOf els k)" by (auto simp: elemHolds_def)
  also have "set (el6 els) = IPString ` {ip \<in> fst ` set ?xs. To4 ip = None}" using inv by (simp add: elemsInv_def)
  finally show "elemHolds ParseIP now t (map (\<lambda>x. (x, leftOf els x)) (el6 els)) b
      \<longleftrightarrow> (\<exists>e \<in> set ents. t < peUntil e \<and> (\<exists>ip \<in> set (pauseAddrs neigh owner e). To4 ip = None \<and> ip = b))"
    using key [of "\<lambda>ip. To4 ip = None" "\<lambda>a. a = b"] ents [of "\<lambda>ip. To4 ip = None \<and> ip = b"] by auto
qed

text \<open>The packets a list of pauses is meant to stop at \<open>t\<close>: by the MAC they come from, or the address they go to.\<close>

definition fromPaused :: "int \<Rightarrow> pauseEntry list \<Rightarrow> pkt \<Rightarrow> bool" where
  "fromPaused t ents p \<longleftrightarrow> (\<exists>e \<in> set ents. t < peUntil e \<and> ParseMAC (pMac p) \<noteq> None \<and> ParseMAC (peMAC e) = ParseMAC (pMac p))"

definition toPaused :: "int \<Rightarrow> (string \<Rightarrow> string list) \<Rightarrow> (string \<Rightarrow> string) \<Rightarrow> pauseEntry list \<Rightarrow> pkt \<Rightarrow> bool" where
  "toPaused t neigh owner ents p \<longleftrightarrow>
     (\<exists>e \<in> set ents. t < peUntil e \<and> (\<exists>ip \<in> set (pauseAddrs neigh owner e).
        if pFam p = Fam4 then To4 ip = Some (pDst p) else To4 ip = None \<and> ip = pDst p))"

definition cutForward :: "'c Config_scheme \<Rightarrow> int \<Rightarrow> (string \<Rightarrow> string list) \<Rightarrow> (string \<Rightarrow> string) \<Rightarrow> pauseEntry list \<Rightarrow> pkt \<Rightarrow> bool" where
  "cutForward c t neigh owner ents p \<longleftrightarrow>
     pIif p \<in> set (LANBridges c) \<and> pOif p \<in> set (WANIfnames c) \<and> fromPaused t ents p
     \<or> pIif p \<in> set (WANIfnames c) \<and> toPaused t neigh owner ents p"

definition cutInput :: "'c Config_scheme \<Rightarrow> int \<Rightarrow> pauseEntry list \<Rightarrow> pkt \<Rightarrow> bool" where
  "cutInput c t ents p \<longleftrightarrow>
     pIif p \<in> set (LANBridges c) \<and> fromPaused t ents p \<and> pFib p \<notin> {''local'', ''broadcast'', ''multicast'', ''anycast''}"

lemma paused_mac:
  "(case ParseMAC (pMac p) of None \<Rightarrow> False | Some b \<Rightarrow> elemHolds ParseMAC now t (pauseMACElems now ents) b) \<longleftrightarrow> fromPaused t ents p"
  by (auto simp: elemHolds_def pauseMACElems_def fromPaused_def split: option.split)

lemma holds_paused:
  assumes "pauseSets k now t ents els"
  shows "holds k p (EtherIn ''paused'') \<longleftrightarrow> fromPaused t ents p"
proof -
  have "kSets k ''paused'' = elemHolds ParseMAC now t (pauseMACElems now ents)" using assms by (simp add: pauseSets_def)
  then show ?thesis unfolding holds.simps by (simp only: paused_mac)
qed

lemma or_drop: "evalRules jmp k p [a, b, d] = (if A \<or> B \<or> D then Some VDrop else None)"
  if "evalRule jmp k p a = (if A then Some VDrop else None)" "evalRule jmp k p b = (if B then Some VDrop else None)"
    "evalRule jmp k p d = (if D then Some VDrop else None)"
  using that by simp

lemma pauseForward_eval:
  assumes "pauseSets k now t ents els" "els = pauseElemsOf now neigh owner ents" "now \<le> t"
  shows "evalRules jmp k p (pauseForward c) = (if cutForward c t neigh owner ents p then Some VDrop else None)"
proof -
  note m = holds_paused [OF assms(1), of p]
  have a: "holds k p (DaddrIn Fam4 ''paused_4'') \<or> holds k p (DaddrIn Fam6 ''paused_6'') \<longleftrightarrow> toPaused t neigh owner ents p"
    using assms(1) paused_addr [OF assms(2,3)] unfolding pauseSets_def toPaused_def by (cases "pFam p") simp_all
  have "evalRules jmp k p (pauseForward c) =
     (if pIif p \<in> set (LANBridges c) \<and> fromPaused t ents p \<and> pOif p \<in> set (WANIfnames c)
        \<or> pIif p \<in> set (WANIfnames c) \<and> holds k p (DaddrIn Fam4 ''paused_4'') \<or> pIif p \<in> set (WANIfnames c) \<and> holds k p (DaddrIn Fam6 ''paused_6'')
      then Some VDrop else None)"
    unfolding pauseForward_def by (rule or_drop) (simp_all add: m del: holds.simps(8))
  also have "\<dots> = (if cutForward c t neigh owner ents p then Some VDrop else None)"
    unfolding cutForward_def a [symmetric] by (rule arg_cong [where f = "\<lambda>b. if b then Some VDrop else None"]) blast
  finally show ?thesis .
qed

lemma pauseInput_eval:
  assumes "pauseSets k now t ents els"
  shows "evalRules jmp k p [pauseInput c] = (if cutInput c t ents p then Some VDrop else None)"
  using holds_paused [OF assms, of p] by (simp add: pauseInput_def cutInput_def del: holds.simps(8))

text \<open>
  C18. A pause stops exactly what it says, for exactly its time. With the script of the pauses loaded at \<open>now\<close>, at every later
  time and for every packet, whatever the state of its connection and whatever the ruleset below: a forwarded packet is
  dropped when a device whose pause has not ended sends it from the LAN side to a WAN, or when it comes from a WAN to an
  address of such a device that no other device holds now; a packet of such a device to the router is dropped when it is
  not for the router itself; and every other packet gets the verdict of the ruleset as if there were no pause.
\<close>

theorem pause_exact:
  assumes "neigh = neighAddrs (peNbrs v) (peLeases v) c" "owner = neighOwner (peNbrs v)" "ents = pauseRead (peNow v) f"
    and "pauseSets k (peNow v) t ents (pauseElemsOf (peNow v) neigh owner ents)" and "peNow v \<le> t"
  shows "orDrop (evalLines os k c clk p (rulesL (pauseForward c) @ forwardChain ft nat6 c clk)) =
       (if cutForward c t neigh owner ents p then VDrop else forwardVerdict os k ft nat6 c clk p)
    \<and> orDrop (evalLines os k c clk p (rulesL [pauseInput c] @ inputChain c clk)) =
       (if cutInput c t ents p then VDrop else inputVerdict os k c clk p)"
  unfolding evalLines_append evalLines_rules pauseForward_eval [OF assms(4) refl assms(5)] pauseInput_eval [OF assms(4)]
  by (simp add: forwardVerdict_def inputVerdict_def orDrop_def)

definition lab_paused :: "int \<Rightarrow> kernel" where
  "lab_paused t = (lab_kernel (\<lambda>ch. []))\<lparr>kSets := (\<lambda>s b.
     if s = ''paused'' then elemHolds ParseMAC 100 t [(''02:00:00:00:00:0c'', 3600)] b
     else if s = ''paused_4'' then elemHolds (\<lambda>s. Option.bind (ParseIP s) To4) 100 t [(''192.168.1.30'', 3600)] b else False)\<rparr>"

lemma lab_pauseSets:
  "pauseSets (lab_paused t) 100 t (pauseRead 100 (Some lab_pauses))
     (pauseElemsOf 100 (neighAddrs (peNbrs (lab_penv 100)) [] lab_home) (neighOwner (peNbrs (lab_penv 100))) (pauseRead 100 (Some lab_pauses)))"
proof -
  have "pauseElemsOf 100 (neighAddrs (peNbrs (lab_penv 100)) [] lab_home) (neighOwner (peNbrs (lab_penv 100))) (pauseRead 100 (Some lab_pauses))
      = \<lparr>el4 = [''192.168.1.30''], el6 = [], left = [(''192.168.1.30'', 3600)]\<rparr>" by code_simp
  moreover have "pauseMACElems 100 (pauseRead 100 (Some lab_pauses)) = [(''02:00:00:00:00:0c'', 3600)]" by code_simp
  ultimately show ?thesis by (auto simp: pauseSets_def lab_paused_def leftOf_def elemHolds_def)
qed

text \<open>An established connection to the paused television is cut in both directions at second 3699, and no longer at 3700.\<close>

theorem pause_exact_witness:
  "orDrop (evalLines lab_others (lab_paused 3699) lab_home lab_clk (lab_out\<lparr>pCt := Established\<rparr>)
       (rulesL (pauseForward lab_home) @ forwardChain True False lab_home lab_clk)) = VDrop
   \<and> orDrop (evalLines lab_others (lab_paused 3700) lab_home lab_clk (lab_out\<lparr>pCt := Established\<rparr>)
       (rulesL (pauseForward lab_home) @ forwardChain True False lab_home lab_clk))
     = forwardVerdict lab_others (lab_paused 3700) True False lab_home lab_clk (lab_out\<lparr>pCt := Established\<rparr>)"
proof -
  let ?v = "lab_penv 100" and ?f = "Some lab_pauses"
  let ?n = "neighAddrs (peNbrs ?v) (peLeases ?v) lab_home" and ?o = "neighOwner (peNbrs ?v)"
  have now: "peNow ?v = 100" "peLeases ?v = []" by (simp_all add: lab_penv_def)
  have e: "orDrop (evalLines lab_others (lab_paused t) lab_home lab_clk (lab_out\<lparr>pCt := Established\<rparr>)
        (rulesL (pauseForward lab_home) @ forwardChain True False lab_home lab_clk))
      = (if cutForward lab_home t ?n ?o (pauseRead 100 ?f) (lab_out\<lparr>pCt := Established\<rparr>) then VDrop
         else forwardVerdict lab_others (lab_paused t) True False lab_home lab_clk (lab_out\<lparr>pCt := Established\<rparr>))" if "100 \<le> t" for t
    using pause_exact [where v = ?v and f = ?f and t = t and k = "lab_paused t", OF refl refl refl] lab_pauseSets [of t] that unfolding now by blast
  have "cutForward lab_home 3699 ?n ?o (pauseRead 100 ?f) (lab_out\<lparr>pCt := Established\<rparr>)"
    "\<not> cutForward lab_home 3700 ?n ?o (pauseRead 100 ?f) (lab_out\<lparr>pCt := Established\<rparr>)" by code_simp+
  then show ?thesis using e [of 3699] e [of 3700] by simp
qed

end
