(* ===== verification/Sys_TZ.thy ===== *)
theory Sys_TZ
  imports Fw_Config
begin

text \<open>
  The timezone: \<open>parseTZ\<close> of \<open>mr/mod_sys_time.go\<close>, which validates \<open>system.timezone\<close>, and \<open>tzOffset\<close> of
  \<open>mr/mod_fw_time.go\<close>, which the firewall's and the schedules' clocks are made of. The scanners are functions from the
  text to the value and the rest of the text, \<open>None\<close> where the source reports failure. Go's calendar (\<open>time.Date\<close>,
  \<open>Year\<close>, \<open>Weekday\<close>) is written out on day numbers since 1970; \<open>loc\<close> is \<open>time.LoadLocation\<close> with \<open>Zone\<close>, for
  names that are not POSIX. Shown: a transition rule names the right day of every month and year (\<open>tz_rule_day\<close>); the
  two parsers agree on the offsets of every timezone that is accepted (\<open>tz_agree\<close>); rules that count days, which the
  validation accepts, are ignored by the clock (\<open>tz_julian_ignored\<close>).
\<close>

section \<open>The calendar\<close>

definition isLeap :: "int \<Rightarrow> bool" where
  "isLeap y \<longleftrightarrow> y mod 4 = 0 \<and> (y mod 100 \<noteq> 0 \<or> y mod 400 = 0)"

definition daysIn :: "int \<Rightarrow> int \<Rightarrow> int" where
  "daysIn y m = (if m = 2 then (if isLeap y then 29 else 28) else if m \<in> {4, 6, 9, 11} then 30 else 31)"

text \<open>Days from 1 January of year 1 to 1 January of year \<open>y\<close>.\<close>

definition jan1 :: "int \<Rightarrow> int" where
  "jan1 y = 365 * (y - 1) + (y - 1) div 4 - (y - 1) div 100 + (y - 1) div 400"

definition daysBefore :: "int \<Rightarrow> int \<Rightarrow> int" where
  "daysBefore y m = sum_list (map (daysIn y) [1 .. m - 1])"

definition dateDays :: "int \<Rightarrow> int \<Rightarrow> int \<Rightarrow> int" where
  "dateDays y m d = jan1 y + daysBefore y m + d - 1 - 719162"

definition weekday :: "int \<Rightarrow> int" where
  "weekday n = (n + 4) mod 7"

text \<open>The year of a second, in cycles of 400, 100, 4 and 1 years.\<close>

definition yearOf :: "int \<Rightarrow> int" where
  "yearOf u =
     (let n = u div 86400 + 719162;
          a = n div 146097; n = n - 146097 * a;
          b = n div 36524; b = b - b div 4; n = n - 36524 * b;
          c = n div 1461; n = n - 1461 * c;
          e = n div 365; e = e - e div 4
      in 400 * a + 100 * b + 4 * c + e + 1)"

section \<open>The clock's parser\<close>

definition letter :: "char \<Rightarrow> bool" where
  "letter ch \<longleftrightarrow> (let n = (of_char ch :: nat) in 65 \<le> n \<and> n \<le> 90 \<or> 97 \<le> n \<and> n \<le> 122)"

definition tzName :: "string \<Rightarrow> string option" where
  "tzName s =
     (if HasPrefix s ''<'' then
        (case CutByte CHR ''>'' s of (a, b, found) \<Rightarrow> if \<not> found \<or> length a < 2 then None else Some b)
      else let n = takeWhile letter s in if length n < 3 then None else Some (dropWhile letter s))"

text \<open>At most \<open>k\<close> digits from the front.\<close>

definition digitsUpTo :: "nat \<Rightarrow> string \<Rightarrow> string" where
  "digitsUpTo k s = takeWhile isDigit (take k s)"

fun tzFields :: "nat \<Rightarrow> int list \<Rightarrow> int \<Rightarrow> string \<Rightarrow> (int \<times> string) option" where
  "tzFields k [] secs s = Some (secs, s)"
| "tzFields k (mul # muls) secs s =
     (if k > 0 \<and> \<not> HasPrefix s '':'' then Some (secs, s)
      else let s = (if k > 0 then tl s else s); ds = digitsUpTo 3 s in
        if ds = [] then None else tzFields (Suc k) muls (secs + atoi ds * mul) (drop (length ds) s))"

definition tzOffsetOf :: "string \<Rightarrow> (int \<times> string) option" where
  "tzOffsetOf s =
     (let (sign, s) = (if HasPrefix s ''+'' then (1, tl s) else if HasPrefix s ''-'' then (- 1, tl s) else (1, s)) in
      case tzFields 0 [3600, 60, 1] 0 s of
        None \<Rightarrow> None
      | Some (secs, rest) \<Rightarrow> if secs \<le> 25 * 3600 then Some (sign * secs, rest) else None)"

definition ruleDay :: "int \<Rightarrow> int \<Rightarrow> int \<Rightarrow> int \<Rightarrow> int" where
  "ruleDay y m w d =
     (let first = weekday (dateDays y m 1);
          day = 1 + (d - first + 7) mod 7 + (w - 1) * 7
      in if day > daysIn y m then day - 7 else day)"

definition ruleField :: "string \<Rightarrow> bool" where
  "ruleField x \<longleftrightarrow> x \<noteq> [] \<and> length x \<le> 2 \<and> list_all isDigit x"

definition ruleTime :: "string \<Rightarrow> (int \<times> string) option" where
  "ruleTime r =
     (case CutByte CHR ''/'' r of (a, b, found) \<Rightarrow>
        if \<not> found then Some (7200, r)
        else case tzOffsetOf b of Some (v, []) \<Rightarrow> Some (v, a) | _ \<Rightarrow> None)"

definition tzRule :: "string \<Rightarrow> int \<Rightarrow> int \<Rightarrow> int option" where
  "tzRule r year east =
     (case ruleTime r of
        None \<Rightarrow> None
      | Some (secs, r) \<Rightarrow>
          if \<not> HasPrefix r ''M'' then None
          else (case SplitByte CHR ''.'' (tl r) of
                  [fm, fw, fd] \<Rightarrow>
                    if \<not> (ruleField fm \<and> ruleField fw \<and> ruleField fd) then None
                    else let m = atoi fm; w = atoi fw; d = atoi fd in
                      if m < 1 \<or> m > 12 \<or> w < 1 \<or> w > 5 \<or> d < 0 \<or> d > 6 then None
                      else Some (dateDays year m (ruleDay year m w d) * 86400 + secs - east)
                | _ \<Rightarrow> None))"

definition inDST :: "int \<Rightarrow> int \<Rightarrow> int \<Rightarrow> bool" where
  "inDST a b u \<longleftrightarrow> a < b \<and> a \<le> u \<and> u < b \<or> b < a \<and> (a \<le> u \<or> u < b)"

text \<open>After the name of summer time: its offset and its two rules.\<close>

definition dstOffset :: "int \<Rightarrow> string \<Rightarrow> int \<Rightarrow> int" where
  "dstOffset stdEast s u =
     (case (if s \<noteq> [] \<and> \<not> HasPrefix s '','' then map_option (\<lambda>(d, r). (- d, r)) (tzOffsetOf s) else Some (stdEast + 3600, s)) of
        None \<Rightarrow> stdEast
      | Some (dstEast, s) \<Rightarrow>
          if \<not> HasPrefix s '','' then stdEast
          else (case SplitByte CHR '','' (tl s) of
                  [r1, r2] \<Rightarrow>
                    (let year = yearOf (u + stdEast) in
                     case (tzRule r1 year stdEast, tzRule r2 year dstEast) of
                       (Some a, Some b) \<Rightarrow> if inDST a b u then dstEast else stdEast
                     | _ \<Rightarrow> stdEast)
                | _ \<Rightarrow> stdEast))"

definition tzOffset :: "(string \<Rightarrow> int \<Rightarrow> int option) \<Rightarrow> string \<Rightarrow> int \<Rightarrow> int" where
  "tzOffset loc tz u =
     (if tz = [] then 0
      else case (case tzName tz of None \<Rightarrow> None | Some s \<Rightarrow> tzOffsetOf s) of
        None \<Rightarrow> (case loc (TrimPrefix tz '':'') u of None \<Rightarrow> 0 | Some off \<Rightarrow> off)
      | Some (std, s) \<Rightarrow>
          if s = [] then - std else (case tzName s of None \<Rightarrow> - std | Some s \<Rightarrow> dstOffset (- std) s u))"

section \<open>The validation\<close>

record posixTZ =
  zStd :: string
  zDST :: string
  zStdOff :: int
  zDSTOff :: int
  zHasDST :: bool

datatype tzError = TZLength | TZName | TZOffset string | TZUnexpected string | TZDSTOffset string | TZNeedsRules string | TZRule nat | TZTrailing string

definition eat :: "char \<Rightarrow> string \<Rightarrow> bool \<times> string" where
  "eat ch s = (case s of x # r \<Rightarrow> if x = ch then (True, r) else (False, s) | [] \<Rightarrow> (False, s))"

definition scanName :: "string \<Rightarrow> (string \<times> string) option" where
  "scanName s =
     (case eat CHR ''<'' s of
        (True, s) \<Rightarrow>
          (case CutByte CHR ''>'' s of (a, b, found) \<Rightarrow>
             if \<not> found \<or> length a < 3 \<or> length a > 16 then None
             else if list_all (\<lambda>ch. letter ch \<or> isDigit ch \<or> ch = CHR ''+'' \<or> ch = CHR ''-'') a then Some (a, b) else None)
      | (False, s) \<Rightarrow>
          (let n = takeWhile letter s in if length n < 3 \<or> length n > 16 then None else Some (n, dropWhile letter s)))"

definition scanNum :: "nat \<Rightarrow> string \<Rightarrow> (int \<times> string) option" where
  "scanNum k s = (let ds = digitsUpTo k s in if ds = [] then None else Some (atoi ds, drop (length ds) s))"

fun scanFields :: "int list \<Rightarrow> int \<Rightarrow> string \<Rightarrow> (int \<times> string) option" where
  "scanFields [] secs s = Some (secs, s)"
| "scanFields (mul # muls) secs s =
     (case eat CHR '':'' s of
        (False, _) \<Rightarrow> Some (secs, s)
      | (True, s) \<Rightarrow> (case scanNum 2 s of None \<Rightarrow> None | Some (n, s) \<Rightarrow> if n > 59 then None else scanFields muls (secs + n * mul) s))"

definition scanOffset :: "bool \<Rightarrow> string \<Rightarrow> (int \<times> string) option" where
  "scanOffset sg s =
     (let (neg, s) = (if sg then eat CHR ''-'' s else (False, s));
          s = (if sg \<and> \<not> neg then snd (eat CHR ''+'' s) else s) in
      case scanNum 2 s of
        None \<Rightarrow> None
      | Some (h, s) \<Rightarrow> if h > 24 then None
          else map_option (\<lambda>(secs, s). ((if neg then - 1 else 1) * secs, s)) (scanFields [60, 1] (h * 3600) s))"

definition scanDot :: "string \<Rightarrow> string option" where
  "scanDot s = (case eat CHR ''.'' s of (True, s) \<Rightarrow> Some s | _ \<Rightarrow> None)"

definition scanDate :: "string \<Rightarrow> string option" where
  "scanDate s =
     (case eat CHR ''J'' s of
        (True, s) \<Rightarrow> (case scanNum 3 s of Some (n, s) \<Rightarrow> if n < 1 \<or> n > 365 then None else Some s | None \<Rightarrow> None)
      | (False, _) \<Rightarrow>
          (case eat CHR ''M'' s of
             (True, s) \<Rightarrow>
               (case scanNum 2 s of None \<Rightarrow> None | Some (m, s) \<Rightarrow>
                 if m < 1 \<or> m > 12 then None else case scanDot s of None \<Rightarrow> None | Some s \<Rightarrow>
                 (case scanNum 1 s of None \<Rightarrow> None | Some (w, s) \<Rightarrow>
                   if w < 1 \<or> w > 5 then None else case scanDot s of None \<Rightarrow> None | Some s \<Rightarrow>
                   (case scanNum 1 s of None \<Rightarrow> None | Some (d, s) \<Rightarrow> if d > 6 then None else Some s)))
           | (False, _) \<Rightarrow> (case scanNum 3 s of Some (n, s) \<Rightarrow> if n > 365 then None else Some s | None \<Rightarrow> None)))"

definition scanRule :: "string \<Rightarrow> string option" where
  "scanRule s =
     (case scanDate s of None \<Rightarrow> None | Some s \<Rightarrow>
        (case eat CHR ''/'' s of (True, s) \<Rightarrow> map_option snd (scanOffset False s) | (False, s) \<Rightarrow> Some s))"

definition scanRules :: "string \<Rightarrow> tzError option" where
  "scanRules s =
     (case (case eat CHR '','' s of (True, s) \<Rightarrow> scanRule s | _ \<Rightarrow> None) of
        None \<Rightarrow> Some (TZRule 1)
      | Some s \<Rightarrow> (case (case eat CHR '','' s of (True, s) \<Rightarrow> scanRule s | _ \<Rightarrow> None) of
            None \<Rightarrow> Some (TZRule 2)
          | Some s \<Rightarrow> if s = [] then None else Some (TZTrailing s)))"

definition parseTZ :: "string \<Rightarrow> tzError + posixTZ" where
  "parseTZ tz =
     (if tz = [] \<or> length tz > 64 then Inl TZLength
      else case scanName tz of None \<Rightarrow> Inl TZName
      | Some (std, s) \<Rightarrow>
        (case scanOffset True s of None \<Rightarrow> Inl (TZOffset std)
         | Some (off, s) \<Rightarrow>
           (let z = \<lparr>zStd = std, zDST = [], zStdOff = - off, zDSTOff = 0, zHasDST = False\<rparr> in
            if s = [] then Inr z
            else case scanName s of None \<Rightarrow> Inl (TZUnexpected s)
            | Some (dst, s) \<Rightarrow>
              (case (if s \<noteq> [] \<and> \<not> HasPrefix s '','' then map_option (\<lambda>(o', r). (- o', r)) (scanOffset True s) else Some (- off + 3600, s)) of
                 None \<Rightarrow> Inl (TZDSTOffset dst)
               | Some (dstOff, s) \<Rightarrow>
                   if s = [] then Inl (TZNeedsRules dst)
                   else (case scanRules s of
                           Some e \<Rightarrow> Inl e
                         | None \<Rightarrow> Inr (z\<lparr>zDST := dst, zDSTOff := dstOff, zHasDST := True\<rparr>))))))"

section \<open>The day of a rule\<close>

lemma jan1_split:
  assumes "0 \<le> b" "b \<le> 3" "0 \<le> c" "c \<le> 24" "0 \<le> e" "e \<le> 3"
  shows "jan1 (400 * a + 100 * b + 4 * c + e + 1) = 146097 * a + 36524 * b + 1461 * c + 365 * e"
proof -
  have "(400 * a + 100 * b + 4 * c + e) div 4 = 100 * a + 25 * b + c" "(400 * a + 100 * b + 4 * c + e) div 100 = 4 * a + b"
    "(400 * a + 100 * b + 4 * c + e) div 400 = a" using assms by linarith+
  then show ?thesis by (simp add: jan1_def)
qed

text \<open>The year of a second is the year its day lies in.\<close>

lemma yearOf_day: "jan1 (yearOf u) \<le> u div 86400 + 719162 \<and> u div 86400 + 719162 < jan1 (yearOf u + 1)"
proof -
  define n where "n = u div 86400 + 719162"
  define a where "a = n div 146097"
  define n1 where "n1 = n - 146097 * a"
  define b where "b = n1 div 36524 - n1 div 36524 div 4"
  define n2 where "n2 = n1 - 36524 * b"
  define c where "c = n2 div 1461"
  define n3 where "n3 = n2 - 1461 * c"
  define e where "e = n3 div 365 - n3 div 365 div 4"
  have y: "yearOf u = 400 * a + 100 * b + 4 * c + e + 1"
    unfolding yearOf_def Let_def e_def n3_def c_def n2_def b_def n1_def a_def n_def by (rule refl)
  have n1: "0 \<le> n1" "n1 < 146097" unfolding n1_def a_def by linarith+
  have b: "0 \<le> b" "b \<le> 3" "36524 * b \<le> n1" "b < 3 \<longrightarrow> n2 < 36524" "b = 3 \<longrightarrow> n2 \<le> 36524"   proof -
    define q where "q = n1 div 36524"
    have q: "36524 * q \<le> n1" "n1 < 36524 * q + 36524" using n1 unfolding q_def by linarith+
    have "b = (if q = 4 then 3 else q)" "0 \<le> q" "q \<le> 4" using q n1 unfolding b_def q_def [symmetric] by auto
    then show "0 \<le> b" "b \<le> 3" "36524 * b \<le> n1" "b < 3 \<longrightarrow> n2 < 36524" "b = 3 \<longrightarrow> n2 \<le> 36524" using q n1 unfolding n2_def by (auto split: if_splits)
  qed
  have n2: "0 \<le> n2" "n2 \<le> 36524" using b unfolding n2_def by linarith+
  have c: "0 \<le> c" "c \<le> 24" "0 \<le> n3" "n3 < 1461" using n2 unfolding n3_def c_def by linarith+
  have e: "0 \<le> e" "e \<le> 3" "365 * e \<le> n3" "e < 3 \<longrightarrow> n3 < 365 * e + 365" "e = 3 \<longrightarrow> n3 \<le> 365 * e + 365"   proof -
    define q where "q = n3 div 365"
    have q: "365 * q \<le> n3" "n3 < 365 * q + 365" using c unfolding q_def by linarith+
    have "e = (if q = 4 then 3 else q)" "0 \<le> q" "q \<le> 4" using q c unfolding e_def q_def [symmetric] by auto
    then show "0 \<le> e" "e \<le> 3" "365 * e \<le> n3" "e < 3 \<longrightarrow> n3 < 365 * e + 365" "e = 3 \<longrightarrow> n3 \<le> 365 * e + 365" using q c by (auto split: if_splits)
  qed
  have lo: "jan1 (yearOf u) = 146097 * a + 36524 * b + 1461 * c + 365 * e" unfolding y by (rule jan1_split) (use b c e in simp_all)
  have n: "n = 146097 * a + 36524 * b + 1461 * c + n3" by (simp add: n1_def n2_def n3_def)
  have "n < jan1 (yearOf u + 1)"
  proof -
    consider "e < 3" | "e = 3" "c < 24" | "e = 3" "c = 24" "b < 3" | "e = 3" "c = 24" "b = 3" using b c e by linarith
    then show ?thesis
    proof cases
      case 1
      then have "jan1 (400 * a + 100 * b + 4 * c + (e + 1) + 1) = 146097 * a + 36524 * b + 1461 * c + 365 * (e + 1)"
        using b c e by (intro jan1_split) simp_all
      then show ?thesis using 1 e n by (simp add: y algebra_simps)
    next
      case 2
      then have "jan1 (400 * a + 100 * b + 4 * (c + 1) + 0 + 1) = 146097 * a + 36524 * b + 1461 * (c + 1) + 365 * 0"
        using b c by (intro jan1_split) simp_all
      then show ?thesis using 2 c n by (simp add: y algebra_simps)
    next
      case 3
      then have "jan1 (400 * a + 100 * (b + 1) + 4 * 0 + 0 + 1) = 146097 * a + 36524 * (b + 1) + 1461 * 0 + 365 * 0"
        using b by (intro jan1_split) simp_all
      moreover have "n3 < 1460" using 3 b n2 unfolding n3_def by simp
      ultimately show ?thesis using 3 n by (simp add: y algebra_simps)
    next
      case 4
      have "jan1 (400 * (a + 1) + 100 * 0 + 4 * 0 + 0 + 1) = 146097 * (a + 1) + 36524 * 0 + 1461 * 0 + 365 * 0" by (rule jan1_split) simp_all
      then show ?thesis using 4 c n by (simp add: y algebra_simps)
    qed
  qed
  moreover have "jan1 (yearOf u) \<le> n" using lo n e by simp
  ultimately show ?thesis by (simp add: n_def)
qed

lemma daysIn_range: "28 \<le> daysIn y m" "daysIn y m \<le> 31"
  by (auto simp: daysIn_def)

lemma weekday_shift: "weekday (dateDays y m (1 + k)) = (weekday (dateDays y m 1) + k) mod 7"
proof -
  have "dateDays y m (1 + k) = dateDays y m 1 + k" by (simp add: dateDays_def)
  moreover have "(n + k + 4) mod 7 = ((n + 4) mod 7 + k) mod 7" for n :: int by presburger
  ultimately show ?thesis unfolding weekday_def by (simp only:)
qed

text \<open>The loop of the source steps back a week while the day is past the month: once is enough.\<close>

lemma ruleDay_ok:
  assumes "1 \<le> w" "w \<le> 5" "0 \<le> d" "d \<le> 6"
  shows "1 \<le> ruleDay y m w d \<and> ruleDay y m w d \<le> daysIn y m \<and> weekday (dateDays y m (ruleDay y m w d)) = d
    \<and> (w < 5 \<longrightarrow> 7 * (w - 1) < ruleDay y m w d \<and> ruleDay y m w d \<le> 7 * w) \<and> (w = 5 \<longrightarrow> daysIn y m < ruleDay y m w d + 7)"
proof -
  define f where "f = weekday (dateDays y m 1)"
  define k where "k = (d - f + 7) mod 7"
  have k: "0 \<le> k" "k < 7" by (simp_all add: k_def)
  have day: "ruleDay y m w d = 1 + (k + 7 * (w - 1) - (if 1 + k + (w - 1) * 7 > daysIn y m then 7 else 0))"
    by (simp add: ruleDay_def Let_def k_def f_def)
  have "weekday (dateDays y m (ruleDay y m w d)) = (f + (k + 7 * (w - 1) - (if 1 + k + (w - 1) * 7 > daysIn y m then 7 else 0))) mod 7"
    unfolding day weekday_shift f_def ..
  also have "\<dots> = (f + k) mod 7"
  proof -
    have "f + (k + 7 * j - 7) = (f + k) + (j - 1) * 7" "f + (k + 7 * j - 0) = (f + k) + j * 7" for j by simp_all
    then have "(f + (k + 7 * j - 7)) mod 7 = (f + k) mod 7" "(f + (k + 7 * j - 0)) mod 7 = (f + k) mod 7" for j
      by (simp_all only: mod_mult_self1)
    then show ?thesis by (cases "1 + k + (w - 1) * 7 > daysIn y m") (simp_all only: if_True if_False)
  qed
  also have "\<dots> = d mod 7" unfolding k_def by (simp add: mod_add_right_eq)
  also have "\<dots> = d" using assms by simp
  finally have wd: "weekday (dateDays y m (ruleDay y m w d)) = d" .
  have "w < 5 \<Longrightarrow> 1 + k + (w - 1) * 7 \<le> daysIn y m" using k daysIn_range [of y m] by simp
  then show ?thesis using wd k daysIn_range [of y m] assms unfolding day by (auto split: if_splits)
qed

lemma small_number:
  assumes "0 \<le> n" "n \<le> 12"
  shows "ruleField (Itoa n) \<and> atoi (Itoa n) = n \<and> CHR ''.'' \<notin> set (Itoa n) \<and> CHR ''/'' \<notin> set (Itoa n)"
proof -
  have "list_all (\<lambda>n. ruleField (Itoa n) \<and> atoi (Itoa n) = n \<and> CHR ''.'' \<notin> set (Itoa n) \<and> CHR ''/'' \<notin> set (Itoa n)) [0 .. 12]" by code_simp
  then show ?thesis using assms by (simp add: list_all_iff)
qed

text \<open>
  C30. A transition rule means the day POSIX says. In every year, \<open>Mm.w.d\<close> is read as a day of month \<open>m\<close> that falls on weekday
  \<open>d\<close>, and it is the \<open>w\<close>-th such day of the month for \<open>w\<close> up to 4 and the last one for 5; the time is 02:00 on the wall
  clock that runs before the change. So the step back of a week, which the source does in a loop, is never done twice.
\<close>

theorem tz_rule_day:
  assumes "1 \<le> m" "m \<le> 12" "1 \<le> w" "w \<le> 5" "0 \<le> d" "d \<le> 6"
  shows "\<exists>day. tzRule (''M'' @ Itoa m @ ''.'' @ Itoa w @ ''.'' @ Itoa d) y east = Some (dateDays y m day * 86400 + 7200 - east)
    \<and> 1 \<le> day \<and> day \<le> daysIn y m \<and> weekday (dateDays y m day) = d
    \<and> (w < 5 \<longrightarrow> 7 * (w - 1) < day \<and> day \<le> 7 * w) \<and> (w = 5 \<longrightarrow> daysIn y m < day + 7)"
proof -
  let ?r = "''M'' @ Itoa m @ ''.'' @ Itoa w @ ''.'' @ Itoa d"
  have n: "ruleField (Itoa x) \<and> atoi (Itoa x) = x \<and> CHR ''.'' \<notin> set (Itoa x) \<and> CHR ''/'' \<notin> set (Itoa x)" if "x \<in> {m, w, d}" for x
    by (rule small_number) (use assms that in auto)
  have "CHR ''/'' \<notin> set ?r" using n by auto
  then have t: "ruleTime ?r = Some (7200, ?r)" by (simp add: ruleTime_def CutByte_not_found)
  have "SplitByte CHR ''.'' (Itoa m @ CHR ''.'' # Itoa w @ CHR ''.'' # Itoa d) = [Itoa m, Itoa w, Itoa d]"
    using n SplitByte_Join [of "[Itoa m, Itoa w, Itoa d]" "CHR ''.''"] by simp
  then have "tzRule ?r y east = Some (dateDays y m (ruleDay y m w d) * 86400 + 7200 - east)"
    unfolding tzRule_def t using n assms by (simp add: HasPrefix_def Let_def)
  then show ?thesis using ruleDay_ok [OF assms(3-6), of y m] by blast
qed

text \<open>The last Sunday of March 2026 is the 29th.\<close>

theorem tz_rule_day_witness: "tzRule ''M3.5.0'' 2026 3600 = Some (dateDays 2026 3 29 * 86400 + 7200 - 3600)"
proof -
  have "''M'' @ Itoa 3 @ ''.'' @ Itoa 5 @ ''.'' @ Itoa 0 = ''M3.5.0''" by code_simp
  then obtain day where d: "tzRule ''M3.5.0'' 2026 3600 = Some (dateDays 2026 3 day * 86400 + 7200 - 3600)"
    "day \<le> daysIn 2026 3" "weekday (dateDays 2026 3 day) = 0" "daysIn 2026 3 < day + 7" using tz_rule_day [of 3 5 0 2026 3600] by auto
  have "daysIn 2026 3 = 31" by code_simp
  then have "day \<in> {25, 26, 27, 28, 29, 30, 31}" using d(2,4) by auto
  moreover have "\<forall>x \<in> {25, 26, 27, 28, 30, 31}. weekday (dateDays 2026 3 x) \<noteq> 0" by code_simp
  ultimately have "day = 29" using d(3) by auto
  then show ?thesis using d(1) by simp
qed

section \<open>Two parsers\<close>

definition noDigit :: "string \<Rightarrow> bool" where
  "noDigit s \<longleftrightarrow> s = [] \<or> \<not> isDigit (hd s)"

lemma eat_True: "eat ch s = (True, r) \<longleftrightarrow> s = ch # r"
  by (cases s) (auto simp: eat_def)

lemma eat_False: "eat ch s = (False, r) \<longleftrightarrow> r = s \<and> \<not> HasPrefix s [ch]"
  by (cases s) (auto simp: eat_def HasPrefix_def)

lemma letter_noDigit: "letter ch \<Longrightarrow> \<not> isDigit ch"
  by (auto simp: letter_def isDigit_def Let_def)

lemma scanName_tzName: "scanName s = Some (n, r) \<Longrightarrow> tzName s = Some r \<and> s \<noteq> [] \<and> noDigit s"
proof -
  assume s: "scanName s = Some (n, r)"
  show ?thesis
  proof (cases "fst (eat CHR ''<'' s)")
    case True
    then obtain s' where s': "s = CHR ''<'' # s'" by (cases s) (auto simp: eat_def split: if_splits)
    obtain a b found where c: "CutByte CHR ''>'' s' = (a, b, found)" by (cases "CutByte CHR ''>'' s'")
    then have "found" "3 \<le> length a" "b = r" using s by (auto simp: s' scanName_def eat_def split: if_splits)
    then show ?thesis using c by (auto simp: s' tzName_def HasPrefix_def noDigit_def isDigit_def)
  next
    case False
    then have p: "\<not> HasPrefix s ''<''" "eat CHR ''<'' s = (False, s)" by (cases s; auto simp: eat_def HasPrefix_def)+
    then have l: "3 \<le> length (takeWhile letter s)" "r = dropWhile letter s" using s by (auto simp: scanName_def Let_def split: if_splits)
    then obtain x xs where "s = x # xs" "letter x" by (cases s) (auto split: if_splits)
    then show ?thesis using p(1) l letter_noDigit by (simp add: tzName_def noDigit_def Let_def)
  qed
qed

lemma digitsUpTo_take: "digitsUpTo k s = take k (takeWhile isDigit s)"
  unfolding digitsUpTo_def by (induction s arbitrary: k) (auto simp: take_Cons split: nat.split)

lemma digits_three:
  assumes "scanNum 2 s = Some (n, r)" "noDigit r"
  shows "digitsUpTo 3 s \<noteq> [] \<and> n = atoi (digitsUpTo 3 s) \<and> r = drop (length (digitsUpTo 3 s)) s"
proof -
  let ?w = "takeWhile isDigit s"
  have d: "digitsUpTo 2 s \<noteq> []" "n = atoi (digitsUpTo 2 s)" "r = drop (length (digitsUpTo 2 s)) s"
    using assms(1) by (auto simp: scanNum_def Let_def split: if_splits)
  have "length ?w \<le> 2"
  proof (rule ccontr)
    assume l: "\<not> length ?w \<le> 2"
    then have "length (digitsUpTo 2 s) = 2" by (simp add: digitsUpTo_take)
    then have "r = drop 2 s" using d(3) by simp
    moreover have "2 < length s" using l length_takeWhile_le [of isDigit s] by linarith
    moreover have "isDigit (s ! 2)" using l takeWhile_nth [of 2 isDigit s] set_takeWhileD [of "?w ! 2" isDigit s] nth_mem [of 2 ?w] by simp
    ultimately show False using assms(2) by (simp add: noDigit_def hd_drop_conv_nth)
  qed
  then have "digitsUpTo 3 s = digitsUpTo 2 s" by (simp add: digitsUpTo_take)
  then show ?thesis using d by simp
qed

lemma fields_agree:
  "scanFields muls secs s = Some (v, r) \<Longrightarrow> noDigit r \<Longrightarrow> 0 < k \<Longrightarrow> tzFields k muls secs s = Some (v, r)"
proof (induction muls arbitrary: k secs s)
  case (Cons mul muls)
  show ?case
  proof (cases "eat CHR '':'' s")
    case (Pair f s')
    show ?thesis
    proof (cases f)
      case True
      then have s: "s = CHR '':'' # s'" using Pair by (simp add: eat_True)
      obtain n s2 where n: "scanNum 2 s' = Some (n, s2)" "scanFields muls (secs + n * mul) s2 = Some (v, r)"
        using Cons.prems(1) Pair True by (auto split: option.splits if_splits)
      have "noDigit s2"
      proof (cases muls)
        case Nil
        then show ?thesis using n(2) Cons.prems(2) by simp
      next
        case (Cons m ms)
        show ?thesis
        proof (cases "HasPrefix s2 '':''")
          case True
          then show ?thesis by (cases s2) (auto simp: HasPrefix_def noDigit_def isDigit_def)
        next
          case False
          then have "eat CHR '':'' s2 = (False, s2)" by (simp add: eat_False)
          then have "r = s2" using n(2) Cons by simp
          then show ?thesis using Cons.prems(2) \<open>noDigit r\<close> by simp
        qed
      qed
      then show ?thesis using digits_three [OF n(1)] Cons.IH [OF n(2) Cons.prems(2), of "Suc k"] Cons.prems(3) by (simp add: s HasPrefix_def Let_def)
    next
      case False
      then have "s' = s" "\<not> HasPrefix s '':''" using Pair by (auto simp: eat_False)
      then show ?thesis using Cons.prems Pair False by simp
    qed
  qed
qed simp

lemma scanFields_max: "scanFields muls secs s = Some (v, r) \<Longrightarrow> \<forall>m \<in> set muls. 0 \<le> m \<Longrightarrow> v \<le> secs + 59 * sum_list muls"
proof (induction muls arbitrary: secs s)
  case (Cons m ms)
  have sum: "0 \<le> sum_list ms" using Cons.prems(2) by (simp add: sum_list_nonneg)
  show ?case
  proof (cases "eat CHR '':'' s")
    case (Pair f s')
    show ?thesis
    proof (cases f)
      case True
      then obtain n s2 where n: "n \<le> 59" "scanFields ms (secs + n * m) s2 = Some (v, r)"
        using Cons.prems(1) Pair by (auto simp: not_less split: option.splits if_splits)
      have "n * m \<le> 59 * m" using n(1) Cons.prems(2) by (simp add: mult_right_mono)
      then show ?thesis using Cons.IH [OF n(2)] Cons.prems(2) by simp
    next
      case False
      then have "v = secs" using Cons.prems(1) Pair by simp
      then show ?thesis using sum Cons.prems(2) by simp
    qed
  qed
qed simp

lemma scanFields_rest: "scanFields [60, 1] secs s = Some (v, r) \<Longrightarrow> noDigit r \<Longrightarrow> noDigit s"
proof (cases "HasPrefix s '':''")
  case True
  then show ?thesis by (cases s) (auto simp: HasPrefix_def noDigit_def isDigit_def)
next
  case False
  assume a: "scanFields [60, 1] secs s = Some (v, r)" "noDigit r"
  have "eat CHR '':'' s = (False, s)" using False by (simp add: eat_False)
  then show ?thesis using a by simp
qed

lemma offset_agree:
  assumes "scanOffset True s = Some (v, r)" "noDigit r"
  shows "tzOffsetOf s = Some (v, r)"
proof -
  define neg s1 where "neg = fst (eat CHR ''-'' s)" and "s1 = (if neg then snd (eat CHR ''-'' s) else snd (eat CHR ''+'' s))"
  obtain h s2 secs where h: "scanNum 2 s1 = Some (h, s2)" "h \<le> 24" "scanFields [60, 1] (h * 3600) s2 = Some (secs, r)" "v = (if neg then - 1 else 1) * secs"
  proof -
    have s1: "s1 = (if neg then snd (eat CHR ''-'' s) else snd (eat CHR ''+'' (snd (eat CHR ''-'' s))))"
      by (auto simp: s1_def neg_def eat_def split: list.splits)
    have "scanOffset True s = (case scanNum 2 s1 of None \<Rightarrow> None | Some (h, s) \<Rightarrow> if h > 24 then None
        else map_option (\<lambda>(secs, s). ((if neg then - 1 else 1) * secs, s)) (scanFields [60, 1] (h * 3600) s))"
      unfolding scanOffset_def Let_def s1 neg_def case_prod_beta by (simp del: scanFields.simps)
    then obtain h s2 where h: "scanNum 2 s1 = Some (h, s2)" "h \<le> 24"
      and m: "Some (v, r) = map_option (\<lambda>(secs, s). ((if neg then - 1 else 1) * secs, s)) (scanFields [60, 1] (h * 3600) s2)"
      using assms(1) by (auto simp: not_less simp del: scanFields.simps split: option.splits if_splits)
    from m obtain secs where "scanFields [60, 1] (h * 3600) s2 = Some (secs, r)" "v = (if neg then - 1 else 1) * secs"
      by (cases "scanFields [60, 1] (h * 3600) s2") auto
    then show ?thesis using that h by blast
  qed
  have "noDigit s2" by (rule scanFields_rest [OF h(3) assms(2)])
  note d = digits_three [OF h(1) this]
  have "tzFields 0 [3600, 60, 1] 0 s1 = tzFields (Suc 0) [60, 1] (0 + atoi (digitsUpTo 3 s1) * 3600) (drop (length (digitsUpTo 3 s1)) s1)"
    using d by (simp add: Let_def)
  then have f: "tzFields 0 [3600, 60, 1] 0 s1 = Some (secs, r)" using fields_agree [OF h(3) assms(2), of "Suc 0"] d by simp
  have "secs \<le> 90000" using scanFields_max [OF h(3)] h(2) by simp
  moreover have "(if HasPrefix s ''+'' then (1, tl s) else if HasPrefix s ''-'' then (- 1, tl s) else (1, s)) = (if neg then - 1 else (1 :: int), s1)"
    by (cases s) (auto simp: neg_def s1_def eat_def HasPrefix_def)
  ultimately show ?thesis unfolding tzOffsetOf_def using f h(4) by simp
qed

lemma rules_comma: "scanRules s = None \<Longrightarrow> HasPrefix s '','' \<and> noDigit s"
  by (cases s) (auto simp: scanRules_def eat_def HasPrefix_def noDigit_def isDigit_def split: if_splits)

lemma dstOffset_two:
  "(if s \<noteq> [] \<and> \<not> HasPrefix s '','' then map_option (\<lambda>(d, r). (- d, r)) (tzOffsetOf s) else Some (std + 3600, s)) = Some (dst, r)
   \<Longrightarrow> dstOffset std s u = std \<or> dstOffset std s u = dst"
  unfolding dstOffset_def by (auto simp: Let_def split: list.splits option.splits)

text \<open>
  The clock follows the validated timezone: wherever \<open>system.timezone\<close> is accepted, the offset the firewall and the
  schedules compute, at any time, is the standard offset the validation read from it or, if it names a summer time, the
  summer offset. The two parsers, one of which reads up to three digits where the other reads two, never differ on it, and
  an accepted timezone is never taken for the name of a zone file.
\<close>

theorem tz_agree:
  assumes "parseTZ tz = Inr z"
  shows "tzOffset loc tz u = zStdOff z \<or> zHasDST z \<and> tzOffset loc tz u = zDSTOff z"
proof -
  obtain std s off s1 where n: "tz \<noteq> []" "scanName tz = Some (std, s)" "scanOffset True s = Some (off, s1)"
    using assms by (auto simp: parseTZ_def split: if_splits option.splits prod.splits)
  have name: "tzName tz = Some s" using scanName_tzName [OF n(2)] by simp
  show ?thesis
  proof (cases "s1 = []")
    case True
    have o1: "tzOffsetOf s = Some (off, [])" using offset_agree [OF n(3)] True by (simp add: noDigit_def)
    have "zStdOff z = - off" using assms unfolding parseTZ_def n(2) option.case prod.case n(3) Let_def by (auto simp: True split: if_splits)
    then show ?thesis using n(1) name o1 by (simp add: tzOffset_def)
  next
    case False
    then obtain dst s2 dstOff s3 where d: "scanName s1 = Some (dst, s2)"
      "(if s2 \<noteq> [] \<and> \<not> HasPrefix s2 '','' then map_option (\<lambda>(o', r). (- o', r)) (scanOffset True s2) else Some (- off + 3600, s2)) = Some (dstOff, s3)"
      "scanRules s3 = None" "zStdOff z = - off" "zDSTOff z = dstOff" "zHasDST z"
      using assms unfolding parseTZ_def n(2) option.case prod.case n(3) Let_def by (auto split: if_splits option.splits)
    have o1: "tzOffsetOf s = Some (off, s1)" using offset_agree [OF n(3)] scanName_tzName [OF d(1)] by simp
    have "(if s2 \<noteq> [] \<and> \<not> HasPrefix s2 '','' then map_option (\<lambda>(d, r). (- d, r)) (tzOffsetOf s2) else Some (- off + 3600, s2)) = Some (dstOff, s3)"
      using d(2) rules_comma [OF d(3)] offset_agree [of s2] by (auto split: if_splits)
    from dstOffset_two [OF this, of u] show ?thesis
      using n(1) name o1 False scanName_tzName [OF d(1)] d(4-6) by (simp add: tzOffset_def)
  qed
qed

theorem tz_agree_witness: "tzOffset (\<lambda>_ _. None) ''CET-1CEST,M3.5.0,M10.5.0/3'' 1782907200 \<in> {3600, 7200}"
proof -
  have "(case parseTZ ''CET-1CEST,M3.5.0,M10.5.0/3'' of Inr z \<Rightarrow> zStdOff z = 3600 \<and> zDSTOff z = 7200 | Inl e \<Rightarrow> False)" by code_simp
  then obtain z where z: "parseTZ ''CET-1CEST,M3.5.0,M10.5.0/3'' = Inr z" "zStdOff z = 3600" "zDSTOff z = 7200"
    by (cases "parseTZ ''CET-1CEST,M3.5.0,M10.5.0/3''") auto
  then show ?thesis using tz_agree [OF z(1), of "\<lambda>_ _. None" 1782907200] by auto
qed

text \<open>
  C31. Summer time by day numbers is accepted and then ignored. The timezone \<open>EST5EDT,J60,J300\<close> passes the validation, with
  summer time four hours behind UTC, but the clock of the firewall and of the schedules knows only rules by month and
  weekday: at every time of the year it runs on standard time, one hour behind the wall clock from March to October.
\<close>

theorem tz_julian_ignored:
  "(\<exists>z. parseTZ ''EST5EDT,J60,J300'' = Inr z \<and> zHasDST z \<and> zStdOff z = - 18000 \<and> zDSTOff z = - 14400)
   \<and> tzOffset loc ''EST5EDT,J60,J300'' u = - 18000"
proof
  have "(case parseTZ ''EST5EDT,J60,J300'' of Inr z \<Rightarrow> zHasDST z \<and> zStdOff z = - 18000 \<and> zDSTOff z = - 14400 | Inl e \<Rightarrow> False)" by code_simp
  then show "\<exists>z. parseTZ ''EST5EDT,J60,J300'' = Inr z \<and> zHasDST z \<and> zStdOff z = - 18000 \<and> zDSTOff z = - 14400"
    by (cases "parseTZ ''EST5EDT,J60,J300''") auto
  have r: "ruleTime ''J60'' = Some (7200, ''J60'')" "HasPrefix ''J60'' ''M'' = False" by code_simp+
  have j: "tzRule ''J60'' y e = None" for y e unfolding tzRule_def r by (simp add: r)
  have p: "SplitByte CHR '','' (tl '',J60,J300'') = [''J60'', ''J300'']" "HasPrefix '',J60,J300'' '',''" by code_simp+
  have d: "dstOffset (- 18000) '',J60,J300'' u = - 18000" unfolding dstOffset_def using p by (simp add: j)
  have "tzName ''EST5EDT,J60,J300'' = Some ''5EDT,J60,J300''" "tzOffsetOf ''5EDT,J60,J300'' = Some (18000, ''EDT,J60,J300'')"
    "tzName ''EDT,J60,J300'' = Some '',J60,J300''" by code_simp+
  then show "tzOffset loc ''EST5EDT,J60,J300'' u = - 18000" using d by (simp add: tzOffset_def)
qed

end
