(* ===== verification/Spec2Isabelle.thy ===== *)
theory Spec2Isabelle
  imports Login_Throttle Fw_Time Cfg_Path Config_Diff Confirm_Race Token_Guard Fw_Forward Guard Sys_Cron Risk Dev_Pause Sys_TZ
begin

text \<open>
  Verification of mini-router's \<open>mr\<close> (the Go program under \<open>mr/\<close>).
\<close>

end
